(* ===== verification/Prelude.thy ===== *)
theory Prelude
  imports Main "HOL-Library.Word" "HOL-Library.List_Lexorder" "HOL-Library.Char_ord"
begin

text \<open>
  The shared vocabulary of the development: machine words, the storage layer's error type and
  result monad (\<^verbatim>\<open>dtdb_storage/src/lib.rs\<close>), and the parts of the Rust standard library the
  storage layer computes with: three-way comparison, the branch-free binary search of slices,
  \<open>partition_point\<close>, and the ordered map \<open>BTreeMap\<close> as a strictly key-sorted association list.
  The generic lemmas on them are collected in \<open>result_simps\<close> and \<open>btree_simps\<close>.
\<close>

named_theorems result_simps \<open>rewriting in the result monad\<close>
named_theorems btree_simps \<open>sorted association lists as finite maps\<close>

section \<open>Words and results\<close>

type_synonym byte = "8 word"
type_synonym u32 = "32 word"
type_synonym u64 = "64 word"
type_synonym i64 = "64 word"

text \<open>
  \<open>StorageError\<close>. The text of a message is kept up to its interpolated values; the operating
  system's and the serializer's own error values are opaque.
\<close>

datatype storage_error =
    Io
  | Serialization
  | Compression string
  | Corruption string
  | AlreadyExists string
  | InvalidOptions string

type_synonym 'a result = "storage_error + 'a"

text \<open>The question-mark operator: an error ends the computation.\<close>

definition rbind :: "'e + 'a \<Rightarrow> ('a \<Rightarrow> 'e + 'b) \<Rightarrow> 'e + 'b" where
  "rbind m f = (case m of Inl e \<Rightarrow> Inl e | Inr x \<Rightarrow> f x)"

definition ok_or :: "'e \<Rightarrow> 'a option \<Rightarrow> 'e + 'a" where
  "ok_or e x = (case x of None \<Rightarrow> Inl e | Some v \<Rightarrow> Inr v)"

lemma rbind_Inl [simp, result_simps]: "rbind (Inl e) f = Inl e"
  and rbind_Inr [simp, result_simps]: "rbind (Inr x) f = f x"
  by (simp_all add: rbind_def)

lemma ok_or_None [simp, result_simps]: "ok_or e None = Inl e"
  and ok_or_Some [simp, result_simps]: "ok_or e (Some v) = Inr v"
  by (simp_all add: ok_or_def)

lemma rbind_eq_Inr: "rbind m f = Inr y \<longleftrightarrow> (\<exists>x. m = Inr x \<and> f x = Inr y)"
  by (cases m) auto

lemma ok_or_eq_Inr: "ok_or e m = Inr x \<longleftrightarrow> m = Some x"
  by (cases m) auto

section \<open>Little-endian integers\<close>

text \<open>\<open>u32::to_le_bytes\<close>, \<open>u64::to_le_bytes\<close> and their inverses.\<close>

definition le_bytes :: "nat \<Rightarrow> 'a::len word \<Rightarrow> byte list" where
  "le_bytes n w = map (\<lambda>i. ucast (drop_bit (8 * i) w)) [0..<n]"

fun from_le_bytes :: "byte list \<Rightarrow> nat" where
  "from_le_bytes [] = 0"
| "from_le_bytes (b # bs) = unat b + 256 * from_le_bytes bs"

abbreviation le32 :: "u32 \<Rightarrow> byte list" where "le32 w \<equiv> le_bytes 4 w"
abbreviation le64 :: "u64 \<Rightarrow> byte list" where "le64 w \<equiv> le_bytes 8 w"

definition from_le32 :: "byte list \<Rightarrow> u32" where "from_le32 bs = of_nat (from_le_bytes bs)"
definition from_le64 :: "byte list \<Rightarrow> u64" where "from_le64 bs = of_nat (from_le_bytes bs)"

lemma length_le_bytes [simp]: "length (le_bytes n w) = n"
  by (simp add: le_bytes_def)

lemma le_bytes_Suc:
  "le_bytes (Suc n) w = ucast w # le_bytes n (drop_bit 8 w)"
  by (simp add: le_bytes_def upt_conv_Cons map_Suc_upt [symmetric] ac_simps del: upt_Suc)

lemma unat_ucast_byte: "unat (ucast (w :: 'a::len word) :: byte) = unat w mod 256"
  by (simp add: unsigned_ucast_eq take_bit_eq_mod)

lemma from_le_bytes_le_bytes:
  "from_le_bytes (le_bytes n w) = unat w mod 256 ^ n"
proof (induction n arbitrary: w)
  case 0
  then show ?case by (simp add: le_bytes_def)
next
  case (Suc n)
  have "unat (drop_bit 8 w) = unat w div 256"
    by (simp only: unsigned_drop_bit_eq take_bit_nat_eq_self [OF unsigned_less]) (simp add: drop_bit_eq_div)
  then have "from_le_bytes (le_bytes (Suc n) w)
      = unat w mod 256 + 256 * (unat w div 256 mod 256 ^ n)"
    by (simp add: le_bytes_Suc Suc unat_ucast_byte)
  also have "\<dots> = unat w mod 256 ^ Suc n"
    by (simp add: mod_mult2_eq)
  finally show ?case .
qed

lemma from_le32_le32 [simp]: "from_le32 (le32 w) = w"
  using unsigned_less [of w, where ?'a = nat] by (simp add: from_le32_def from_le_bytes_le_bytes)

lemma from_le64_le64 [simp]: "from_le64 (le64 w) = w"
  using unsigned_less [of w, where ?'a = nat] by (simp add: from_le64_def from_le_bytes_le_bytes)

section \<open>Three-way comparison and binary search\<close>

datatype ordering = Less | Equal | Greater

definition cmp :: "'a::linorder \<Rightarrow> 'a \<Rightarrow> ordering" where
  "cmp a b = (if a < b then Less else if a = b then Equal else Greater)"

lemma cmp_simps [simp]:
  "cmp a b = Less \<longleftrightarrow> a < b" "cmp a b = Equal \<longleftrightarrow> a = b" "cmp a b = Greater \<longleftrightarrow> b < a"
  by (auto simp: cmp_def)

text \<open>
  \<open>slice::binary_search_by\<close>: \<open>base\<close> moves right unless the probe is \<open>Greater\<close>, the window
  halves, and the last element left decides between \<open>Ok\<close> (\<open>Inr\<close>) and the insertion point
  \<open>Err\<close> (\<open>Inl\<close>).
\<close>

function bs_loop :: "('a \<Rightarrow> ordering) \<Rightarrow> 'a list \<Rightarrow> nat \<Rightarrow> nat \<Rightarrow> nat" where
  "bs_loop f xs base sz =
     (if sz \<le> 1 then base
      else bs_loop f xs
             (if f (xs ! (base + sz div 2)) = Greater then base else base + sz div 2)
             (sz - sz div 2))"
  by pat_completeness auto
termination
  by (relation "measure (\<lambda>(f, xs, base, sz). sz)") auto

declare bs_loop.simps [simp del]

definition binary_search_by :: "('a \<Rightarrow> ordering) \<Rightarrow> 'a list \<Rightarrow> nat + nat" where
  "binary_search_by f xs =
     (if xs = [] then Inl 0
      else let base = bs_loop f xs 0 (length xs); c = f (xs ! base)
           in if c = Equal then Inr base else Inl (if c = Less then base + 1 else base))"

definition partition_point :: "('a \<Rightarrow> bool) \<Rightarrow> 'a list \<Rightarrow> nat" where
  "partition_point p xs =
     (case binary_search_by (\<lambda>x. if p x then Less else Greater) xs of Inl i \<Rightarrow> i | Inr i \<Rightarrow> i)"

text \<open>
  A comparison function that is monotone along the slice: first the elements below the target,
  then the equal ones, then those above.
\<close>

definition bs_sorted :: "('a \<Rightarrow> ordering) \<Rightarrow> 'a list \<Rightarrow> bool" where
  "bs_sorted f xs \<longleftrightarrow> sorted_wrt (\<lambda>x y. (f y = Less \<longrightarrow> f x = Less) \<and> (f x = Greater \<longrightarrow> f y = Greater)) xs"

lemma bs_sorted_nth:
  assumes "bs_sorted f xs" "i \<le> j" "j < length xs"
  shows bs_sorted_nth_Less: "f (xs ! j) = Less \<Longrightarrow> f (xs ! i) = Less"
    and bs_sorted_nth_Greater: "f (xs ! i) = Greater \<Longrightarrow> f (xs ! j) = Greater"
proof -
  have *: "i < j \<Longrightarrow> (f (xs ! j) = Less \<longrightarrow> f (xs ! i) = Less) \<and> (f (xs ! i) = Greater \<longrightarrow> f (xs ! j) = Greater)"
    using assms(1,3) unfolding bs_sorted_def sorted_wrt_iff_nth_less by blast
  consider "i = j" | "i < j" using assms(2) by linarith
  note c = this
  show "f (xs ! j) = Less \<Longrightarrow> f (xs ! i) = Less" by (cases rule: c) (use * in auto)
  show "f (xs ! i) = Greater \<Longrightarrow> f (xs ! j) = Greater" by (cases rule: c) (use * in auto)
qed

text \<open>
  The loop's result: an index whose element is not \<open>Greater\<close> (unless it is the first one), with
  only \<open>Greater\<close> elements to its right.
\<close>

definition bs_pos :: "('a \<Rightarrow> ordering) \<Rightarrow> 'a list \<Rightarrow> nat \<Rightarrow> bool" where
  "bs_pos f xs b \<longleftrightarrow> b < length xs \<and> (b = 0 \<or> f (xs ! b) \<noteq> Greater)
     \<and> (\<forall>i. b < i \<longrightarrow> i < length xs \<longrightarrow> f (xs ! i) = Greater)"

lemma bs_loop_inv:
  assumes "bs_sorted f xs" "0 < sz" "base + sz \<le> length xs"
    and "base = 0 \<or> f (xs ! base) \<noteq> Greater"
    and "\<forall>i. base + sz \<le> i \<longrightarrow> i < length xs \<longrightarrow> f (xs ! i) = Greater"
  shows "bs_pos f xs (bs_loop f xs base sz)"
  using assms
proof (induction f xs base sz rule: bs_loop.induct)
  case (1 f xs base sz)
  show ?case
  proof (cases "sz \<le> 1")
    case True
    with 1(3) have sz: "sz = Suc 0" by simp
    then have "bs_loop f xs base sz = base" by (simp add: bs_loop.simps)
    with 1(4,5,6) sz show ?thesis by (simp add: bs_pos_def)
  next
    case False
    let ?mid = "base + sz div 2"
    have mid: "?mid < length xs" "sz div 2 < sz" "sz div 2 \<le> sz - sz div 2" "base + (sz - sz div 2) \<le> length xs"
      using 1(4) False by linarith+
    show ?thesis
    proof (cases "f (xs ! ?mid) = Greater")
      case True
      have "\<forall>i. base + (sz - sz div 2) \<le> i \<longrightarrow> i < length xs \<longrightarrow> f (xs ! i) = Greater"
        using bs_sorted_nth_Greater [OF 1(2) _ _ True] mid(3) by (meson add_le_cancel_left le_trans)
      with True False mid 1(2,5) show ?thesis
        using 1(1) by (simp add: bs_loop.simps [of f xs base sz])
    next
      case mid_le: False
      have "?mid + (sz - sz div 2) = base + sz" using mid(2) by linarith
      with mid_le False mid 1(2,4,6) show ?thesis
        using 1(1) by (simp add: bs_loop.simps [of f xs base sz])
    qed
  qed
qed

lemma bs_loop_pos: "bs_sorted f xs \<Longrightarrow> xs \<noteq> [] \<Longrightarrow> bs_pos f xs (bs_loop f xs 0 (length xs))"
  by (rule bs_loop_inv) simp_all

lemma binary_search_by_Inr:
  assumes "bs_sorted f xs" "binary_search_by f xs = Inr i"
  shows "i < length xs \<and> f (xs ! i) = Equal"
proof (cases "xs = []")
  case False
  with bs_loop_pos [OF assms(1)] assms(2) show ?thesis
    by (auto simp: binary_search_by_def bs_pos_def Let_def split: if_splits)
qed (use assms in \<open>simp add: binary_search_by_def\<close>)

lemma binary_search_by_Inl:
  assumes "bs_sorted f xs" "binary_search_by f xs = Inl i"
  shows "i \<le> length xs \<and> (\<forall>j < i. f (xs ! j) = Less) \<and> (\<forall>j. i \<le> j \<longrightarrow> j < length xs \<longrightarrow> f (xs ! j) = Greater)"
proof (cases "xs = []")
  case True
  with assms show ?thesis by (simp add: binary_search_by_def)
next
  case False
  define b where "b = bs_loop f xs 0 (length xs)"
  have b: "b < length xs" "b = 0 \<or> f (xs ! b) \<noteq> Greater"
    and gt: "\<And>i. b < i \<Longrightarrow> i < length xs \<Longrightarrow> f (xs ! i) = Greater"
    using bs_loop_pos [OF assms(1) False] unfolding b_def bs_pos_def by blast+
  have c: "f (xs ! b) \<noteq> Equal" and i: "i = (if f (xs ! b) = Less then b + 1 else b)"
    using assms(2) False by (auto simp: binary_search_by_def Let_def b_def [symmetric] split: if_splits)
  show ?thesis
  proof (cases "f (xs ! b)")
    case Less
    then have "i = Suc b" using i by simp
    moreover have "\<forall>j < Suc b. f (xs ! j) = Less"
      using bs_sorted_nth_Less [OF assms(1) _ b(1) Less] less_Suc_eq_le by blast
    ultimately show ?thesis using b(1) gt by (simp add: Suc_le_eq)
  next
    case Greater
    with b(2) i have "b = 0" "i = 0" by simp_all
    moreover have "\<forall>j. 0 \<le> j \<longrightarrow> j < length xs \<longrightarrow> f (xs ! j) = Greater"
      using bs_sorted_nth_Greater [OF assms(1)] Greater \<open>b = 0\<close> by blast
    ultimately show ?thesis by simp
  qed (use c in simp)
qed

text \<open>On a slice sorted by a key, the search finds the key exactly when it is there.\<close>

lemma bs_sorted_key:
  assumes "sorted_wrt (<) (map g xs)"
  shows "bs_sorted (\<lambda>x. cmp (g x) k) xs"
  using assms unfolding bs_sorted_def sorted_wrt_map
  by (rule sorted_wrt_mono_rel [rotated]) auto

lemma bs_sorted_pred:
  assumes "sorted_wrt (\<lambda>x y. p y \<longrightarrow> p x) xs"
  shows "bs_sorted (\<lambda>x. if p x then Less else Greater) xs"
  using assms unfolding bs_sorted_def
  by (rule sorted_wrt_mono_rel [rotated]) auto

lemma partition_point_spec:
  assumes "sorted_wrt (\<lambda>x y. p y \<longrightarrow> p x) xs"
  shows "partition_point p xs \<le> length xs"
    and "j < partition_point p xs \<Longrightarrow> p (xs ! j)"
    and "partition_point p xs \<le> j \<Longrightarrow> j < length xs \<Longrightarrow> \<not> p (xs ! j)"
proof -
  let ?f = "\<lambda>x. if p x then Less else Greater"
  note s = bs_sorted_pred [OF assms]
  have "\<And>i. binary_search_by ?f xs \<noteq> Inr i"
    using binary_search_by_Inr [OF s] by (metis ordering.distinct(1,5))
  then obtain i where i: "binary_search_by ?f xs = Inl i" by (cases "binary_search_by ?f xs") auto
  then have pp: "partition_point p xs = i" by (simp add: partition_point_def)
  note sp = binary_search_by_Inl [OF s i]
  show "partition_point p xs \<le> length xs" using sp pp by simp
  show "j < partition_point p xs \<Longrightarrow> p (xs ! j)" using sp pp by (auto split: if_splits)
  show "partition_point p xs \<le> j \<Longrightarrow> j < length xs \<Longrightarrow> \<not> p (xs ! j)"
    using sp pp by (auto split: if_splits)
qed

lemma partition_point_takeWhile:
  assumes "sorted_wrt (\<lambda>x y. p y \<longrightarrow> p x) xs"
  shows "partition_point p xs = length (takeWhile p xs)"
proof (rule antisym)
  note s = partition_point_spec [OF assms]
  show "partition_point p xs \<le> length (takeWhile p xs)"
  proof (rule ccontr)
    assume "\<not> ?thesis"
    then have l: "length (takeWhile p xs) < partition_point p xs" by simp
    then have "length (takeWhile p xs) < length xs" using s(1) by simp
    then have "\<not> p (xs ! length (takeWhile p xs))" by (rule nth_length_takeWhile)
    with s(2) [OF l] show False by simp
  qed
  show "length (takeWhile p xs) \<le> partition_point p xs"
  proof (rule ccontr)
    assume "\<not> ?thesis"
    then have l: "partition_point p xs < length (takeWhile p xs)" by simp
    then have "partition_point p xs < length xs" using length_takeWhile_le [of p xs] by linarith
    then have "\<not> p (xs ! partition_point p xs)" using s(3) [OF order.refl] by simp
    moreover have "p (takeWhile p xs ! partition_point p xs)"
      using set_takeWhileD [OF nth_mem [OF l]] by simp
    ultimately show False using takeWhile_nth [OF l] by simp
  qed
qed

section \<open>Searching lists\<close>

text \<open>\<open>Iterator::position\<close>, and the elements of a list whose computations all succeed.\<close>

fun position :: "('a \<Rightarrow> bool) \<Rightarrow> 'a list \<Rightarrow> nat option" where
  "position p [] = None"
| "position p (x # xs) = (if p x then Some 0 else map_option Suc (position p xs))"

fun all_some :: "'a option list \<Rightarrow> 'a list option" where
  "all_some [] = Some []"
| "all_some (x # xs) = (case x of None \<Rightarrow> None | Some y \<Rightarrow> map_option (Cons y) (all_some xs))"

lemma position_None: "position p xs = None \<longleftrightarrow> (\<forall>x \<in> set xs. \<not> p x)"
  by (induction xs) auto

lemma position_Some: "position p xs = Some i \<longleftrightarrow> i < length xs \<and> p (xs ! i) \<and> (\<forall>j < i. \<not> p (xs ! j))"
proof (induction xs arbitrary: i)
  case (Cons x xs)
  then show ?case by (cases i) (auto simp: nth_Cons split: nat.splits)
qed simp

lemma position_distinct:
  assumes "distinct (map f xs)" "i < length xs"
  shows "position (\<lambda>x. f x = f (xs ! i)) xs = Some i"
  unfolding position_Some using assms by (auto simp: distinct_conv_nth)

lemma all_some_map: "\<forall>x \<in> set xs. f x = Some (g x) \<Longrightarrow> all_some (map f xs) = Some (map g xs)"
  by (induction xs) auto

end
