(* ===== verification/Ordered_Map.thy ===== *)
theory Ordered_Map
  imports Prelude
begin

text \<open>
  The standard library's \<open>BTreeMap\<close> as a strictly key-sorted association list: insertion,
  lookup (\<open>map_of\<close>) and inclusive range scans. The interface \<open>ordered_map\<close> states what the
  storage layer relies on when it writes into such a map and later reads it back in key order;
  the association list and the memtable both provide it.
\<close>

abbreviation ksorted :: "('k::linorder \<times> 'v) list \<Rightarrow> bool" where
  "ksorted xs \<equiv> sorted_wrt (<) (map fst xs)"

fun bt_insert :: "'k::linorder \<Rightarrow> 'v \<Rightarrow> ('k \<times> 'v) list \<Rightarrow> ('k \<times> 'v) list" where
  "bt_insert k v [] = [(k, v)]"
| "bt_insert k v ((k', v') # xs) =
     (if k < k' then (k, v) # (k', v') # xs
      else if k = k' then (k, v) # xs
      else (k', v') # bt_insert k v xs)"

text \<open>
  \<open>BTreeMap::range(lo..=hi)\<close> panics when the range is inverted and the map has a root node,
  that is, is not empty; \<open>None\<close> is the panic.
\<close>

definition in_range :: "'k::linorder \<Rightarrow> 'k \<Rightarrow> 'k \<times> 'v \<Rightarrow> bool" where
  "in_range lo hi e \<longleftrightarrow> lo \<le> fst e \<and> fst e \<le> hi"

definition bt_range :: "'k::linorder \<Rightarrow> 'k \<Rightarrow> ('k \<times> 'v) list \<Rightarrow> ('k \<times> 'v) list option" where
  "bt_range lo hi xs =
     (if hi < lo \<and> xs \<noteq> [] then None else Some (filter (in_range lo hi) xs))"

section \<open>Lookup and order\<close>

lemma set_fst_bt_insert: "fst ` set (bt_insert k v xs) = insert k (fst ` set xs)"
  by (induction k v xs rule: bt_insert.induct) auto

lemma ksorted_bt_insert [simp, btree_simps]: "ksorted xs \<Longrightarrow> ksorted (bt_insert k v xs)"
proof (induction k v xs rule: bt_insert.induct)
  case (2 k v k' v' xs)
  have *: "y \<in> insert k (fst ` set xs)" if "y \<in> set (map fst (bt_insert k v xs))" for y
    using that set_fst_bt_insert [of k v xs] by auto
  have "\<forall>y \<in> fst ` set xs. k' < y" "ksorted xs" using 2(2) by auto
  with 2(1) * show ?case by (cases "k < k'"; cases "k = k'"; force)
qed simp

lemma map_of_bt_insert [simp, btree_simps]: "map_of (bt_insert k v xs) = (map_of xs)(k \<mapsto> v)"
  by (induction k v xs rule: bt_insert.induct) auto

lemma ksorted_distinct: "ksorted xs \<Longrightarrow> distinct (map fst xs)"
  by (simp add: strict_sorted_iff)

lemma ksorted_filter [simp, btree_simps]: "ksorted xs \<Longrightarrow> ksorted (filter p xs)"
  by (induction xs) auto

lemma ksorted_append:
  "ksorted (xs @ ys) \<longleftrightarrow> ksorted xs \<and> ksorted ys \<and> (\<forall>x \<in> fst ` set xs. \<forall>y \<in> fst ` set ys. x < y)"
  by (auto simp: sorted_wrt_append)

lemma map_of_ksorted_None: "ksorted ((k, v) # xs) \<Longrightarrow> k' \<le> k \<Longrightarrow> map_of xs k' = None"
  by (auto simp: map_of_eq_None_iff)

lemma map_of_filter_fst:
  assumes "ksorted xs"
  shows "map_of (filter (\<lambda>e. p (fst e)) xs) k = (if p k then map_of xs k else None)"
  using assms by (induction xs) auto

lemma map_of_range:
  assumes "ksorted xs"
  shows "map_of (filter (in_range lo hi) xs) k = (if lo \<le> k \<and> k \<le> hi then map_of xs k else None)"
proof -
  have "in_range lo hi = (\<lambda>e :: 'a \<times> 'b. (\<lambda>k. lo \<le> k \<and> k \<le> hi) (fst e))"
    by (auto simp: in_range_def fun_eq_iff)
  with map_of_filter_fst [OF assms, of "\<lambda>k. lo \<le> k \<and> k \<le> hi"] show ?thesis by simp
qed

text \<open>A strictly sorted association list is determined by the map it represents.\<close>

lemma ksorted_unique:
  assumes "ksorted xs" "ksorted ys" "map_of xs = map_of ys"
  shows "xs = ys"
  using assms
proof (induction xs arbitrary: ys)
  case Nil
  then show ?case by (cases ys) (auto simp: fun_eq_iff split: if_splits)
next
  case (Cons x xs)
  obtain k v where x: "x = (k, v)" by force
  have "ys \<noteq> []" using Cons.prems(3) x by (auto simp: fun_eq_iff split: if_splits)
  then obtain k' v' zs where ys: "ys = (k', v') # zs" by (cases ys) auto
  have eq: "map_of ((k, v) # xs) a = map_of ((k', v') # zs) a" for a
    using fun_cong [OF Cons.prems(3), of a] unfolding x ys .
  have "\<not> k < k'"
  proof
    assume "k < k'"
    then have "k \<le> k'" "k \<noteq> k'" by simp_all
    then show False using eq [of k] map_of_ksorted_None [of k' v' zs k] Cons.prems(2) ys by simp
  qed
  moreover have "\<not> k' < k"
  proof
    assume "k' < k"
    then have "k' \<le> k" "k' \<noteq> k" by simp_all
    then show False using eq [of k'] map_of_ksorted_None [of k v xs k'] Cons.prems(1) x by simp
  qed
  ultimately have k: "k' = k" by simp
  with eq [of k] have v: "v' = v" by simp
  have "map_of xs = map_of zs"
  proof
    fix a
    show "map_of xs a = map_of zs a"
    proof (cases "a = k")
      case True
      then show ?thesis
        using map_of_ksorted_None [of k v xs k] map_of_ksorted_None [of k v zs k] Cons.prems(1,2) x ys k
        by auto
    next
      case False
      with eq [of a] k show ?thesis by simp
    qed
  qed
  with Cons.IH [of zs] Cons.prems(1,2) x ys have "xs = zs" by simp
  with x ys k v show ?case by simp
qed

section \<open>The interface of an ordered map\<close>

locale ordered_map =
  fixes empty :: "'m"
    and put :: "'k::linorder \<Rightarrow> 'v \<Rightarrow> 'm \<Rightarrow> 'm"
    and get :: "'m \<Rightarrow> 'k \<Rightarrow> 'v option"
    and inorder :: "'m \<Rightarrow> ('k \<times> 'v) list"
    and invar :: "'m \<Rightarrow> bool"
  assumes get_empty: "get empty = Map.empty"
    and get_put: "invar m \<Longrightarrow> get (put k v m) = (get m)(k \<mapsto> v)"
    and inorder_sorted: "invar m \<Longrightarrow> ksorted (inorder m)"
    and inorder_get: "invar m \<Longrightarrow> map_of (inorder m) = get m"
    and invar_empty: "invar empty"
    and invar_put: "invar m \<Longrightarrow> invar (put k v m)"
begin

lemma invar_puts: "invar m \<Longrightarrow> invar (foldl (\<lambda>m (k, v). put k v m) m kvs)"
  by (induction kvs arbitrary: m) (auto simp: invar_put)

lemma get_puts: "invar m \<Longrightarrow> get (foldl (\<lambda>m (k, v). put k v m) m kvs) = get m ++ map_of (rev kvs)"
proof (induction kvs arbitrary: m)
  case (Cons kv kvs)
  obtain k v where kv: "kv = (k, v)" by force
  with Cons have "get (foldl (\<lambda>m (k, v). put k v m) m (kv # kvs)) = get (put k v m) ++ map_of (rev kvs)"
    by (simp add: invar_put)
  also have "\<dots> = get m ++ map_of (rev (kv # kvs))"
    using Cons.prems kv by (simp add: get_put map_add_def fun_eq_iff split: option.splits)
  finally show ?case .
qed simp

lemma inorder_determined:
  "invar m \<Longrightarrow> invar m' \<Longrightarrow> get m = get m' \<Longrightarrow> inorder m = inorder m'"
  by (rule ksorted_unique) (simp_all add: inorder_sorted inorder_get)

lemma inorder_puts:
  assumes "ksorted kvs"
  shows "inorder (foldl (\<lambda>m (k, v). put k v m) empty kvs) = kvs"
proof (rule ksorted_unique)
  let ?m = "foldl (\<lambda>m (k, v). put k v m) empty kvs"
  have inv: "invar ?m" by (rule invar_puts [OF invar_empty])
  show "ksorted (inorder ?m)" by (rule inorder_sorted [OF inv])
  have d: "distinct (map fst kvs)" by (rule ksorted_distinct [OF assms])
  have "map_of (rev kvs) = map_of kvs"
    using d by (metis distinct_rev map_of_eqI map_of_inject_set rev_map set_map set_rev)
  then show "map_of (inorder ?m) = map_of kvs"
    by (simp add: inorder_get [OF inv] get_puts [OF invar_empty] get_empty)
qed (rule assms)

end

interpretation bt: ordered_map "[]" bt_insert map_of "\<lambda>xs. xs" ksorted
  by unfold_locales simp_all

end
