(* ===== verification/Values.thy ===== *)
theory Values
  imports Ordered_Map
begin

text \<open>
  \<^verbatim>\<open>dtdb_storage/src/lib.rs\<close>: typed keys and values, their derived and hand-written orderings,
  equality and hashing, the byte-size heuristic shared by the memtable, the block cache and the
  SSTable writer, and the engine options with their validation.

  The scalar types of \<open>chrono\<close> and \<open>rust_decimal\<close> enter only through their total order; the
  type variable \<open>'x\<close> stands for them. A string is the list of its UTF-8 bytes, so that
  \<open>length\<close> is \<open>str::len\<close> and the order is the byte order. An \<open>i64\<close> is a 64-bit word
  compared by its signed value, an \<open>f64\<close> its IEEE 754 bit pattern.
\<close>

unbundle bit_operations_syntax

section \<open>Keys\<close>

datatype 'x dbkey =
    KInt i64
  | KDate 'x
  | KTime 'x
  | KTimestamp 'x
  | KDecimal 'x
  | KString string
  | KBool bool
  | KComposite "'x dbkey list"

fun key_byte_size :: "'x dbkey \<Rightarrow> nat" where
  "key_byte_size (KInt _) = 8"
| "key_byte_size (KDate _) = 4"
| "key_byte_size (KTime _) = 8"
| "key_byte_size (KTimestamp _) = 8"
| "key_byte_size (KDecimal _) = 16"
| "key_byte_size (KString s) = length s"
| "key_byte_size (KBool _) = 1"
| "key_byte_size (KComposite ks) = sum_list (map key_byte_size ks)"

text \<open>
  The derived \<open>Ord\<close>: variants in declaration order, then the payload; vectors compare
  lexicographically.
\<close>

fun key_rank :: "'x dbkey \<Rightarrow> nat" where
  "key_rank (KInt _) = 0"
| "key_rank (KDate _) = 1"
| "key_rank (KTime _) = 2"
| "key_rank (KTimestamp _) = 3"
| "key_rank (KDecimal _) = 4"
| "key_rank (KString _) = 5"
| "key_rank (KBool _) = 6"
| "key_rank (KComposite _) = 7"

fun cmp_key :: "'x::linorder dbkey \<Rightarrow> 'x dbkey \<Rightarrow> ordering"
  and cmp_keys :: "'x dbkey list \<Rightarrow> 'x dbkey list \<Rightarrow> ordering" where
  "cmp_key x y =
     (case (x, y) of
        (KInt a, KInt b) \<Rightarrow> cmp (sint a) (sint b)
      | (KDate a, KDate b) \<Rightarrow> cmp a b
      | (KTime a, KTime b) \<Rightarrow> cmp a b
      | (KTimestamp a, KTimestamp b) \<Rightarrow> cmp a b
      | (KDecimal a, KDecimal b) \<Rightarrow> cmp a b
      | (KString a, KString b) \<Rightarrow> cmp a b
      | (KBool a, KBool b) \<Rightarrow> cmp a b
      | (KComposite as, KComposite bs) \<Rightarrow> cmp_keys as bs
      | _ \<Rightarrow> cmp (key_rank x) (key_rank y))"
| "cmp_keys [] [] = Equal"
| "cmp_keys [] (_ # _) = Less"
| "cmp_keys (_ # _) [] = Greater"
| "cmp_keys (a # as) (b # bs) = (case cmp_key a b of Equal \<Rightarrow> cmp_keys as bs | c \<Rightarrow> c)"

declare cmp_key.simps [simp del]

lemma cmp_key_rank: "key_rank x \<noteq> key_rank y \<Longrightarrow> cmp_key x y = cmp (key_rank x) (key_rank y)"
  by (cases x; cases y) (simp_all add: cmp_key.simps)

lemma cmp_key_Less_rank: "cmp_key x y = Less \<Longrightarrow> key_rank x \<le> key_rank y"
  using cmp_key_rank [of x y] by (cases "key_rank x = key_rank y") auto

lemma cmp_keys_Equal:
  assumes "\<And>x y. x \<in> set xs \<Longrightarrow> cmp_key x y = Equal \<longleftrightarrow> x = y"
  shows "cmp_keys xs ys = Equal \<longleftrightarrow> xs = ys"
  using assms
proof (induction xs arbitrary: ys)
  case Nil
  then show ?case by (cases ys) simp_all
next
  case (Cons a as)
  show ?case
  proof (cases ys)
    case (Cons b bs)
    have "cmp_key a b = Equal \<longleftrightarrow> a = b" "cmp_keys as bs = Equal \<longleftrightarrow> as = bs"
      using Cons.prems Cons.IH by simp_all
    with Cons show ?thesis by (cases "cmp_key a b") auto
  qed simp
qed

lemma sint_inject: "sint (a :: i64) = sint b \<longleftrightarrow> a = b"
  by (auto intro: signed_word_eqI)

lemma cmp_key_Equal: "cmp_key x y = Equal \<longleftrightarrow> x = y"
proof (induction x arbitrary: y)
  case (KComposite xs)
  then show ?case using cmp_keys_Equal [of xs] by (cases y) (simp_all add: cmp_key.simps)
qed (case_tac y; simp add: cmp_key.simps sint_inject)+

fun rev_ordering :: "ordering \<Rightarrow> ordering" where
  "rev_ordering Less = Greater"
| "rev_ordering Equal = Equal"
| "rev_ordering Greater = Less"

lemma rev_cmp: "cmp b a = rev_ordering (cmp a b)"
  by (auto simp: cmp_def)

lemma cmp_keys_rev:
  assumes "\<And>x y. x \<in> set xs \<Longrightarrow> cmp_key y x = rev_ordering (cmp_key x y)"
  shows "cmp_keys ys xs = rev_ordering (cmp_keys xs ys)"
  using assms
proof (induction xs arbitrary: ys)
  case Nil
  then show ?case by (cases ys) simp_all
next
  case (Cons a as)
  show ?case
  proof (cases ys)
    case (Cons b bs)
    have "cmp_key b a = rev_ordering (cmp_key a b)" "cmp_keys bs as = rev_ordering (cmp_keys as bs)"
      using Cons.prems Cons.IH by simp_all
    with Cons show ?thesis by (cases "cmp_key a b") auto
  qed simp
qed

lemma cmp_key_rev: "cmp_key y x = rev_ordering (cmp_key x y)"
proof (induction x arbitrary: y)
  case (KComposite xs)
  then show ?case
    using cmp_keys_rev [of xs] by (cases y) (simp_all add: cmp_key.simps cmp_def)
qed (case_tac y; auto simp: cmp_key.simps cmp_def)+

lemma cmp_keys_trans:
  assumes "\<And>x y z. x \<in> set xs \<Longrightarrow> cmp_key x y = Less \<Longrightarrow> cmp_key y z = Less \<Longrightarrow> cmp_key x z = Less"
  shows "cmp_keys xs ys = Less \<Longrightarrow> cmp_keys ys zs = Less \<Longrightarrow> cmp_keys xs zs = Less"
  using assms
proof (induction xs arbitrary: ys zs)
  case Nil
  from Nil.prems(1,2) show ?case by (cases ys; cases zs) simp_all
next
  case (Cons a as)
  obtain b bs where ys: "ys = b # bs" using Cons.prems(1) by (cases ys) auto
  obtain c cs where zs: "zs = c # cs" using Cons.prems(2) ys by (cases zs) auto
  have eq: "cmp_key b b = Equal" by (simp add: cmp_key_Equal)
  have IH: "cmp_keys as bs = Less \<Longrightarrow> cmp_keys bs cs = Less \<Longrightarrow> cmp_keys as cs = Less"
    by (rule Cons.IH) (assumption, assumption, rule Cons.prems(3), simp_all)
  have tr: "cmp_key a b = Less \<Longrightarrow> cmp_key b c = Less \<Longrightarrow> cmp_key a c = Less"
    by (rule Cons.prems(3)) simp_all
  show ?case
  proof (cases "cmp_key a b = Equal \<or> cmp_key b c = Equal")
    case True
    then have "a = b \<or> b = c" by (simp add: cmp_key_Equal)
    with Cons.prems(1,2) ys zs eq IH show ?thesis by (auto split: ordering.splits)
  next
    case False
    with Cons.prems(1,2) ys zs tr show ?thesis by (cases "cmp_key a b"; cases "cmp_key b c") auto
  qed
qed

lemma cmp_key_trans_rank:
  assumes "cmp_key x y = Less" "cmp_key y z = Less" "\<not> (key_rank x = key_rank y \<and> key_rank y = key_rank z)"
  shows "cmp_key x z = Less"
  using assms cmp_key_Less_rank [OF assms(1)] cmp_key_Less_rank [OF assms(2)]
  by (subst cmp_key_rank) auto

lemma cmp_key_trans_scalar:
  assumes "key_rank x \<noteq> 7" "cmp_key x y = Less" "cmp_key y z = Less"
  shows "cmp_key x z = Less"
proof (cases "key_rank x = key_rank y \<and> key_rank y = key_rank z")
  case True
  with assms show ?thesis
    by (cases x; cases y; simp; cases z; simp add: cmp_key.simps)
qed (rule cmp_key_trans_rank [OF assms(2,3)])

lemma cmp_key_trans: "cmp_key x y = Less \<Longrightarrow> cmp_key y z = Less \<Longrightarrow> cmp_key x z = Less"
proof (induction x arbitrary: y z)
  case (KComposite xs)
  show ?case
  proof (cases "key_rank (KComposite xs) = key_rank y \<and> key_rank y = key_rank z")
    case True
    then obtain ys zs where "y = KComposite ys" "z = KComposite zs" by (cases y; cases z) auto
    with KComposite.prems show ?thesis
      using cmp_keys_trans [OF KComposite.IH] by (simp add: cmp_key.simps)
  qed (rule cmp_key_trans_rank [OF KComposite.prems])
qed (rule cmp_key_trans_scalar; simp)+

instantiation dbkey :: (linorder) linorder
begin

definition less_eq_dbkey :: "'a dbkey \<Rightarrow> 'a dbkey \<Rightarrow> bool" where
  "less_eq_dbkey x y \<longleftrightarrow> cmp_key x y \<noteq> Greater"

definition less_dbkey :: "'a dbkey \<Rightarrow> 'a dbkey \<Rightarrow> bool" where
  "less_dbkey x y \<longleftrightarrow> cmp_key x y = Less"

instance
proof
  fix x y z :: "'a dbkey"
  have le: "a \<le> b \<longleftrightarrow> cmp_key a b = Less \<or> a = b" for a b :: "'a dbkey"
    unfolding less_eq_dbkey_def by (cases "cmp_key a b") (auto simp: cmp_key_Equal [symmetric])
  have irr: "cmp_key a a \<noteq> Less" for a :: "'a dbkey"
    using cmp_key_Equal [of a a] by simp
  show "x < y \<longleftrightarrow> x \<le> y \<and> \<not> y \<le> x"
    using cmp_key_rev [of y x] irr [of x] unfolding le less_dbkey_def by (cases "cmp_key x y") auto
  show "x \<le> x" by (simp add: le)
  show "x \<le> y \<Longrightarrow> y \<le> z \<Longrightarrow> x \<le> z" unfolding le by (auto dest: cmp_key_trans)
  show "x \<le> y \<Longrightarrow> y \<le> x \<Longrightarrow> x = y" unfolding le using cmp_key_rev [of y x] by auto
  show "x \<le> y \<or> y \<le> x"
    using cmp_key_rev [of y x] cmp_key_Equal [of x y] unfolding le by (cases "cmp_key x y") auto
qed

end

lemma KInt_less [simp]: "KInt a < (KInt b :: 'x::linorder dbkey) \<longleftrightarrow> sint a < sint b"
  and KInt_le [simp]: "KInt a \<le> (KInt b :: 'x::linorder dbkey) \<longleftrightarrow> sint a \<le> sint b"
  by (auto simp: less_dbkey_def less_eq_dbkey_def cmp_key.simps cmp_def)

lemma cmp_cmp_key: "cmp x y = cmp_key x y"
  using cmp_key_Equal [of x y] by (cases "cmp_key x y") (auto simp: cmp_def less_dbkey_def)

section \<open>Values\<close>

datatype 'x dbvalue =
    VInt i64
  | VFloat u64
  | VString string
  | VBytes "byte list"
  | VBool bool
  | VNull
  | VDate 'x
  | VTime 'x
  | VTimestamp 'x
  | VDecimal 'x

fun val_byte_size :: "'x dbvalue \<Rightarrow> nat" where
  "val_byte_size (VInt _) = 8"
| "val_byte_size (VFloat _) = 8"
| "val_byte_size (VString s) = length s"
| "val_byte_size (VBytes b) = length b"
| "val_byte_size (VBool _) = 1"
| "val_byte_size VNull = 1"
| "val_byte_size (VDate _) = 4"
| "val_byte_size (VTime _) = 8"
| "val_byte_size (VTimestamp _) = 8"
| "val_byte_size (VDecimal _) = 16"

text \<open>
  A stored slot is a value or a tombstone (\<open>None\<close>), which counts one byte: the memtable's
  \<open>option_value_byte_size\<close> and the same \<open>map_or(1, \<dots>)\<close> in the cache and the SSTable writer.
\<close>

type_synonym 'x slot = "'x dbvalue option"
type_synonym 'x entry = "'x dbkey \<times> 'x slot"

definition slot_byte_size :: "'x slot \<Rightarrow> nat" where
  "slot_byte_size v = (case v of None \<Rightarrow> 1 | Some x \<Rightarrow> val_byte_size x)"

definition entry_byte_size :: "'x entry \<Rightarrow> nat" where
  "entry_byte_size e = key_byte_size (fst e) + slot_byte_size (snd e)"

text \<open>
  IEEE 754 binary64 on bit patterns: a NaN has an all-ones exponent and a non-zero mantissa, the
  two zeros differ only in the sign bit, and every other datum has one encoding.
\<close>

definition f64_is_nan :: "u64 \<Rightarrow> bool" where
  "f64_is_nan b \<longleftrightarrow> b AND 0x7FF0000000000000 = 0x7FF0000000000000 \<and> b AND 0x000FFFFFFFFFFFFF \<noteq> 0"

definition f64_is_zero :: "u64 \<Rightarrow> bool" where
  "f64_is_zero b \<longleftrightarrow> b AND 0x7FFFFFFFFFFFFFFF = 0"

definition f64_eq :: "u64 \<Rightarrow> u64 \<Rightarrow> bool" where
  "f64_eq l r \<longleftrightarrow> \<not> f64_is_nan l \<and> \<not> f64_is_nan r \<and> (l = r \<or> f64_is_zero l \<and> f64_is_zero r)"

definition dbvalue_eq :: "'x dbvalue \<Rightarrow> 'x dbvalue \<Rightarrow> bool" where
  "dbvalue_eq v w =
     (case (v, w) of
        (VInt l, VInt r) \<Rightarrow> l = r
      | (VFloat l, VFloat r) \<Rightarrow> if f64_is_nan l \<and> f64_is_nan r then True else f64_eq l r
      | (VString l, VString r) \<Rightarrow> l = r
      | (VBytes l, VBytes r) \<Rightarrow> l = r
      | (VBool l, VBool r) \<Rightarrow> l = r
      | (VNull, VNull) \<Rightarrow> True
      | (VDate l, VDate r) \<Rightarrow> l = r
      | (VTime l, VTime r) \<Rightarrow> l = r
      | (VTimestamp l, VTimestamp r) \<Rightarrow> l = r
      | (VDecimal l, VDecimal r) \<Rightarrow> l = r
      | _ \<Rightarrow> False)"

text \<open>\<open>Hash\<close>: the sequence of items fed to the hasher.\<close>

datatype 'x hash_item =
    HU8 byte
  | HI64 i64
  | HU64 u64
  | HStr string
  | HBytes "byte list"
  | HBool bool
  | HExt 'x

fun dbvalue_hash :: "'x dbvalue \<Rightarrow> 'x hash_item list" where
  "dbvalue_hash (VInt v) = [HU8 0, HI64 v]"
| "dbvalue_hash (VFloat v) = [HU8 1, HU64 (if f64_is_nan v \<or> f64_is_zero v then 0 else v)]"
| "dbvalue_hash (VString v) = [HU8 2, HStr v]"
| "dbvalue_hash (VBytes v) = [HU8 3, HBytes v]"
| "dbvalue_hash (VBool v) = [HU8 4, HBool v]"
| "dbvalue_hash VNull = [HU8 5]"
| "dbvalue_hash (VDate v) = [HU8 6, HExt v]"
| "dbvalue_hash (VTime v) = [HU8 7, HExt v]"
| "dbvalue_hash (VTimestamp v) = [HU8 8, HExt v]"
| "dbvalue_hash (VDecimal v) = [HU8 9, HExt v]"

text \<open>The identity rewriter every engine without a relational layer uses.\<close>

type_synonym layout = "byte list"
type_synonym 'x rewriter = "layout \<Rightarrow> layout \<Rightarrow> 'x dbvalue \<Rightarrow> 'x dbvalue result"

definition passthrough_rewrite :: "'x rewriter" where
  "passthrough_rewrite src dst v = Inr v"

section \<open>Engine options\<close>

datatype compression_type = Uncompressed | Lz4

datatype fsync_method = Fsync | Fullfsync

text \<open>A \<open>usize\<close> configuration value is a natural number below \<open>2^64\<close>.\<close>

record engine_options =
  compression :: compression_type
  memtable_size_limit :: nat
  block_size_limit :: nat
  wal_size_limit :: nat
  l0_compaction_threshold :: nat
  sstable_target_size :: nat
  base_level_size_limit :: nat
  level_size_multiplier :: nat
  max_level :: nat
  block_cache_capacity :: nat
  wal_sync_interval_ms :: "nat option"
  fsync_method_opt :: fsync_method
  max_write_buffer_number :: nat
  l0_slowdown_writes_trigger :: nat
  l0_stop_writes_trigger :: nat
  l0_slowdown_max_sleep_ms :: nat

definition default_options :: engine_options where
  "default_options =
     \<lparr>compression = Lz4,
      memtable_size_limit = 8 * 1024 * 1024,
      block_size_limit = 4096,
      wal_size_limit = 32 * 1024 * 1024,
      l0_compaction_threshold = 4,
      sstable_target_size = 2 * 1024 * 1024,
      base_level_size_limit = 10 * 1024 * 1024,
      level_size_multiplier = 10,
      max_level = 7,
      block_cache_capacity = 1000,
      wal_sync_interval_ms = None,
      fsync_method_opt = Fsync,
      max_write_buffer_number = 4,
      l0_slowdown_writes_trigger = 8,
      l0_stop_writes_trigger = 16,
      l0_slowdown_max_sleep_ms = 16\<rparr>"

definition MAX_LEVELS :: nat where "MAX_LEVELS = 64"
definition MAX_LEVEL_SIZE_MULTIPLIER :: nat where "MAX_LEVEL_SIZE_MULTIPLIER = 1024"

definition require :: "bool \<Rightarrow> string \<Rightarrow> unit result" where
  "require c msg = (if c then Inr () else Inl (InvalidOptions msg))"

definition validate :: "engine_options \<Rightarrow> unit result" where
  "validate opt =
    rbind (require (memtable_size_limit opt > 0) ''memtable_size_limit must be > 0'') (\<lambda>_.
    rbind (require (block_size_limit opt > 0) ''block_size_limit must be > 0'') (\<lambda>_.
    rbind (require (wal_size_limit opt > 0) ''wal_size_limit must be > 0'') (\<lambda>_.
    rbind (require (sstable_target_size opt > 0) ''sstable_target_size must be > 0'') (\<lambda>_.
    rbind (require (base_level_size_limit opt > 0) ''base_level_size_limit must be > 0'') (\<lambda>_.
    rbind (require (l0_compaction_threshold opt > 0) ''l0_compaction_threshold must be > 0'') (\<lambda>_.
    rbind (require (l0_compaction_threshold opt \<le> l0_slowdown_writes_trigger opt)
             ''l0_compaction_threshold must be <= l0_slowdown_writes_trigger'') (\<lambda>_.
    rbind (require (l0_slowdown_writes_trigger opt < l0_stop_writes_trigger opt)
             ''l0_slowdown_writes_trigger must be < l0_stop_writes_trigger'') (\<lambda>_.
    rbind (require (l0_slowdown_max_sleep_ms opt > 0) ''l0_slowdown_max_sleep_ms must be > 0'') (\<lambda>_.
    rbind (require (max_write_buffer_number opt \<ge> 2) ''max_write_buffer_number must be >= 2'') (\<lambda>_.
    rbind (require (1 \<le> max_level opt \<and> max_level opt \<le> MAX_LEVELS)
             ''max_level must be between 1 and 64'') (\<lambda>_.
    rbind (require (1 \<le> level_size_multiplier opt \<and> level_size_multiplier opt \<le> MAX_LEVEL_SIZE_MULTIPLIER)
             ''level_size_multiplier must be between 1 and 1024'') (\<lambda>_.
    Inr ()))))))))))))"

text \<open>
  \<open>EngineInner::open\<close> repairs the two write-stall triggers before validating; \<open>usize\<close> addition
  wraps in a release build.
\<close>

definition normalize_triggers :: "engine_options \<Rightarrow> engine_options" where
  "normalize_triggers opt =
     (let opt1 = (if l0_slowdown_writes_trigger opt < l0_compaction_threshold opt
                  then opt\<lparr>l0_slowdown_writes_trigger := l0_compaction_threshold opt\<rparr> else opt)
      in if l0_stop_writes_trigger opt1 \<le> l0_slowdown_writes_trigger opt1
         then opt1\<lparr>l0_stop_writes_trigger := (l0_slowdown_writes_trigger opt1 + 8) mod 2 ^ 64\<rparr>
         else opt1)"

text \<open>\<open>level_size_limit\<close>: saturating \<open>u64\<close> arithmetic.\<close>

definition u64_sat :: "nat \<Rightarrow> nat" where "u64_sat n = min n (2 ^ 64 - 1)"

definition level_size_limit :: "engine_options \<Rightarrow> nat \<Rightarrow> nat" where
  "level_size_limit opt level =
     (if level = 0 then 0
      else u64_sat (base_level_size_limit opt * u64_sat (level_size_multiplier opt ^ (level - 1))))"

section \<open>Lemmas\<close>

lemma require_eq_Inr: "require c m = Inr u \<longleftrightarrow> c"
  by (simp add: require_def)

lemma validate_iff:
  "validate opt = Inr () \<longleftrightarrow>
     memtable_size_limit opt > 0 \<and> block_size_limit opt > 0 \<and> wal_size_limit opt > 0
   \<and> sstable_target_size opt > 0 \<and> base_level_size_limit opt > 0 \<and> l0_compaction_threshold opt > 0
   \<and> l0_compaction_threshold opt \<le> l0_slowdown_writes_trigger opt
   \<and> l0_slowdown_writes_trigger opt < l0_stop_writes_trigger opt
   \<and> l0_slowdown_max_sleep_ms opt > 0 \<and> max_write_buffer_number opt \<ge> 2
   \<and> 1 \<le> max_level opt \<and> max_level opt \<le> 64
   \<and> 1 \<le> level_size_multiplier opt \<and> level_size_multiplier opt \<le> 1024"
  by (simp add: validate_def rbind_eq_Inr require_eq_Inr MAX_LEVELS_def MAX_LEVEL_SIZE_MULTIPLIER_def)

lemma f64_eq_refl: "\<not> f64_is_nan l \<Longrightarrow> f64_eq l l"
  by (simp add: f64_eq_def)

lemma f64_zero_not_nan: "f64_is_zero b \<Longrightarrow> \<not> f64_is_nan b"
proof -
  assume z: "f64_is_zero b"
  have "b AND 0x7FF0000000000000 = (b AND 0x7FFFFFFFFFFFFFFF) AND 0x7FF0000000000000"
    by (simp add: ac_simps)
  then have "b AND 0x7FF0000000000000 = 0" using z by (simp add: f64_is_zero_def)
  then show ?thesis by (simp add: f64_is_nan_def)
qed

lemma dbvalue_eq_float:
  "dbvalue_eq (VFloat l) (VFloat r) \<longleftrightarrow>
     f64_is_nan l \<and> f64_is_nan r \<or> f64_is_zero l \<and> f64_is_zero r \<or> l = r"
  by (auto simp: dbvalue_eq_def f64_eq_def f64_zero_not_nan)

lemma dbvalue_eq_cases:
  "dbvalue_eq v w \<longleftrightarrow> v = w \<or> (\<exists>l r. v = VFloat l \<and> w = VFloat r \<and>
     (f64_is_nan l \<and> f64_is_nan r \<or> f64_is_zero l \<and> f64_is_zero r))"
proof (cases "\<exists>l r. v = VFloat l \<and> w = VFloat r")
  case True
  then show ?thesis using dbvalue_eq_float by auto
next
  case False
  then show ?thesis by (cases v; cases w) (auto simp: dbvalue_eq_def)
qed

lemma u64_sat_mono: "a \<le> b \<Longrightarrow> u64_sat a \<le> u64_sat b"
  by (simp add: u64_sat_def)

lemma u64_sat_less: "u64_sat n < 2 ^ 64"
proof -
  have "u64_sat n \<le> 2 ^ 64 - 1" unfolding u64_sat_def by (rule min.cobounded2)
  then show ?thesis by simp
qed

section \<open>Properties\<close>


text \<open>
  C32: The \<open>Eq\<close>/\<open>Hash\<close> contract of \<open>DbValue\<close>. The hand-written equality (all NaNs equal, both
  zeros equal) is an equivalence relation, and equal values feed the same items to the hasher.
\<close>

theorem dbvalue_eq_hash_contract:
  "dbvalue_eq v v
   \<and> dbvalue_eq v w = dbvalue_eq w v
   \<and> \<not> (dbvalue_eq u v \<and> dbvalue_eq v w \<and> \<not> dbvalue_eq u w)
   \<and> \<not> (dbvalue_eq v w \<and> dbvalue_hash v \<noteq> dbvalue_hash w)"
proof (intro conjI)
  show "dbvalue_eq v v" by (simp add: dbvalue_eq_cases)
  show "dbvalue_eq v w = dbvalue_eq w v" by (auto simp: dbvalue_eq_cases)
  show "\<not> (dbvalue_eq u v \<and> dbvalue_eq v w \<and> \<not> dbvalue_eq u w)"
    using f64_zero_not_nan by (auto simp: dbvalue_eq_cases)
  show "\<not> (dbvalue_eq v w \<and> dbvalue_hash v \<noteq> dbvalue_hash w)"
    using f64_zero_not_nan by (auto simp: dbvalue_eq_cases)
qed

text \<open>
  C33: Validated options. The defaults pass validation, and options that pass give the leveled
  layout its required shape: every level has a positive size limit that fits in 64 bits and does
  not shrink from one level to the next, and a full memtable always leaves at least one immutable
  slot, so that writers cannot stall for ever on a queue of capacity zero.
\<close>

theorem validate_level_limits:
  assumes "validate opt = Inr ()" "1 \<le> level"
  shows "validate default_options = Inr ()
    \<and> 0 < level_size_limit opt level
    \<and> level_size_limit opt level < 2 ^ 64
    \<and> level_size_limit opt level \<le> level_size_limit opt (Suc level)
    \<and> 1 \<le> max_write_buffer_number opt - 1"
proof -
  have v: "0 < base_level_size_limit opt" "1 \<le> level_size_multiplier opt" "2 \<le> max_write_buffer_number opt"
    using assms(1) by (simp_all add: validate_iff)
  have d: "validate default_options = Inr ()" by (simp add: validate_iff default_options_def)
  have "level_size_multiplier opt ^ (level - 1) \<le> level_size_multiplier opt ^ level"
    using v(2) by (rule power_increasing [rotated]) simp
  then have m: "level_size_limit opt level \<le> level_size_limit opt (Suc level)"
    using assms(2) by (simp add: level_size_limit_def u64_sat_mono mult_le_mono2)
  have "0 < u64_sat (level_size_multiplier opt ^ (level - 1))" using v(2) by (simp add: u64_sat_def)
  then have p: "0 < level_size_limit opt level"
    using assms(2) v(1) by (simp add: level_size_limit_def u64_sat_def)
  have "level_size_limit opt level < 2 ^ 64"
    using u64_sat_less by (simp add: level_size_limit_def del: power_numeral)
  with d m p v(3) show ?thesis by simp
qed

theorem validate_level_limits_witness:
  "validate default_options = Inr () \<and> level_size_limit default_options 2 = 104857600
    \<and> level_size_limit default_options 2 \<le> level_size_limit default_options (Suc 2)"
proof -
  have v: "validate default_options = Inr ()" by (simp add: validate_iff default_options_def)
  have "(1::nat) \<le> 2" by simp
  from validate_level_limits [OF v this] show ?thesis
    by (simp add: level_size_limit_def default_options_def u64_sat_def)
qed

end
