(* ===== verification/Unicode.thy ===== *)
theory Unicode
  imports Prelude
begin

text \<open>
  What the relational and SQL layers use of \<open>str\<close>: UTF-8 validation and decoding into Unicode scalar
  values, case mapping, trimming and splitting. A string is the list of its UTF-8 bytes (as in the
  storage layer), \<open>chars\<close> decodes it.

  The character tables of the standard library (white space, simple case mappings, the properties the
  final-sigma rule looks at) are the record \<open>unicode\<close>; the algorithms over them are written out.
\<close>

section \<open>UTF-8\<close>

definition scalar :: "nat \<Rightarrow> bool" where
  "scalar c \<longleftrightarrow> c < 0xD800 \<or> 0xE000 \<le> c \<and> c < 0x110000"

definition utf8_char :: "nat \<Rightarrow> nat list" where
  "utf8_char c =
     (if c < 0x80 then [c]
      else if c < 0x800 then [0xC0 + c div 64, 0x80 + c mod 64]
      else if c < 0x10000 then [0xE0 + c div 4096, 0x80 + c div 64 mod 64, 0x80 + c mod 64]
      else [0xF0 + c div 262144, 0x80 + c div 4096 mod 64, 0x80 + c div 64 mod 64, 0x80 + c mod 64])"

definition cont :: "nat \<Rightarrow> bool" where
  "cont b \<longleftrightarrow> 0x80 \<le> b \<and> b < 0xC0"

text \<open>One scalar value off the front: shortest form only, no surrogates, nothing above \<open>0x10FFFF\<close>.\<close>

fun utf8_step :: "nat list \<Rightarrow> (nat \<times> nat list) option" where
  "utf8_step [] = None"
| "utf8_step (a # r) =
     (if a < 0x80 then Some (a, r)
      else if 0xC0 \<le> a \<and> a < 0xE0 then
        (case r of
           b # r1 \<Rightarrow>
             let c = (a - 0xC0) * 64 + (b - 0x80)
             in if cont b \<and> 0x80 \<le> c then Some (c, r1) else None
         | _ \<Rightarrow> None)
      else if 0xE0 \<le> a \<and> a < 0xF0 then
        (case r of
           b1 # b2 # r1 \<Rightarrow>
             let c = (a - 0xE0) * 4096 + (b1 - 0x80) * 64 + (b2 - 0x80)
             in if cont b1 \<and> cont b2 \<and> 0x800 \<le> c \<and> scalar c then Some (c, r1) else None
         | _ \<Rightarrow> None)
      else if 0xF0 \<le> a \<and> a < 0xF8 then
        (case r of
           b1 # b2 # b3 # r1 \<Rightarrow>
             let c = (a - 0xF0) * 262144 + (b1 - 0x80) * 4096 + (b2 - 0x80) * 64 + (b3 - 0x80)
             in if cont b1 \<and> cont b2 \<and> cont b3 \<and> 0x10000 \<le> c \<and> scalar c then Some (c, r1) else None
         | _ \<Rightarrow> None)
      else None)"

lemma utf8_step_shorter: "utf8_step bs = Some (c, r) \<Longrightarrow> length r < length bs"
  by (cases bs) (auto simp: Let_def split: if_splits list.splits)

function utf8_decode :: "nat list \<Rightarrow> nat list option" where
  "utf8_decode bs =
     (if bs = [] then Some []
      else case utf8_step bs of
             None \<Rightarrow> None
           | Some (c, r) \<Rightarrow> map_option (Cons c) (utf8_decode r))"
  by pat_completeness auto
termination
  by (relation "measure length") (auto dest: utf8_step_shorter)

declare utf8_decode.simps [simp del]

lemma utf8_decode_Nil [simp]: "utf8_decode [] = Some []"
  by (simp add: utf8_decode.simps)

lemma utf8_step_char:
  assumes "scalar c"
  shows "utf8_step (utf8_char c @ r) = Some (c, r)"
proof -
  have m: "c mod 64 < 64" "c div 64 mod 64 < 64" "c div 4096 mod 64 < 64" by simp_all
  have d: "c div 64 * 64 + c mod 64 = c" "c div 4096 * 64 + c div 64 mod 64 = c div 64"
    "c div 262144 * 64 + c div 4096 mod 64 = c div 4096"
    using div_mult_mod_eq [of "c div 64" 64] div_mult_mod_eq [of "c div 4096" 64] by (simp_all add: div_mult2_eq [symmetric])
  consider "c < 0x80" | "0x80 \<le> c" "c < 0x800" | "0x800 \<le> c" "c < 0x10000" | "0x10000 \<le> c" by linarith
  then show ?thesis
  proof cases
    case 1
    then show ?thesis by (simp add: utf8_char_def)
  next
    case 2
    then have "c div 64 < 32" by simp
    moreover have "c div 64 * 64 + c mod 64 = c" by (rule d)
    ultimately show ?thesis using 2 m(1) by (simp add: utf8_char_def cont_def Let_def)
  next
    case 3
    then have "c div 4096 < 16" by simp
    moreover have "c div 4096 * 4096 + (c div 64 mod 64) * 64 + c mod 64 = c" using d(1,2) by linarith
    ultimately show ?thesis using 3 m(1,2) assms by (simp add: utf8_char_def cont_def Let_def)
  next
    case 4
    then have "c div 262144 < 8" using assms by (simp add: scalar_def)
    moreover have "c div 262144 * 262144 + (c div 4096 mod 64) * 4096 + (c div 64 mod 64) * 64 + c mod 64 = c" using d by linarith
    ultimately show ?thesis using 4 m assms by (simp add: utf8_char_def cont_def Let_def)
  qed
qed

lemma utf8_char_nonempty [simp]: "utf8_char c \<noteq> []"
  by (simp add: utf8_char_def)

lemma utf8_decode_encode: "\<forall>c \<in> set cs. scalar c \<Longrightarrow> utf8_decode (concat (map utf8_char cs)) = Some cs"
  by (induction cs) (simp_all add: utf8_decode.simps [of "utf8_char _ @ _"] utf8_step_char)

section \<open>Strings\<close>

definition str :: "nat list \<Rightarrow> string" where
  "str cs = map char_of (concat (map utf8_char cs))"

text \<open>A \<open>str\<close> is valid UTF-8 by its type, so the last case does not arise.\<close>

definition chars :: "string \<Rightarrow> nat list" where
  "chars s = (case utf8_decode (map of_char s) of Some cs \<Rightarrow> cs | None \<Rightarrow> [])"

definition valid_str :: "string \<Rightarrow> bool" where
  "valid_str s \<longleftrightarrow> utf8_decode (map of_char s) \<noteq> None"

definition from_utf8 :: "byte list \<Rightarrow> string option" where
  "from_utf8 bs = (if utf8_decode (map unat bs) = None then None else Some (map (\<lambda>b. char_of (unat b)) bs))"

definition as_bytes :: "string \<Rightarrow> byte list" where
  "as_bytes s = map of_char s"

lemma utf8_char_byte: "scalar c \<Longrightarrow> b \<in> set (utf8_char c) \<Longrightarrow> b < 256"
proof -
  assume c: "scalar c" and b: "b \<in> set (utf8_char c)"
  have "c < 0x800 \<Longrightarrow> c div 64 < 32" "c < 0x10000 \<Longrightarrow> c div 4096 < 16" "c div 262144 < 8" using c by (auto simp: scalar_def)
  moreover have "c div 64 mod 64 < 64" "c div 4096 mod 64 < 64" "c mod 64 < 64" by simp_all
  ultimately show ?thesis using b by (auto simp: utf8_char_def split: if_splits)
qed

lemma of_char_str: "\<forall>c \<in> set cs. scalar c \<Longrightarrow> map of_char (str cs) = concat (map utf8_char cs)"
proof -
  assume "\<forall>c \<in> set cs. scalar c"
  then have "\<forall>b \<in> set (concat (map utf8_char cs)). b < 256" using utf8_char_byte by auto
  then show ?thesis unfolding str_def map_map comp_def by (intro map_idI) auto
qed

lemma chars_str [simp]: "\<forall>c \<in> set cs. scalar c \<Longrightarrow> chars (str cs) = cs"
  by (simp add: chars_def of_char_str utf8_decode_encode)

lemma valid_str_str: "\<forall>c \<in> set cs. scalar c \<Longrightarrow> valid_str (str cs)"
  by (simp add: valid_str_def of_char_str utf8_decode_encode)

lemma unat_of_char [simp]: "unat (of_char c :: byte) = of_char c"
proof -
  have "(of_char c :: byte) = of_nat (of_char c)" by (rule of_nat_of_char [symmetric])
  then show ?thesis by (simp only: unat_of_nat) simp
qed

lemma from_utf8_as_bytes: "valid_str s \<Longrightarrow> from_utf8 (as_bytes s) = Some s"
  by (simp add: from_utf8_def as_bytes_def valid_str_def comp_def)

lemma length_as_bytes [simp]: "length (as_bytes s) = length s"
  by (simp add: as_bytes_def)

section \<open>Character tables\<close>

record unicode =
  u_white :: "nat \<Rightarrow> bool"
  u_lower :: "nat \<Rightarrow> nat list"
  u_upper :: "nat \<Rightarrow> nat list"
  u_cased :: "nat \<Rightarrow> bool"
  u_case_ignorable :: "nat \<Rightarrow> bool"

text \<open>
  \<open>str::to_lowercase\<close> maps character by character, except for the capital sigma, which becomes the
  final form at the end of a word and depends on its neighbours.
\<close>

definition case_ignorable_then_cased :: "unicode \<Rightarrow> nat list \<Rightarrow> bool" where
  "case_ignorable_then_cased u cs = (case dropWhile (u_case_ignorable u) cs of c # _ \<Rightarrow> u_cased u c | [] \<Rightarrow> False)"

definition sigma_form :: "unicode \<Rightarrow> nat list \<Rightarrow> nat list \<Rightarrow> nat" where
  "sigma_form u before after =
     (if case_ignorable_then_cased u before \<and> \<not> case_ignorable_then_cased u after then 0x3C2 else 0x3C3)"

fun lower_from :: "unicode \<Rightarrow> nat list \<Rightarrow> nat list \<Rightarrow> nat list" where
  "lower_from u before [] = []"
| "lower_from u before (c # cs) =
     (if c = 0x3A3 then [sigma_form u before cs] else u_lower u c) @ lower_from u (c # before) cs"

definition to_lowercase :: "unicode \<Rightarrow> nat list \<Rightarrow> nat list" where
  "to_lowercase u cs = lower_from u [] cs"

definition to_uppercase :: "unicode \<Rightarrow> nat list \<Rightarrow> nat list" where
  "to_uppercase u cs = concat (map (u_upper u) cs)"

definition trim_chars :: "unicode \<Rightarrow> nat list \<Rightarrow> nat list" where
  "trim_chars u cs = rev (dropWhile (u_white u) (rev (dropWhile (u_white u) cs)))"

text \<open>\<open>split\<close> by a character class keeps empty pieces; \<open>split_whitespace\<close> drops them.\<close>

fun split_on :: "('a \<Rightarrow> bool) \<Rightarrow> 'a list \<Rightarrow> 'a list list" where
  "split_on p [] = [[]]"
| "split_on p (x # xs) =
     (if p x then [] # split_on p xs
      else case split_on p xs of [] \<Rightarrow> [[x]] | r # rs \<Rightarrow> (x # r) # rs)"

definition split_whitespace :: "unicode \<Rightarrow> nat list \<Rightarrow> nat list list" where
  "split_whitespace u cs = filter (\<lambda>w. w \<noteq> []) (split_on (u_white u) cs)"

lemma split_on_nonempty [simp]: "split_on p xs \<noteq> []"
  by (induction xs) (auto split: list.split)

lemma split_on_not: "r \<in> set (split_on p xs) \<Longrightarrow> x \<in> set r \<Longrightarrow> \<not> p x"
  by (induction xs arbitrary: r) (fastforce split: if_splits list.splits)+

text \<open>Text without a capital sigma is lower-cased character by character.\<close>

lemma lower_from_no_sigma: "0x3A3 \<notin> set cs \<Longrightarrow> lower_from u before cs = concat (map (u_lower u) cs)"
  by (induction cs arbitrary: before) auto

text \<open>The ASCII part of the tables, for concrete inputs.\<close>

definition ascii :: unicode where
  "ascii = \<lparr>u_white = (\<lambda>c. c = 32 \<or> 9 \<le> c \<and> c \<le> 13),
            u_lower = (\<lambda>c. if 65 \<le> c \<and> c \<le> 90 then [c + 32] else [c]),
            u_upper = (\<lambda>c. if 97 \<le> c \<and> c \<le> 122 then [c - 32] else [c]),
            u_cased = (\<lambda>c. 65 \<le> c \<and> c \<le> 90 \<or> 97 \<le> c \<and> c \<le> 122),
            u_case_ignorable = (\<lambda>c. c \<in> {39, 46, 58, 94, 96})\<rparr>"

end
