(* ===== verification/Rows.thy ===== *)
theory Rows
  imports Values Unicode
begin

text \<open>
  \<^verbatim>\<open>dtdb_relational/src/row.rs\<close> and \<^verbatim>\<open>error.rs\<close>: rows, their hand-written projected decoder and the conversion of
  values to keys.

  The serializer \<open>postcard\<close> is third-party: the record \<open>postcard\<close> has the calls the source makes. What
  the projected decoder relies on is postcard's documented wire format, written as \<open>wire_row\<close>.
\<close>

unbundle bit_operations_syntax

section \<open>Errors\<close>

datatype relational_error =
    RStorage storage_error
  | RIo
  | RSerialization
  | SchemaMismatch string
  | TableNotFound string
  | TableAlreadyExists string
  | TransactionConflict string

type_synonym 'a rresult = "relational_error + 'a"

definition corruption :: "string \<Rightarrow> relational_error" where
  "corruption msg = RStorage (Corruption msg)"

section \<open>Rows\<close>

record 'x row =
  row_values :: "'x dbvalue list"

definition row_new :: "'x dbvalue list \<Rightarrow> 'x row" where
  "row_new vs = \<lparr>row_values = vs\<rparr>"

definition get_by_index :: "'x row \<Rightarrow> nat \<Rightarrow> 'x dbvalue option" where
  "get_by_index r i = (if i < length (row_values r) then Some (row_values r ! i) else None)"

fun db_value_to_key :: "'x dbvalue \<Rightarrow> 'x dbkey option" where
  "db_value_to_key (VInt v) = Some (KInt v)"
| "db_value_to_key (VString s) = Some (KString s)"
| "db_value_to_key (VBool b) = Some (KBool b)"
| "db_value_to_key (VDate d) = Some (KDate d)"
| "db_value_to_key (VTime t) = Some (KTime t)"
| "db_value_to_key (VTimestamp ts) = Some (KTimestamp ts)"
| "db_value_to_key (VDecimal dec) = Some (KDecimal dec)"
| "db_value_to_key _ = None"

section \<open>Decoding\<close>

record 'x postcard =
  pc_to :: "'x row \<Rightarrow> byte list option"
  pc_from :: "byte list \<Rightarrow> 'x row option"
  pc_take :: "byte list \<Rightarrow> ('x dbvalue \<times> byte list) option"

definition to_bytes :: "'x postcard \<Rightarrow> 'x row \<Rightarrow> byte list rresult" where
  "to_bytes pc r = ok_or RSerialization (pc_to pc r)"

definition from_bytes :: "'x postcard \<Rightarrow> byte list \<Rightarrow> 'x row rresult" where
  "from_bytes pc bytes = ok_or RSerialization (pc_from pc bytes)"

fun varint_loop :: "nat \<Rightarrow> u64 \<Rightarrow> byte list \<Rightarrow> (u64 \<times> byte list) rresult" where
  "varint_loop i v [] = Inl (corruption ''truncated varint'')"
| "varint_loop i v (b # bs) =
     (if 10 \<le> i then Inl (corruption ''varint too long'')
      else let v1 = v OR push_bit (7 * i) (ucast (b AND 0x7F))
           in if b AND 0x80 = 0 then Inr (v1, bs) else varint_loop (i + 1) v1 bs)"

definition read_varint_u64 :: "byte list \<Rightarrow> (u64 \<times> byte list) rresult" where
  "read_varint_u64 cursor = varint_loop 0 0 cursor"

definition read_varint_i64 :: "byte list \<Rightarrow> (i64 \<times> byte list) rresult" where
  "read_varint_i64 cursor = rbind (read_varint_u64 cursor) (\<lambda>(z, c). Inr (drop_bit 1 z XOR - (z AND 1), c))"

definition take_bytes :: "nat \<Rightarrow> byte list \<Rightarrow> (byte list \<times> byte list) rresult" where
  "take_bytes n cursor =
     (if length cursor < n then Inl (corruption ''truncated row payload'') else Inr (take n cursor, drop n cursor))"

definition decode_value :: "'x postcard \<Rightarrow> bool \<Rightarrow> byte list \<Rightarrow> ('x dbvalue \<times> byte list) rresult" where
  "decode_value pc keep pre_tag =
     rbind (read_varint_u64 pre_tag) (\<lambda>(tag, cursor).
       if tag = 0 then rbind (read_varint_i64 cursor) (\<lambda>(v, c). Inr (if keep then VInt v else VNull, c))
       else if tag = 1 then rbind (take_bytes 8 cursor) (\<lambda>(raw, c). Inr (if keep then VFloat (from_le64 raw) else VNull, c))
       else if tag = 2 then
         rbind (read_varint_u64 cursor) (\<lambda>(len, c).
         rbind (take_bytes (unat len) c) (\<lambda>(raw, c).
         if keep then rbind (ok_or (corruption ''Invalid UTF-8'') (from_utf8 raw)) (\<lambda>s. Inr (VString s, c)) else Inr (VNull, c)))
       else if tag = 3 then
         rbind (read_varint_u64 cursor) (\<lambda>(len, c).
         rbind (take_bytes (unat len) c) (\<lambda>(raw, c). Inr (if keep then VBytes raw else VNull, c)))
       else if tag = 4 then rbind (take_bytes 1 cursor) (\<lambda>(raw, c). Inr (if keep then VBool (raw ! 0 \<noteq> 0) else VNull, c))
       else if tag = 5 then Inr (VNull, cursor)
       else if 6 \<le> tag \<and> tag \<le> 9 then
         rbind (ok_or (corruption ''Failed to deserialize DbValue'') (pc_take pc pre_tag)) (\<lambda>(v, c). Inr (if keep then v else VNull, c))
       else Inl (corruption ''Unknown DbValue variant tag''))"

fun decode_values :: "'x postcard \<Rightarrow> nat list \<Rightarrow> nat \<Rightarrow> nat \<Rightarrow> byte list \<Rightarrow> 'x dbvalue list rresult" where
  "decode_values pc projected i 0 cursor = Inr []"
| "decode_values pc projected i (Suc n) cursor =
     rbind (decode_value pc (i \<in> set projected) cursor) (\<lambda>(v, c).
     rbind (decode_values pc projected (i + 1) n c) (\<lambda>vs. Inr (v # vs)))"

text \<open>
  \<open>None\<close> is the panic of \<open>Vec::with_capacity\<close> on more than \<open>isize::MAX\<close> bytes; \<open>sz\<close> is the size of a
  \<open>DbValue\<close>, which the compiler chooses.
\<close>

definition from_bytes_projected :: "nat \<Rightarrow> 'x postcard \<Rightarrow> byte list \<Rightarrow> nat list option \<Rightarrow> 'x row rresult option" where
  "from_bytes_projected sz pc bytes projection =
     (case projection of
        None \<Rightarrow> Some (from_bytes pc bytes)
      | Some projected \<Rightarrow>
          (case read_varint_u64 bytes of
             Inl e \<Rightarrow> Some (Inl e)
           | Inr (len, cursor) \<Rightarrow>
               if 2 ^ 63 \<le> unat len * sz then None
               else Some (rbind (decode_values pc projected 0 (unat len) cursor) (\<lambda>vs. Inr (row_new vs)))))"

section \<open>The wire format\<close>

text \<open>
  Postcard's documented encoding: an unsigned integer is a LEB128 varint, a signed one is zig-zagged
  first, an enum is its variant number followed by the payload, a sequence its length followed by its
  elements. The payload of the date, time and decimal variants is up to their own crates (\<open>pay\<close>).
\<close>

function put_varint :: "nat \<Rightarrow> byte list" where
  "put_varint n = (if n < 128 then [of_nat n] else of_nat (n mod 128 + 128) # put_varint (n div 128))"
  by pat_completeness auto
termination
  by (relation "measure (\<lambda>n. n)") auto

declare put_varint.simps [simp del]

definition zigzag :: "i64 \<Rightarrow> nat" where
  "zigzag v = nat (if 0 \<le> sint v then 2 * sint v else - 2 * sint v - 1)"

fun wire_value :: "('x dbvalue \<Rightarrow> byte list) \<Rightarrow> 'x dbvalue \<Rightarrow> byte list" where
  "wire_value pay (VInt v) = put_varint 0 @ put_varint (zigzag v)"
| "wire_value pay (VFloat f) = put_varint 1 @ le64 f"
| "wire_value pay (VString s) = put_varint 2 @ put_varint (length s) @ as_bytes s"
| "wire_value pay (VBytes b) = put_varint 3 @ put_varint (length b) @ b"
| "wire_value pay (VBool b) = put_varint 4 @ [if b then 1 else 0]"
| "wire_value pay VNull = put_varint 5"
| "wire_value pay (VDate d) = put_varint 6 @ pay (VDate d)"
| "wire_value pay (VTime d) = put_varint 7 @ pay (VTime d)"
| "wire_value pay (VTimestamp d) = put_varint 8 @ pay (VTimestamp d)"
| "wire_value pay (VDecimal d) = put_varint 9 @ pay (VDecimal d)"

definition wire_row :: "('x dbvalue \<Rightarrow> byte list) \<Rightarrow> 'x row \<Rightarrow> byte list" where
  "wire_row pay r = put_varint (length (row_values r)) @ concat (map (wire_value pay) (row_values r))"

fun value_fits :: "'x dbvalue \<Rightarrow> bool" where
  "value_fits (VString s) \<longleftrightarrow> valid_str s \<and> length s < 2 ^ 64"
| "value_fits (VBytes b) \<longleftrightarrow> length b < 2 ^ 64"
| "value_fits v \<longleftrightarrow> True"

definition row_fits :: "'x row \<Rightarrow> bool" where
  "row_fits r \<longleftrightarrow> (\<forall>v \<in> set (row_values r). value_fits v) \<and> length (row_values r) < 2 ^ 64"

definition wire_take :: "'x postcard \<Rightarrow> ('x dbvalue \<Rightarrow> byte list) \<Rightarrow> bool" where
  "wire_take pc pay \<longleftrightarrow> (\<forall>v rest. value_fits v \<longrightarrow> pc_take pc (wire_value pay v @ rest) = Some (v, rest))"

definition postcard_wire :: "'x postcard \<Rightarrow> ('x dbvalue \<Rightarrow> byte list) \<Rightarrow> bool" where
  "postcard_wire pc pay \<longleftrightarrow>
     wire_take pc pay \<and> (\<forall>r. row_fits r \<longrightarrow> pc_to pc r = Some (wire_row pay r) \<and> pc_from pc (wire_row pay r) = Some r)"

definition projected_values :: "nat list \<Rightarrow> nat \<Rightarrow> 'x dbvalue list \<Rightarrow> 'x dbvalue list" where
  "projected_values projected i vs = map (\<lambda>(j, v). if j \<in> set projected then v else VNull) (enumerate i vs)"

section \<open>Lemmas\<close>

lemma nat_split7: "(n :: nat) = (n mod 128) OR push_bit 7 (n div 128)"
proof -
  have "bit n m \<longleftrightarrow> m < 7 \<and> bit n m \<or> 7 \<le> m \<and> bit n (7 + (m - 7))" for m
    by (cases "m < 7") auto
  then have "n = take_bit 7 n OR push_bit 7 (drop_bit 7 n)"
    by (intro bit_eqI) (simp add: bit_simps)
  then show ?thesis by (simp add: take_bit_eq_mod drop_bit_eq_div)
qed

lemma byte_and_7F: "(b :: byte) AND 0x7F = of_nat (unat b mod 128)"
proof -
  have "b AND 0x7F = take_bit 7 b" by (simp add: take_bit_eq_mask mask_eq_exp_minus_1)
  moreover have "unat (take_bit 7 b) = take_bit 7 (unat b)" by (rule unsigned_take_bit_eq)
  moreover have "take_bit 7 (unat b) = unat b mod 128" by (simp add: take_bit_eq_mod)
  ultimately have "of_nat (unat (b AND 0x7F)) = (of_nat (unat b mod 128) :: byte)" by (simp only:)
  then show ?thesis by (simp only: of_nat_unat ucast_id)
qed

lemma byte_and_80: "(b :: byte) AND 0x80 = 0 \<longleftrightarrow> unat b < 128"
proof -
  have "b AND 0x80 = 0 \<longleftrightarrow> \<not> bit b 7" using and_exp_eq_0_iff_not_bit [of b 7] by simp
  also have "bit b 7 \<longleftrightarrow> odd (unat b div 128)" using bit_iff_odd [of "unat b" 7] by (simp add: bit_unsigned_iff)
  also have "\<not> odd (unat b div 128) \<longleftrightarrow> unat b < 128"
  proof -
    have "unat b < 256" using unsigned_less [of b] by simp
    then have "unat b div 128 = 0 \<or> unat b div 128 = 1" by linarith
    then show ?thesis by auto
  qed
  finally show ?thesis .
qed

lemma ucast_small: "n < 128 \<Longrightarrow> (ucast (of_nat n :: byte) :: u64) = of_nat n"
  by (simp add: word_eq_iff_unsigned unsigned_ucast_eq unsigned_of_nat take_bit_nat_eq_self)

lemma varint_loop_put:
  assumes "n < 2 ^ (64 - 7 * i)" "i < 10"
  shows "varint_loop i v (put_varint n @ rest) = Inr (v OR push_bit (7 * i) (of_nat n), rest)"
  using assms
proof (induction n arbitrary: i v rule: put_varint.induct)
  case (1 n)
  show ?case
  proof (cases "n < 128")
    case True
    then have "unat (of_nat n :: byte) = n" by (simp add: unsigned_of_nat take_bit_nat_eq_self)
    then show ?thesis using True "1.prems" by (simp add: put_varint.simps byte_and_7F byte_and_80 ucast_small)
  next
    case False
    then have "2 ^ 7 < (2 :: nat) ^ (64 - 7 * i)" using 1 by simp
    then have e: "7 < 64 - 7 * i" by (rule power_less_imp_less_exp [rotated]) simp
    then have i: "i < 9" by linarith
    have "n < 128 * 2 ^ (64 - 7 * (i + 1))"
    proof -
      have "(2 :: nat) ^ (64 - 7 * i) = 2 ^ (7 + (64 - 7 * (i + 1)))" using e by (intro arg_cong [where f = "\<lambda>k. 2 ^ k"]) simp
      then show ?thesis using 1 by (simp add: power_add)
    qed
    then have IH: "varint_loop (i + 1) w (put_varint (n div 128) @ rest) = Inr (w OR push_bit (7 * (i + 1)) (of_nat (n div 128)), rest)" for w
      using "1.IH" [OF False, of "i + 1" w] i by (simp add: less_mult_imp_div_less mult.commute)
    have u: "unat (of_nat (n mod 128 + 128) :: byte) = n mod 128 + 128"
      by (simp add: unsigned_of_nat take_bit_nat_eq_self del: of_nat_add)
    have "(of_nat n :: u64) = of_nat (n mod 128) OR push_bit 7 (of_nat (n div 128))"
      by (subst nat_split7 [of n]) (simp only: of_nat_or_eq push_bit_of_nat)
    then have "push_bit (7 * i) (of_nat n :: u64) = push_bit (7 * i) (of_nat (n mod 128)) OR push_bit (7 * (i + 1)) (of_nat (n div 128))"
      by (simp add: push_bit_or push_bit_push_bit add.commute)
    then show ?thesis using False i IH
      by (simp add: put_varint.simps [of n] byte_and_7F byte_and_80 u ucast_small or.assoc Let_def del: of_nat_add)
  qed
qed

lemma read_varint_put:
  "n < 2 ^ 64 \<Longrightarrow> read_varint_u64 (put_varint n @ rest) = Inr (of_nat n, rest)"
  unfolding read_varint_u64_def by (subst varint_loop_put) simp_all

lemma zigzag_less: "zigzag v < 2 ^ 64"
  using sint_less [of v] sint_ge [of v] by (auto simp: zigzag_def)

lemma drop_bit_1_of_nat:
  assumes "n < 2 ^ 64"
  shows "drop_bit 1 (of_nat n :: u64) = of_nat (n div 2)"
proof -
  have "unat (drop_bit 1 (of_nat n :: u64)) = drop_bit 1 (take_bit 64 (unat (of_nat n :: u64)))"
    using unsigned_drop_bit_eq [of 1 "of_nat n :: u64"] by simp
  also have "\<dots> = n div 2" using assms by (simp add: unsigned_of_nat take_bit_nat_eq_self drop_bit_eq_div)
  finally have "of_nat (unat (drop_bit 1 (of_nat n :: u64))) = (of_nat (n div 2) :: u64)" by (simp only:)
  then show ?thesis by (simp only: of_nat_unat ucast_id)
qed

lemma read_zigzag: "read_varint_i64 (put_varint (zigzag v) @ rest) = Inr (v, rest)"
proof -
  let ?z = "of_nat (zigzag v) :: u64"
  have "drop_bit 1 ?z XOR - (?z AND 1) = v"
  proof (cases "0 \<le> sint v")
    case True
    then have e: "zigzag v = 2 * nat (sint v)" by (simp add: zigzag_def)
    have "?z AND 1 = 0" unfolding e by (simp add: and_one_eq mod_2_eq_odd)
    moreover have "of_nat (nat (sint v)) = v" using True by simp
    ultimately show ?thesis using drop_bit_1_of_nat [OF zigzag_less [of v]] e by simp
  next
    case False
    then have e: "zigzag v = 2 * nat (- sint v - 1) + 1" by (simp add: zigzag_def nat_eq_iff)
    have "?z AND 1 = 1" unfolding e by (simp add: and_one_eq mod_2_eq_odd)
    moreover have "of_nat (nat (- sint v - 1)) = - v - 1" using False by simp
    ultimately show ?thesis using drop_bit_1_of_nat [OF zigzag_less [of v]] e
      by (simp add: not_eq_complement [symmetric])
  qed
  then show ?thesis by (simp add: read_varint_i64_def read_varint_put [OF zigzag_less])
qed

lemma read_tag: "n < 128 \<Longrightarrow> read_varint_u64 (put_varint n @ rest) = Inr (of_nat n, rest)"
  by (rule read_varint_put) simp

lemma take_bytes_append [simp]: "length xs = n \<Longrightarrow> take_bytes n (xs @ rest) = Inr (xs, rest)"
  by (simp add: take_bytes_def)

lemma unat_length: "n < 2 ^ 64 \<Longrightarrow> unat (of_nat n :: u64) = n"
  by (simp add: unsigned_of_nat take_bit_nat_eq_self)

lemma decode_wire_value:
  assumes "wire_take pc pay" "value_fits v"
  shows "decode_value pc keep (wire_value pay v @ rest) = Inr (if keep then v else VNull, rest)"
proof -
  have t: "pc_take pc (wire_value pay v @ rest) = Some (v, rest)" using assms by (simp add: wire_take_def)
  show ?thesis
    using assms(2) t
    by (cases v)
      (simp_all add: decode_value_def read_tag [of 0, simplified] read_tag [of 1, simplified] read_tag [of 2, simplified] read_tag [of 3, simplified]
        read_tag [of 4, simplified] read_tag [of 5, simplified] read_tag [of 6, simplified] read_tag [of 7, simplified]
        read_tag [of 8, simplified] read_tag [of 9, simplified] read_zigzag read_varint_put unat_length from_utf8_as_bytes
        take_bytes_append [where xs = "[_]", simplified])
qed

lemma decode_wire_values:
  assumes "wire_take pc pay" "\<forall>v \<in> set vs. value_fits v"
  shows "decode_values pc projected i (length vs) (concat (map (wire_value pay) vs)) = Inr (projected_values projected i vs)"
  using assms(2) by (induction vs arbitrary: i) (simp_all add: decode_wire_value [OF assms(1)] projected_values_def)

lemma projected_wire_row:
  assumes "wire_take pc pay" "row_fits r" "length (row_values r) * sz < 2 ^ 63"
  shows "from_bytes_projected sz pc (wire_row pay r) (Some projected) = Some (Inr (row_new (projected_values projected 0 (row_values r))))"
proof -
  have f: "\<forall>v \<in> set (row_values r). value_fits v" "length (row_values r) < 2 ^ 64"
    using assms(2) by (simp_all add: row_fits_def)
  show ?thesis
    using assms(3) by (simp add: from_bytes_projected_def wire_row_def read_varint_put [OF f(2)] unat_length [OF f(2)] decode_wire_values [OF assms(1) f(1)])
qed

section \<open>Properties\<close>

text \<open>
  C27: The projected decoder. On the bytes postcard writes for a row, the hand-written decoder that skips columns returns
  the full row when no projection is given and otherwise the row with exactly the columns outside
  the projection replaced by \<open>NULL\<close>: it stays in step with the wire format for every variant,
  including strings and byte strings whose contents it skips.
\<close>

theorem row_projected_decode:
  assumes "postcard_wire pc pay" "row_fits r" "length (row_values r) * sz < 2 ^ 63"
  shows "to_bytes pc r = Inr (wire_row pay r)
    \<and> from_bytes_projected sz pc (wire_row pay r) None = Some (Inr r)
    \<and> from_bytes_projected sz pc (wire_row pay r) (Some projected)
        = Some (Inr (row_new (map (\<lambda>(j, v). if j \<in> set projected then v else VNull) (enumerate 0 (row_values r)))))"
  using projected_wire_row [OF _ assms(2,3), of pc pay projected] assms(1,2)
  by (simp add: projected_values_def to_bytes_def from_bytes_def from_bytes_projected_def postcard_wire_def)

text \<open>A serializer with the wire format, with a one-byte payload for the types of other crates.\<close>

fun demo_pay :: "byte dbvalue \<Rightarrow> byte list" where
  "demo_pay (VDate d) = [d]"
| "demo_pay (VTime d) = [d]"
| "demo_pay (VTimestamp d) = [d]"
| "demo_pay (VDecimal d) = [d]"
| "demo_pay _ = []"

definition demo_take :: "byte list \<Rightarrow> (byte dbvalue \<times> byte list) option" where
  "demo_take bs =
     (case read_varint_u64 bs of
        Inr (tag, d # c) \<Rightarrow>
          if tag = 6 then Some (VDate d, c) else if tag = 7 then Some (VTime d, c)
          else if tag = 8 then Some (VTimestamp d, c) else if tag = 9 then Some (VDecimal d, c)
          else (case decode_value \<lparr>pc_to = \<lambda>_. None, pc_from = \<lambda>_. None, pc_take = \<lambda>_. None\<rparr> True bs of Inr x \<Rightarrow> Some x | Inl _ \<Rightarrow> None)
      | _ \<Rightarrow> (case decode_value \<lparr>pc_to = \<lambda>_. None, pc_from = \<lambda>_. None, pc_take = \<lambda>_. None\<rparr> True bs of Inr x \<Rightarrow> Some x | Inl _ \<Rightarrow> None))"

definition demo_pc :: "byte postcard" where
  "demo_pc =
     \<lparr>pc_to = \<lambda>r. Some (wire_row demo_pay r),
      pc_from = \<lambda>bs. (case read_varint_u64 bs of
        Inr (len, c) \<Rightarrow>
          (case decode_values \<lparr>pc_to = \<lambda>_. None, pc_from = \<lambda>_. None, pc_take = demo_take\<rparr> [0..<unat len] 0 (unat len) c of
             Inr vs \<Rightarrow> Some (row_new vs) | Inl _ \<Rightarrow> None)
      | Inl _ \<Rightarrow> None),
      pc_take = demo_take\<rparr>"

lemma demo_take_wire: "value_fits v \<Longrightarrow> demo_take (wire_value demo_pay v @ rest) = Some (v, rest)"
  by (cases v)
    (simp_all add: demo_take_def decode_value_def read_tag [of 0, simplified] read_tag [of 1, simplified] read_tag [of 2, simplified] read_tag [of 3, simplified]
        read_tag [of 4, simplified] read_tag [of 5, simplified] read_tag [of 6, simplified] read_tag [of 7, simplified]
        read_tag [of 8, simplified] read_tag [of 9, simplified] read_zigzag read_varint_put unat_length from_utf8_as_bytes
        take_bytes_append [where xs = "[_]", simplified] split: list.split)

lemma projected_values_all: "i + length vs \<le> n \<Longrightarrow> projected_values [0..<n] i vs = vs"
  by (induction vs arbitrary: i) (auto simp: projected_values_def)

lemma demo_pc_wire: "postcard_wire demo_pc demo_pay"
proof -
  have "pc_from demo_pc (wire_row demo_pay r) = Some r" if "row_fits r" for r
  proof -
    have f: "\<forall>v \<in> set (row_values r). value_fits v" "length (row_values r) < 2 ^ 64" using that by (simp_all add: row_fits_def)
    have "wire_take \<lparr>pc_to = \<lambda>_. None, pc_from = \<lambda>_. None, pc_take = demo_take\<rparr> demo_pay" by (simp add: wire_take_def demo_take_wire)
    from decode_wire_values [OF this f(1), of "[0..<length (row_values r)]" 0] show ?thesis
      using projected_values_all [of 0 "row_values r" "length (row_values r)"]
      by (simp add: demo_pc_def wire_row_def read_varint_put [OF f(2)] unat_length [OF f(2)] row_new_def)
  qed
  then show ?thesis by (simp add: postcard_wire_def wire_take_def) (simp add: demo_pc_def demo_take_wire)
qed

theorem row_projected_decode_witness:
  "from_bytes_projected 24 demo_pc (wire_row demo_pay (row_new [VInt (- 3), VString ''ab'', VDate 7, VBool True])) (Some [1, 3])
    = Some (Inr (row_new [VNull, VString ''ab'', VNull, VBool True]))"
proof -
  have "row_fits (row_new [VInt (- 3), VString ''ab'', VDate (7 :: byte), VBool True])"
    by (simp add: row_fits_def row_new_def valid_str_def) (simp add: utf8_decode.simps)
  then show ?thesis
    using row_projected_decode [OF demo_pc_wire, of "row_new [VInt (- 3), VString ''ab'', VDate 7, VBool True]" 24 "[1, 3]"]
    by (simp add: row_new_def)
qed

end
