(* ===== verification/Framed_Log.thy ===== *)
theory Framed_Log
  imports Prelude "HOL-Library.Sublist"
begin

text \<open>
  \<^verbatim>\<open>dtdb_storage/src/framed_log.rs\<close>: the append-only log of length-framed, checksummed records
  behind the storage WAL, the transaction log and the manifest's edit log.

  A log file is the list of its bytes. \<open>xxh32\<close> is the parameter \<open>h\<close>; \<open>postcard\<close> is the
  parameter \<open>sd\<close> (a serializer, which may fail, and a deserializer). Every system call of an
  operation may fail: the argument \<open>io\<close> says whether, and how many bytes a failing \<open>write_all\<close>
  got into the file. \<open>synced\<close> counts the bytes the last successful fsync made durable.
\<close>

record 'e serde =
  ser :: "'e \<Rightarrow> byte list option"
  de :: "byte list \<Rightarrow> 'e option"

record io =
  wr :: "nat option"
  sy :: bool
  tr :: bool

definition io_ok :: io where
  "io_ok = \<lparr>wr = None, sy = True, tr = True\<rparr>"

definition MAX_FRAME_BYTES :: nat where "MAX_FRAME_BYTES = 64 * 1024 * 1024"
definition HEADER_LEN :: nat where "HEADER_LEN = 8"

record log_format =
  magic :: "byte list"
  version :: byte

definition encode_format :: "log_format \<Rightarrow> byte list" where
  "encode_format fmt = magic fmt @ [version fmt] @ replicate 3 0"

record framed_log =
  fl_file :: "byte list"
  synced :: nat
  format :: log_format
  sync_interval_ms :: "nat option"
  size_bytes :: nat

section \<open>Operations\<close>

definition write_all :: "io \<Rightarrow> byte list \<Rightarrow> byte list \<Rightarrow> byte list \<times> unit result" where
  "write_all io f buf =
     (case wr io of None \<Rightarrow> (f @ buf, Inr ()) | Some n \<Rightarrow> (f @ take n buf, Inl Io))"

definition fl_sync :: "io \<Rightarrow> framed_log \<Rightarrow> framed_log \<times> unit result" where
  "fl_sync io l = (if sy io then (l\<lparr>synced := length (fl_file l)\<rparr>, Inr ()) else (l, Inl Io))"

definition syncs_each_append :: "framed_log \<Rightarrow> bool" where
  "syncs_each_append l \<longleftrightarrow> sync_interval_ms l = None \<or> sync_interval_ms l = Some 0"

definition validate_header :: "log_format \<Rightarrow> byte list \<Rightarrow> unit result" where
  "validate_header fmt hdr =
     (if take 4 hdr \<noteq> magic fmt then Inl (Corruption ''framed log magic mismatch'')
      else if hdr ! 4 \<noteq> version fmt then Inl (Corruption ''unsupported framed log version'')
      else Inr ())"

text \<open>
  \<open>open\<close> creates a missing file (\<open>None\<close>) and returns the file as it leaves it beside the handle.
\<close>

definition fl_open :: "io \<Rightarrow> log_format \<Rightarrow> nat option \<Rightarrow> byte list option \<Rightarrow> byte list \<times> framed_log result" where
  "fl_open io fmt interval existing =
     (let f = (case existing of None \<Rightarrow> [] | Some f \<Rightarrow> f);
          handle = \<lambda>f n d. \<lparr>fl_file = f, synced = d, format = fmt, sync_interval_ms = interval, size_bytes = n\<rparr>
      in if length f < HEADER_LEN then
           (if \<not> tr io then (f, Inl Io)
            else let (f', r) = write_all io [] (encode_format fmt)
                 in (f', rbind r (\<lambda>_. if sy io then Inr (handle f' HEADER_LEN (length f')) else Inl Io)))
         else (f, rbind (validate_header fmt (take HEADER_LEN f)) (\<lambda>_. Inr (handle f (length f) 0))))"

definition frame_bytes :: "(byte list \<Rightarrow> u32) \<Rightarrow> byte list \<Rightarrow> byte list" where
  "frame_bytes h payload = le32 (of_nat (length payload)) @ le32 (h payload) @ payload"

definition build_frame :: "(byte list \<Rightarrow> u32) \<Rightarrow> 'e serde \<Rightarrow> 'e \<Rightarrow> byte list result" where
  "build_frame h sd e = rbind (ok_or Serialization (ser sd e)) (\<lambda>payload. Inr (frame_bytes h payload))"

definition append_prebuilt_bytes :: "io \<Rightarrow> byte list \<Rightarrow> framed_log \<Rightarrow> framed_log \<times> unit result" where
  "append_prebuilt_bytes io framed l =
     (if framed = [] then (l, Inr ())
      else let (f', r) = write_all io (fl_file l) framed; l1 = l\<lparr>fl_file := f'\<rparr>
           in case r of
                Inl e \<Rightarrow> (l1, Inl e)
              | Inr _ \<Rightarrow>
                  (let l2 = l1\<lparr>size_bytes := size_bytes l + length framed\<rparr>
                   in if syncs_each_append l2 then fl_sync io l2 else (l2, Inr ())))"

definition fl_append :: "(byte list \<Rightarrow> u32) \<Rightarrow> 'e serde \<Rightarrow> io \<Rightarrow> 'e \<Rightarrow> framed_log \<Rightarrow> framed_log \<times> unit result" where
  "fl_append h sd io e l =
     (case ser sd e of
        None \<Rightarrow> (l, Inl Serialization)
      | Some payload \<Rightarrow>
          (let scratch = frame_bytes h payload;
               (f', r) = write_all io (fl_file l) scratch;
               l1 = l\<lparr>fl_file := f'\<rparr>
           in case r of
                Inl e \<Rightarrow> (l1, Inl e)
              | Inr _ \<Rightarrow>
                  (let l2 = l1\<lparr>size_bytes := size_bytes l + length scratch\<rparr>
                   in if syncs_each_append l2 then fl_sync io l2 else (l2, Inr ()))))"

definition fl_reset :: "io \<Rightarrow> framed_log \<Rightarrow> framed_log \<times> unit result" where
  "fl_reset io l =
     (if \<not> tr io then (l, Inl Io)
      else let (f', r) = write_all io [] (encode_format (format l)); l1 = l\<lparr>fl_file := f', synced := 0\<rparr>
           in case r of
                Inl e \<Rightarrow> (l1, Inl e)
              | Inr _ \<Rightarrow>
                  (case fl_sync io l1 of
                     (l2, Inl e) \<Rightarrow> (l2, Inl e)
                   | (l2, Inr _) \<Rightarrow> (l2\<lparr>size_bytes := HEADER_LEN\<rparr>, Inr ())))"

text \<open>The recovery loop: each early \<open>break\<close> of the source ends the list of entries.\<close>

function recover_frames :: "(byte list \<Rightarrow> u32) \<Rightarrow> 'e serde \<Rightarrow> byte list \<Rightarrow> 'e list" where
  "recover_frames h sd bs =
     (if length bs < 4 then []
      else let len = unat (from_le32 (take 4 bs)); r1 = drop 4 bs
           in if MAX_FRAME_BYTES < len then []
              else if length r1 < 4 then []
              else let ck = from_le32 (take 4 r1); r2 = drop 4 r1
                   in if length r2 < len then []
                      else let payload = take len r2
                           in if h payload \<noteq> ck then []
                              else case de sd payload of
                                     None \<Rightarrow> []
                                   | Some e \<Rightarrow> e # recover_frames h sd (drop len r2))"
  by pat_completeness auto
termination
  by (relation "measure (\<lambda>(h, sd, bs). length bs)") auto

declare recover_frames.simps [simp del]

definition recover_from_reader :: "(byte list \<Rightarrow> u32) \<Rightarrow> 'e serde \<Rightarrow> log_format \<Rightarrow> byte list \<Rightarrow> 'e list result" where
  "recover_from_reader h sd fmt bs =
     (if length bs < HEADER_LEN then Inr []
      else rbind (validate_header fmt (take HEADER_LEN bs))
             (\<lambda>_. Inr (recover_frames h sd (drop HEADER_LEN bs))))"

definition fl_recover :: "(byte list \<Rightarrow> u32) \<Rightarrow> 'e serde \<Rightarrow> log_format \<Rightarrow> byte list option \<Rightarrow> 'e list result" where
  "fl_recover h sd fmt existing =
     (case existing of None \<Rightarrow> Inr [] | Some bs \<Rightarrow> recover_from_reader h sd fmt bs)"

section \<open>Frames and their recovery\<close>

text \<open>
  A record that survives the log: it serializes, its payload deserializes back to it (the contract
  of \<open>postcard\<close>), and the payload is within the cap that recovery accepts.
\<close>

definition rec_ok :: "'e serde \<Rightarrow> 'e \<Rightarrow> bool" where
  "rec_ok sd e \<longleftrightarrow> (\<exists>p. ser sd e = Some p \<and> de sd p = Some e \<and> length p \<le> MAX_FRAME_BYTES)"

definition frame_of :: "(byte list \<Rightarrow> u32) \<Rightarrow> 'e serde \<Rightarrow> 'e \<Rightarrow> byte list" where
  "frame_of h sd e = (case ser sd e of None \<Rightarrow> [] | Some p \<Rightarrow> frame_bytes h p)"

definition format_ok :: "log_format \<Rightarrow> bool" where
  "format_ok fmt \<longleftrightarrow> length (magic fmt) = 4"

definition log_bytes :: "(byte list \<Rightarrow> u32) \<Rightarrow> 'e serde \<Rightarrow> log_format \<Rightarrow> 'e list \<Rightarrow> byte list" where
  "log_bytes h sd fmt es = encode_format fmt @ concat (map (frame_of h sd) es)"

lemma unat_of_nat_u32: "n < 2 ^ 32 \<Longrightarrow> unat (of_nat n :: u32) = n"
  by (simp add: unsigned_of_nat take_bit_nat_eq_self)

lemma unat_of_nat_len: "length p \<le> MAX_FRAME_BYTES \<Longrightarrow> unat (of_nat (length p) :: u32) = length p"
  by (rule unat_of_nat_u32) (simp add: MAX_FRAME_BYTES_def)

lemma length_frame_bytes [simp]: "length (frame_bytes h p) = 8 + length p"
  by (simp add: frame_bytes_def)

lemma recover_frames_short: "length bs < 8 \<Longrightarrow> recover_frames h sd bs = []"
  by (subst recover_frames.simps) (simp add: Let_def)

lemma recover_frames_parse:
  "recover_frames h sd (le32 n @ le32 c @ body) =
     (if MAX_FRAME_BYTES < unat n \<or> length body < unat n \<or> h (take (unat n) body) \<noteq> c then []
      else case de sd (take (unat n) body) of
             None \<Rightarrow> [] | Some e \<Rightarrow> e # recover_frames h sd (drop (unat n) body))"
  by (subst recover_frames.simps) (simp add: Let_def)

lemma recover_frames_frame:
  assumes "length p \<le> MAX_FRAME_BYTES"
  shows "recover_frames h sd (frame_bytes h p @ rest) =
    (case de sd p of None \<Rightarrow> [] | Some e \<Rightarrow> e # recover_frames h sd rest)"
  using assms recover_frames_parse [of h sd "of_nat (length p)" "h p" "p @ rest"]
  by (simp add: frame_bytes_def unat_of_nat_len split: option.split)

lemma recover_frames_ok:
  "rec_ok sd e \<Longrightarrow> recover_frames h sd (frame_of h sd e @ rest) = e # recover_frames h sd rest"
  by (auto simp: rec_ok_def frame_of_def recover_frames_frame)

lemma recover_frames_concat:
  "\<forall>e \<in> set es. rec_ok sd e \<Longrightarrow>
   recover_frames h sd (concat (map (frame_of h sd) es) @ rest) = es @ recover_frames h sd rest"
  by (induction es) (simp_all add: recover_frames_ok)

lemma recover_frames_torn:
  assumes "n < length (frame_bytes h p)" "length p \<le> MAX_FRAME_BYTES"
  shows "recover_frames h sd (take n (frame_bytes h p)) = []"
proof (cases "n < 8")
  case False
  then have "take n (frame_bytes h p) = le32 (of_nat (length p)) @ le32 (h p) @ take (n - 8) p"
    by (simp add: frame_bytes_def)
  moreover have "length (take (n - 8) p) < length p" using assms(1) False by simp
  ultimately show ?thesis using assms(2) by (simp only: recover_frames_parse unat_of_nat_len) simp
qed (simp add: recover_frames_short)

lemma recover_frames_oversized:
  assumes "MAX_FRAME_BYTES < length p" "length p < 2 ^ 32"
  shows "recover_frames h sd (frame_bytes h p @ rest) = []"
  using assms unfolding frame_bytes_def append_assoc
  by (simp only: recover_frames_parse unat_of_nat_u32) simp

lemma recover_frames_bad_checksum:
  assumes "length p \<le> MAX_FRAME_BYTES" "h p \<noteq> c"
  shows "recover_frames h sd (le32 (of_nat (length p)) @ le32 c @ p @ rest) = []"
  using assms by (simp only: recover_frames_parse) (simp add: unat_of_nat_len)

lemma length_encode_format [simp]: "format_ok fmt \<Longrightarrow> length (encode_format fmt) = HEADER_LEN"
  by (simp add: encode_format_def format_ok_def HEADER_LEN_def)

lemma validate_header_encode [simp]: "format_ok fmt \<Longrightarrow> validate_header fmt (encode_format fmt) = Inr ()"
  by (simp add: validate_header_def encode_format_def format_ok_def nth_append)

lemma recover_from_reader_header:
  "format_ok fmt \<Longrightarrow> recover_from_reader h sd fmt (encode_format fmt @ bs) = Inr (recover_frames h sd bs)"
  by (simp add: recover_from_reader_def)

section \<open>Crash cuts\<close>

text \<open>The records whose frames lie wholly within the first \<open>n\<close> bytes of the frame area.\<close>

fun whole_records :: "(byte list \<Rightarrow> u32) \<Rightarrow> 'e serde \<Rightarrow> nat \<Rightarrow> 'e list \<Rightarrow> 'e list" where
  "whole_records h sd n [] = []"
| "whole_records h sd n (e # es) =
     (if length (frame_of h sd e) \<le> n then e # whole_records h sd (n - length (frame_of h sd e)) es else [])"

lemma prefix_whole_records: "prefix (whole_records h sd n es) es"
  by (induction h sd n es rule: whole_records.induct) auto

lemma recover_frames_cut:
  "\<forall>e \<in> set es. rec_ok sd e \<Longrightarrow>
   recover_frames h sd (take n (concat (map (frame_of h sd) es))) = whole_records h sd n es"
proof (induction es arbitrary: n)
  case Nil
  then show ?case by (simp add: recover_frames_short)
next
  case (Cons e es)
  from Cons.prems obtain p where p: "ser sd e = Some p" "length p \<le> MAX_FRAME_BYTES"
    by (auto simp: rec_ok_def)
  then have f: "frame_of h sd e = frame_bytes h p" by (simp add: frame_of_def)
  show ?case
  proof (cases "length (frame_of h sd e) \<le> n")
    case True
    with Cons show ?thesis by (simp add: recover_frames_ok)
  next
    case False
    with f recover_frames_torn [of n h p sd] p(2) show ?thesis by simp
  qed
qed

lemma recover_from_reader_cut:
  assumes "format_ok fmt" "\<forall>e \<in> set es. rec_ok sd e"
  shows "recover_from_reader h sd fmt (take n (log_bytes h sd fmt es))
    = Inr (if n < HEADER_LEN then [] else whole_records h sd (n - HEADER_LEN) es)"
proof (cases "n < HEADER_LEN")
  case True
  then show ?thesis by (simp add: recover_from_reader_def min_less_iff_disj)
next
  case False
  then have "take n (log_bytes h sd fmt es)
    = encode_format fmt @ take (n - HEADER_LEN) (concat (map (frame_of h sd) es))"
    using assms(1) by (simp add: log_bytes_def)
  with False assms show ?thesis by (simp add: recover_from_reader_header recover_frames_cut)
qed

section \<open>Handles\<close>

text \<open>A handle over a well-formed file that holds the records \<open>es\<close>.\<close>

definition fl_holds :: "(byte list \<Rightarrow> u32) \<Rightarrow> 'e serde \<Rightarrow> log_format \<Rightarrow> 'e list \<Rightarrow> framed_log \<Rightarrow> bool" where
  "fl_holds h sd fmt es l \<longleftrightarrow>
     format_ok fmt \<and> format l = fmt \<and> (\<forall>e \<in> set es. rec_ok sd e)
   \<and> fl_file l = log_bytes h sd fmt es \<and> size_bytes l = length (fl_file l) \<and> synced l \<le> length (fl_file l)"

lemma fl_holds_recover: "fl_holds h sd fmt es l \<Longrightarrow> recover_from_reader h sd fmt (fl_file l) = Inr es"
  using recover_frames_concat [of es sd h "[]"]
  by (simp add: fl_holds_def log_bytes_def recover_from_reader_header recover_frames_short)

lemma fl_append_ok:
  assumes "fl_holds h sd fmt es l" "rec_ok sd e" "wr io = None" "sy io"
  shows "snd (fl_append h sd io e l) = Inr ()" "fl_holds h sd fmt (es @ [e]) (fst (fl_append h sd io e l))"
    "syncs_each_append l \<Longrightarrow> synced (fst (fl_append h sd io e l)) = length (fl_file (fst (fl_append h sd io e l)))"
  using assms
  by (auto simp: fl_append_def fl_holds_def rec_ok_def write_all_def fl_sync_def frame_of_def log_bytes_def Let_def
      syncs_each_append_def)

lemma frame_of_nonempty: "rec_ok sd e \<Longrightarrow> frame_of h sd e \<noteq> []"
  by (auto simp: rec_ok_def frame_of_def frame_bytes_def le_bytes_def)

lemma append_prebuilt_bytes_ok:
  assumes "fl_holds h sd fmt es l" "\<forall>e \<in> set ds. rec_ok sd e" "wr io = None" "sy io"
  shows "snd (append_prebuilt_bytes io (concat (map (frame_of h sd) ds)) l) = Inr ()"
    "fl_holds h sd fmt (es @ ds) (fst (append_prebuilt_bytes io (concat (map (frame_of h sd) ds)) l))"
proof -
  let ?fs = "concat (map (frame_of h sd) ds)"
  have "ds = []" if "?fs = []"
    using that assms(2) frame_of_nonempty [of sd _ h] by (cases ds) auto
  then have "snd (append_prebuilt_bytes io ?fs l) = Inr ()
    \<and> fl_holds h sd fmt (es @ ds) (fst (append_prebuilt_bytes io ?fs l))"
  proof (cases "?fs = []")
    case False
    with assms show ?thesis
      by (auto simp add: append_prebuilt_bytes_def fl_holds_def write_all_def fl_sync_def log_bytes_def Let_def ball_Un)
  qed (use assms in \<open>simp add: append_prebuilt_bytes_def\<close>)
  then show "snd (append_prebuilt_bytes io ?fs l) = Inr ()"
    and "fl_holds h sd fmt (es @ ds) (fst (append_prebuilt_bytes io ?fs l))" by blast+
qed

lemma fl_append_torn:
  assumes "fl_holds h sd fmt es l" "ser sd e = Some p" "wr io = Some n"
  shows "snd (fl_append h sd io e l) = Inl Io"
    "fl_file (fst (fl_append h sd io e l)) = log_bytes h sd fmt es @ take n (frame_bytes h p)"
  using assms by (auto simp: fl_append_def fl_holds_def write_all_def Let_def)

lemma fl_open_new:
  assumes "format_ok fmt"
  shows "fl_open io_ok fmt iv None
    = (encode_format fmt, Inr \<lparr>fl_file = encode_format fmt, synced = HEADER_LEN, format = fmt,
         sync_interval_ms = iv, size_bytes = HEADER_LEN\<rparr>)"
  using assms by (simp add: fl_open_def io_ok_def write_all_def HEADER_LEN_def Let_def)

lemma fl_reset_ok:
  assumes "fl_holds h sd fmt es l" "wr io = None" "sy io" "tr io"
  shows "snd (fl_reset io l) = Inr ()" "fl_holds h sd fmt [] (fst (fl_reset io l))"
  using assms by (auto simp: fl_reset_def fl_holds_def write_all_def fl_sync_def log_bytes_def Let_def)

section \<open>The interface of an append-only log\<close>

text \<open>
  What the WAL and the snapshot log rely on: a log holds a sequence of records, appending an
  acceptable record extends the sequence, and recovery returns the sequence.
\<close>

locale append_log =
  fixes holds :: "'e list \<Rightarrow> 'l \<Rightarrow> bool"
    and add :: "'e \<Rightarrow> 'l \<Rightarrow> 'l"
    and recover :: "'l \<Rightarrow> 'e list result"
    and acceptable :: "'e \<Rightarrow> bool"
  assumes holds_add: "holds es l \<Longrightarrow> acceptable e \<Longrightarrow> holds (es @ [e]) (add e l)"
    and holds_recover: "holds es l \<Longrightarrow> recover l = Inr es"
begin

lemma holds_adds:
  "holds es l \<Longrightarrow> \<forall>e \<in> set ds. acceptable e \<Longrightarrow> holds (es @ ds) (foldl (\<lambda>l e. add e l) l ds)"
proof (induction ds arbitrary: es l)
  case (Cons d ds)
  then have "holds (es @ [d]) (add d l)" by (simp add: holds_add)
  from Cons.IH [OF this] Cons.prems show ?case by simp
qed simp

lemma recover_adds:
  "holds es l \<Longrightarrow> \<forall>e \<in> set ds. acceptable e \<Longrightarrow> recover (foldl (\<lambda>l e. add e l) l ds) = Inr (es @ ds)"
  by (rule holds_recover [OF holds_adds])

lemma holds_unique: "holds es l \<Longrightarrow> holds ds l \<Longrightarrow> es = ds"
  using holds_recover [of es l] holds_recover [of ds l] by simp

end

interpretation fl: append_log "fl_holds h sd fmt" "\<lambda>e l. fst (fl_append h sd io_ok e l)"
  "\<lambda>l. recover_from_reader h sd fmt (fl_file l)" "rec_ok sd"
  for h :: "byte list \<Rightarrow> u32" and sd :: "'e serde" and fmt :: log_format
  by unfold_locales (simp_all add: fl_append_ok io_ok_def fl_holds_recover)

section \<open>Properties\<close>

text \<open>A concrete instance for the witnesses: bytes as records, the checksum a sum of the bytes.\<close>

definition demo_hash :: "byte list \<Rightarrow> u32" where
  "demo_hash bs = foldl (\<lambda>a b. a + ucast b) 0 bs"

definition demo_serde :: "byte list serde" where
  "demo_serde = \<lparr>ser = Some, de = Some\<rparr>"

definition demo_format :: log_format where
  "demo_format = \<lparr>magic = map of_char ''DTST'', version = 1\<rparr>"

lemma demo_rec_ok: "length p \<le> MAX_FRAME_BYTES \<Longrightarrow> rec_ok demo_serde p"
  by (simp add: rec_ok_def demo_serde_def)

lemma demo_format_ok: "format_ok demo_format"
  by (simp add: format_ok_def demo_format_def)

text \<open>
  C21: Log round trip. A log created by \<open>open\<close>, to which records are appended without I/O errors,
  recovers to exactly those records, in order; and the bytes of pre-built frames written by the
  group-commit leader recover as if each had been appended alone.
\<close>

theorem log_append_recover:
  assumes "format_ok fmt" "\<forall>e \<in> set es. rec_ok sd e" "\<forall>e \<in> set ds. rec_ok sd e"
    and "snd (fl_open io_ok fmt iv None) = Inr l"
  shows "let l1 = foldl (\<lambda>l e. fst (fl_append h sd io_ok e l)) l es;
             l2 = fst (append_prebuilt_bytes io_ok (concat (map (frame_of h sd) ds)) l1)
         in recover_from_reader h sd fmt (fl_file l1) = Inr es
          \<and> recover_from_reader h sd fmt (fl_file l2) = Inr (es @ ds)
          \<and> size_bytes l2 = length (fl_file l2)"
proof -
  have "fl_holds h sd fmt [] l"
    using assms(1,4) by (simp add: fl_open_new fl_holds_def log_bytes_def) (auto simp: log_bytes_def)
  from fl.holds_adds [OF this assms(2)]
  have l1: "fl_holds h sd fmt es (foldl (\<lambda>l e. fst (fl_append h sd io_ok e l)) l es)" by simp
  from append_prebuilt_bytes_ok(2) [OF l1 assms(3)]
  have l2: "fl_holds h sd fmt (es @ ds) (fst (append_prebuilt_bytes io_ok (concat (map (frame_of h sd) ds))
      (foldl (\<lambda>l e. fst (fl_append h sd io_ok e l)) l es)))" by (simp add: io_ok_def)
  show ?thesis
    using fl_holds_recover [OF l1] fl_holds_recover [OF l2] l2 by (simp add: Let_def fl_holds_def)
qed

theorem log_append_recover_witness:
  "let l = \<lparr>fl_file = encode_format demo_format, synced = HEADER_LEN, format = demo_format,
            sync_interval_ms = None, size_bytes = HEADER_LEN\<rparr>;
       l1 = foldl (\<lambda>l e. fst (fl_append demo_hash demo_serde io_ok e l)) l [[7], [1, 2]]
   in recover_from_reader demo_hash demo_serde demo_format (fl_file l1) = Inr [[7], [1, 2]]"
proof -
  have o: "snd (fl_open io_ok demo_format None None) = Inr \<lparr>fl_file = encode_format demo_format,
      synced = HEADER_LEN, format = demo_format, sync_interval_ms = None, size_bytes = HEADER_LEN\<rparr>"
    by (simp add: fl_open_new demo_format_ok)
  have "\<forall>e \<in> set [[7], [1, 2]]. rec_ok demo_serde e" "\<forall>e \<in> set ([] :: byte list list). rec_ok demo_serde e"
    by (simp_all add: demo_rec_ok MAX_FRAME_BYTES_def)
  from log_append_recover [OF demo_format_ok this o, of demo_hash] show ?thesis by (simp add: Let_def)
qed

text \<open>
  C20: Corruption-bounded recovery. However a crash cuts a well-formed log file, at any byte, recovery
  succeeds and returns exactly the records whose frames were wholly written before the cut, which are
  a prefix of the records appended; a record whose checksum does not match its payload ends recovery
  at the records before it.
\<close>

theorem log_recover_cut:
  assumes "format_ok fmt" "\<forall>e \<in> set es. rec_ok sd e"
  shows "recover_from_reader h sd fmt (take n (log_bytes h sd fmt es))
      = Inr (if n < HEADER_LEN then [] else whole_records h sd (n - HEADER_LEN) es)
    \<and> prefix (whole_records h sd (n - HEADER_LEN) es) es
    \<and> (length p \<le> MAX_FRAME_BYTES \<and> h p \<noteq> c \<longrightarrow>
         recover_from_reader h sd fmt
           (log_bytes h sd fmt es @ le32 (of_nat (length p)) @ le32 c @ p @ rest) = Inr es)"
proof -
  have "recover_from_reader h sd fmt (log_bytes h sd fmt es @ bs) = Inr (es @ recover_frames h sd bs)" for bs
    using assms by (simp add: log_bytes_def recover_from_reader_header recover_frames_concat)
  with recover_from_reader_cut [OF assms] show ?thesis
    by (simp add: prefix_whole_records recover_frames_bad_checksum)
qed

theorem log_recover_cut_witness:
  "recover_from_reader demo_hash demo_serde demo_format
     (take 20 (log_bytes demo_hash demo_serde demo_format [[7], [1, 2]])) = Inr [[7]]"
proof -
  have ok: "\<forall>e \<in> set [[7], [1, 2]]. rec_ok demo_serde e"
    by (simp add: demo_rec_ok MAX_FRAME_BYTES_def)
  have "whole_records demo_hash demo_serde (20 - HEADER_LEN) [[7], [1, 2]] = [[7]]"
    by (simp add: frame_of_def demo_serde_def HEADER_LEN_def)
  with log_recover_cut [OF demo_format_ok ok, of demo_hash 20] show ?thesis
    by (simp add: HEADER_LEN_def)
qed

text \<open>
  C30: Type confusion is detected. A well-formed log of one format is refused, with a corruption
  error and without being modified, by \<open>open\<close> and by recovery under any other format (another
  magic or another version).
\<close>

theorem log_format_mismatch:
  assumes "format_ok fmt" "format_ok fmt'" "fmt \<noteq> fmt'"
  shows "\<exists>msg. recover_from_reader h sd fmt' (log_bytes h sd' fmt es) = Inl (Corruption msg)
    \<and> fl_open io fmt' iv (Some (log_bytes h sd' fmt es)) = (log_bytes h sd' fmt es, Inl (Corruption msg))"
proof -
  have "magic fmt \<noteq> magic fmt' \<or> version fmt \<noteq> version fmt'"
    using assms(3) by (metis log_format.equality old.unit.exhaust)
  moreover have "take 4 (encode_format fmt) = magic fmt" "encode_format fmt ! 4 = version fmt"
    using assms(1) by (simp_all add: encode_format_def format_ok_def nth_append)
  ultimately have "\<exists>msg. validate_header fmt' (encode_format fmt) = Inl (Corruption msg)"
    by (auto simp: validate_header_def)
  then show ?thesis
    using assms(1) by (auto simp: recover_from_reader_def fl_open_def log_bytes_def Let_def)
qed

theorem log_format_mismatch_witness:
  "\<exists>msg. recover_from_reader demo_hash demo_serde (demo_format\<lparr>version := 99\<rparr>)
     (log_bytes demo_hash demo_serde demo_format [[7]]) = Inl (Corruption msg)"
proof -
  have "format_ok (demo_format\<lparr>version := 99\<rparr>)" "demo_format \<noteq> demo_format\<lparr>version := 99\<rparr>"
    by (simp_all add: format_ok_def demo_format_def)
  from log_format_mismatch [OF demo_format_ok this, of demo_hash demo_serde demo_serde "[[7]]" io_ok None]
  show ?thesis by blast
qed

text \<open>
  C34: An oversized record is acknowledged and lost. The append path has no size limit, recovery has one
  (64 MiB): a record between the two, and every record appended after it, is written with success and
  is not returned by recovery.
\<close>

theorem log_oversized_record_lost:
  assumes "fl_holds h sd fmt es l" "ser sd big = Some p" "MAX_FRAME_BYTES < length p" "length p < 2 ^ 32"
    and "\<forall>e \<in> set later. ser sd e \<noteq> None"
  shows "snd (fl_append h sd io_ok big l) = Inr ()
    \<and> recover_from_reader h sd fmt
        (fl_file (foldl (\<lambda>l e. fst (fl_append h sd io_ok e l)) (fst (fl_append h sd io_ok big l)) later)) = Inr es"
proof -
  have app: "fl_file (foldl (\<lambda>l e. fst (fl_append h sd io_ok e l)) l' later)
    = fl_file l' @ concat (map (frame_of h sd) later)" for l'
    using assms(5)
  proof (induction later arbitrary: l')
    case (Cons e later)
    then have "fl_file (fst (fl_append h sd io_ok e l')) = fl_file l' @ frame_of h sd e"
      by (auto simp: fl_append_def write_all_def fl_sync_def io_ok_def frame_of_def Let_def)
    with Cons show ?case by simp
  qed simp
  have f: "fl_file (fst (fl_append h sd io_ok big l)) = log_bytes h sd fmt es @ frame_bytes h p"
    and r: "snd (fl_append h sd io_ok big l) = Inr ()"
    using assms(1,2) by (auto simp: fl_append_def write_all_def fl_sync_def io_ok_def fl_holds_def Let_def)
  have ok: "format_ok fmt" "\<forall>e \<in> set es. rec_ok sd e" using assms(1) by (simp_all add: fl_holds_def)
  show ?thesis
    using r recover_frames_oversized [OF assms(3,4)] ok
    by (simp add: app f log_bytes_def recover_from_reader_header recover_frames_concat)
qed

theorem log_oversized_record_lost_witness:
  "let l = \<lparr>fl_file = encode_format demo_format, synced = HEADER_LEN, format = demo_format,
            sync_interval_ms = None, size_bytes = HEADER_LEN\<rparr>;
       big = replicate (MAX_FRAME_BYTES + 1) 0
   in snd (fl_append demo_hash demo_serde io_ok big l) = Inr ()
    \<and> recover_from_reader demo_hash demo_serde demo_format
        (fl_file (foldl (\<lambda>l e. fst (fl_append demo_hash demo_serde io_ok e l))
          (fst (fl_append demo_hash demo_serde io_ok big l)) [[7]])) = Inr []"
proof -
  let ?l = "\<lparr>fl_file = encode_format demo_format, synced = HEADER_LEN, format = demo_format,
     sync_interval_ms = None, size_bytes = HEADER_LEN\<rparr>"
  let ?big = "replicate (MAX_FRAME_BYTES + 1) (0 :: byte)"
  have "fl_holds demo_hash demo_serde demo_format [] ?l"
    by (simp add: fl_holds_def demo_format_ok log_bytes_def)
  moreover have "ser demo_serde ?big = Some ?big" by (simp add: demo_serde_def)
  moreover have "MAX_FRAME_BYTES < length ?big" "length ?big < 2 ^ 32" by (simp_all add: MAX_FRAME_BYTES_def)
  moreover have "\<forall>e \<in> set [[7]]. ser demo_serde e \<noteq> None" by (simp add: demo_serde_def)
  ultimately show ?thesis using log_oversized_record_lost by (simp only: Let_def)
qed



end
