(* ===== verification/Snapshot_Log.thy ===== *)
theory Snapshot_Log
  imports Framed_Log
begin

text \<open>
  \<^verbatim>\<open>dtdb_storage/src/snapshot_log.rs\<close> and \<^verbatim>\<open>dtdb_storage/src/manifest.rs\<close>: state kept as a base snapshot
  plus a log of edit batches, switched to a fresh generation by an atomic replacement of the file
  \<^verbatim>\<open>CURRENT\<close>, and its client, the set of live SSTables. Also \<open>atomic_write\<close> and \<open>fsync_parent_dir\<close> of
  \<^verbatim>\<open>dtdb_storage/src/lib.rs\<close>.

  The directory is a record: the text of \<^verbatim>\<open>CURRENT\<close> (ASCII) and the \<open>snapshot.<gen>\<close> and \<open>log.<gen>\<close> files by
  generation. Hidden temporary files are not part of it: nothing reads them. Every system call may
  fail, as the argument \<open>io\<close> says; a crash is a failure after which the process does not go on, so the
  directories a crash leaves are those an operation leaves when one of its calls fails.
\<close>

section \<open>Decimal numbers\<close>

text \<open>\<open>u64::to_string\<close>, \<open>str::trim\<close> on ASCII text and \<open>str::parse::<u64>\<close>.\<close>

definition digit :: "nat \<Rightarrow> char" where
  "digit d = char_of (48 + d)"

fun to_dec :: "nat \<Rightarrow> string" where
  "to_dec n = (if n < 10 then [digit n] else to_dec (n div 10) @ [digit (n mod 10)])"

declare to_dec.simps [simp del]

definition is_space :: "char \<Rightarrow> bool" where
  "is_space c \<longleftrightarrow> of_char c \<in> {9 :: nat, 10, 11, 12, 13, 32}"

definition trim :: "string \<Rightarrow> string" where
  "trim s = rev (dropWhile is_space (rev (dropWhile is_space s)))"

fun parse_digits :: "nat \<Rightarrow> string \<Rightarrow> nat option" where
  "parse_digits acc [] = Some acc"
| "parse_digits acc (c # cs) =
     (let d = of_char c :: nat
      in if d < 48 \<or> 57 < d then None
         else let acc' = 10 * acc + (d - 48) in if 2 ^ 64 \<le> acc' then None else parse_digits acc' cs)"

definition parse_u64 :: "string \<Rightarrow> u64 option" where
  "parse_u64 s =
     (case s of
        [] \<Rightarrow> None
      | c # cs \<Rightarrow> map_option of_nat (if c = CHR ''+'' \<and> cs \<noteq> [] then parse_digits 0 cs else parse_digits 0 s))"

section \<open>Atomic replacement of a file\<close>

datatype dir_sync = Dir_Synced | Dir_Einval | Dir_Sync_Failed | Dir_Open_Failed

definition fsync_parent_dir :: "dir_sync \<Rightarrow> unit result" where
  "fsync_parent_dir d =
     (case d of Dir_Synced \<Rightarrow> Inr () | Dir_Einval \<Rightarrow> Inr () | Dir_Sync_Failed \<Rightarrow> Inl Io | Dir_Open_Failed \<Rightarrow> Inl Io)"

record aw_io =
  aw_create :: bool
  aw_wr :: "nat option"
  aw_sync :: bool
  aw_rename :: bool
  aw_dir :: dir_sync

definition aw_ok :: aw_io where
  "aw_ok = \<lparr>aw_create = True, aw_wr = None, aw_sync = True, aw_rename = True, aw_dir = Dir_Synced\<rparr>"

text \<open>The file under the target name, before and after, and the result.\<close>

definition atomic_write :: "aw_io \<Rightarrow> 'b \<Rightarrow> 'b option \<Rightarrow> 'b option \<times> unit result" where
  "atomic_write io bytes old =
     (if \<not> aw_create io then (old, Inl Io)
      else if aw_wr io \<noteq> None then (old, Inl Io)
      else if \<not> aw_sync io then (old, Inl Io)
      else if \<not> aw_rename io then (old, Inl Io)
      else (Some bytes, fsync_parent_dir (aw_dir io)))"

section \<open>The snapshot log\<close>

text \<open>The trait \<open>Snapshotable\<close>, with \<open>postcard\<close> for the state and for batches of edits.\<close>

record ('s, 'e) snapshotable =
  sn_default :: 's
  sn_apply :: "'e \<Rightarrow> 's \<Rightarrow> 's"
  sn_state :: "'s serde"
  sn_batch :: "'e list serde"

record snapshot_dir =
  d_current :: "string option"
  d_snap :: "u64 \<rightharpoonup> byte list"
  d_log :: "u64 \<rightharpoonup> byte list"

record 's snapshot_log =
  sl_state :: 's
  sl_log :: framed_log
  sl_generation :: u64
  sl_format :: log_format
  sl_threshold :: nat

record sl_io =
  io_read :: bool
  io_snap :: aw_io
  io_log :: io
  io_current :: aw_io
  io_dir :: bool
  keep_snap :: "u64 \<Rightarrow> bool"
  keep_log :: "u64 \<Rightarrow> bool"
  io_append :: io

definition sl_io_ok :: sl_io where
  "sl_io_ok = \<lparr>io_read = True, io_snap = aw_ok, io_log = io_ok, io_current = aw_ok, io_dir = True,
     keep_snap = (\<lambda>g. False), keep_log = (\<lambda>g. False), io_append = io_ok\<rparr>"

definition read_current :: "string \<Rightarrow> u64 result" where
  "read_current text = ok_or (Corruption ''invalid CURRENT generation'') (parse_u64 (trim text))"

definition write_current :: "aw_io \<Rightarrow> u64 \<Rightarrow> snapshot_dir \<Rightarrow> snapshot_dir \<times> unit result" where
  "write_current io g d = (let (c, r) = atomic_write io (to_dec (unat g)) (d_current d) in (d\<lparr>d_current := c\<rparr>, r))"

definition remove_stale_generations :: "sl_io \<Rightarrow> u64 \<Rightarrow> snapshot_dir \<Rightarrow> snapshot_dir \<times> unit result" where
  "remove_stale_generations io g d =
     (d\<lparr>d_snap := (\<lambda>g'. if g' = g \<or> keep_snap io g' then d_snap d g' else None),
        d_log := (\<lambda>g'. if g' = g \<or> keep_log io g' then d_log d g' else None)\<rparr>,
      if io_dir io then Inr () else Inl Io)"

text \<open>
  What opening and compaction share: the snapshot of the new generation, an empty log for it, and the
  switch of \<^verbatim>\<open>CURRENT\<close>.
\<close>

definition publish :: "('s, 'e) snapshotable \<Rightarrow> sl_io \<Rightarrow> log_format \<Rightarrow> u64 \<Rightarrow> 's \<Rightarrow> snapshot_dir \<Rightarrow> snapshot_dir \<times> framed_log result" where
  "publish sn io fmt g s d =
     (case ser (sn_state sn) s of
        None \<Rightarrow> (d, Inl Serialization)
      | Some bytes \<Rightarrow>
          (let (f, r) = atomic_write (io_snap io) bytes (d_snap d g); d1 = d\<lparr>d_snap := (d_snap d)(g := f)\<rparr>
           in case r of
                Inl e \<Rightarrow> (d1, Inl e)
              | Inr _ \<Rightarrow>
                  (let (f, r) = fl_open (io_log io) fmt None (d_log d1 g); d2 = d1\<lparr>d_log := (d_log d1)(g \<mapsto> f)\<rparr>
                   in case r of
                        Inl e \<Rightarrow> (d2, Inl e)
                      | Inr l \<Rightarrow>
                          (case write_current (io_current io) g d2 of
                             (d3, Inl e) \<Rightarrow> (d3, Inl e)
                           | (d3, Inr _) \<Rightarrow> (d3, Inr l)))))"

definition apply_batch :: "('s, 'e) snapshotable \<Rightarrow> 'e list \<Rightarrow> 's \<Rightarrow> 's" where
  "apply_batch sn edits s = foldl (\<lambda>s e. sn_apply sn e s) s edits"

definition load_state :: "(byte list \<Rightarrow> u32) \<Rightarrow> ('s, 'e) snapshotable \<Rightarrow> bool \<Rightarrow> log_format \<Rightarrow> u64 \<Rightarrow> snapshot_dir \<Rightarrow> 's result" where
  "load_state h sn rd fmt g d =
     rbind (ok_or Io (if rd then d_snap d g else None)) (\<lambda>bytes.
     rbind (ok_or Serialization (de (sn_state sn) bytes)) (\<lambda>s.
     rbind (fl_recover h (sn_batch sn) fmt (d_log d g)) (\<lambda>batches.
     Inr (foldl (\<lambda>s b. apply_batch sn b s) s batches))))"

definition sl_open :: "(byte list \<Rightarrow> u32) \<Rightarrow> ('s, 'e) snapshotable \<Rightarrow> sl_io \<Rightarrow> log_format \<Rightarrow> nat \<Rightarrow> snapshot_dir
    \<Rightarrow> snapshot_dir \<times> 's snapshot_log result" where
  "sl_open h sn io fmt threshold d =
     (let handle = \<lambda>s l g. \<lparr>sl_state = s, sl_log = l, sl_generation = g, sl_format = fmt, sl_threshold = threshold\<rparr>
      in case d_current d of
           Some text \<Rightarrow>
             (case rbind (if io_read io then read_current text else Inl Io)
                     (\<lambda>g. rbind (load_state h sn (io_read io) fmt g d) (\<lambda>s. Inr (g, s))) of
                Inl e \<Rightarrow> (d, Inl e)
              | Inr (g, s) \<Rightarrow>
                  (case publish sn io fmt (g + 1) s d of
                     (d1, Inl e) \<Rightarrow> (d1, Inl e)
                   | (d1, Inr l) \<Rightarrow>
                       (case remove_stale_generations io (g + 1) d1 of
                          (d2, Inl e) \<Rightarrow> (d2, Inl e)
                        | (d2, Inr _) \<Rightarrow> (d2, Inr (handle s l (g + 1))))))
         | None \<Rightarrow>
             (case publish sn io fmt 0 (sn_default sn) d of
                (d1, Inl e) \<Rightarrow> (d1, Inl e)
              | (d1, Inr l) \<Rightarrow> (d1, Inr (handle (sn_default sn) l 0))))"

definition sl_compact :: "('s, 'e) snapshotable \<Rightarrow> sl_io \<Rightarrow> snapshot_dir \<times> 's snapshot_log
    \<Rightarrow> (snapshot_dir \<times> 's snapshot_log) \<times> unit result" where
  "sl_compact sn io ds =
     (let (d, sl) = ds; new_gen = sl_generation sl + 1; old_gen = sl_generation sl
      in case publish sn io (sl_format sl) new_gen (sl_state sl) d of
           (d1, Inl e) \<Rightarrow> ((d1, sl), Inl e)
         | (d1, Inr l) \<Rightarrow>
             ((d1\<lparr>d_snap := (if keep_snap io old_gen then d_snap d1 else (d_snap d1)(old_gen := None)),
                  d_log := (if keep_log io old_gen then d_log d1 else (d_log d1)(old_gen := None))\<rparr>,
               sl\<lparr>sl_generation := new_gen, sl_log := l\<rparr>), Inr ()))"

definition sl_append_batch :: "(byte list \<Rightarrow> u32) \<Rightarrow> ('s, 'e) snapshotable \<Rightarrow> sl_io \<Rightarrow> 'e list \<Rightarrow> snapshot_dir \<times> 's snapshot_log
    \<Rightarrow> (snapshot_dir \<times> 's snapshot_log) \<times> unit result" where
  "sl_append_batch h sn io edits ds =
     (let (d, sl) = ds; sl1 = sl\<lparr>sl_state := apply_batch sn edits (sl_state sl)\<rparr>;
          (l, r) = fl_append h (sn_batch sn) (io_append io) edits (sl_log sl1);
          d1 = d\<lparr>d_log := (d_log d)(sl_generation sl \<mapsto> fl_file l)\<rparr>; sl2 = sl1\<lparr>sl_log := l\<rparr>
      in case r of
           Inl e \<Rightarrow> ((d1, sl2), Inl e)
         | Inr _ \<Rightarrow> if sl_threshold sl2 \<le> size_bytes l then sl_compact sn io (d1, sl2) else ((d1, sl2), Inr ()))"

definition sl_append :: "(byte list \<Rightarrow> u32) \<Rightarrow> ('s, 'e) snapshotable \<Rightarrow> sl_io \<Rightarrow> 'e \<Rightarrow> snapshot_dir \<times> 's snapshot_log
    \<Rightarrow> (snapshot_dir \<times> 's snapshot_log) \<times> unit result" where
  "sl_append h sn io edit = sl_append_batch h sn io [edit]"

section \<open>The manifest\<close>

definition MANIFEST_LOG_FORMAT :: log_format where
  "MANIFEST_LOG_FORMAT = \<lparr>magic = map of_char ''DMAN'', version = 1\<rparr>"

type_synonym manifest = "(nat \<times> u64) set"

datatype manifest_edit = AddSstable nat u64 | RemoveSstable nat u64

fun manifest_apply :: "manifest_edit \<Rightarrow> manifest \<Rightarrow> manifest" where
  "manifest_apply (AddSstable level sid) m = insert (level, sid) m"
| "manifest_apply (RemoveSstable level sid) m = m - {(level, sid)}"

definition manifest_snapshotable :: "manifest serde \<Rightarrow> manifest_edit list serde \<Rightarrow> (manifest, manifest_edit) snapshotable" where
  "manifest_snapshotable st bt = \<lparr>sn_default = {}, sn_apply = manifest_apply, sn_state = st, sn_batch = bt\<rparr>"

section \<open>Decimal round trip\<close>

lemma of_char_digit: "d < 10 \<Longrightarrow> (of_char (digit d) :: nat) = 48 + d"
  by (simp add: digit_def)

lemma parse_digits_append:
  "parse_digits a (xs @ ys) = Option.bind (parse_digits a xs) (\<lambda>b. parse_digits b ys)"
  by (induction xs arbitrary: a) (simp_all add: Let_def)

lemma parse_digits_to_dec: "n < 2 ^ 64 \<Longrightarrow> parse_digits 0 (to_dec n) = Some n"
proof (induction n rule: to_dec.induct)
  case (1 n)
  show ?case
  proof (cases "n < 10")
    case True
    then show ?thesis using 1 by (simp add: to_dec.simps of_char_digit Let_def)
  next
    case False
    have "n div 10 < 2 ^ 64" using 1(2) by (meson div_le_dividend le_less_trans)
    then have "parse_digits 0 (to_dec (n div 10)) = Some (n div 10)" using 1(1) [OF False] by blast
    moreover have "10 * (n div 10) + (n mod 10) = n" by (rule mult_div_mod_eq)
    ultimately show ?thesis
      using False 1(2) by (simp add: to_dec.simps [of n] parse_digits_append of_char_digit Let_def)
  qed
qed

lemma to_dec_digits: "c \<in> set (to_dec n) \<Longrightarrow> \<exists>d < 10. c = digit d"
proof (induction n rule: to_dec.induct)
  case (1 n)
  show ?case
  proof (cases "n < 10")
    case True
    then show ?thesis using 1(2) by (auto simp: to_dec.simps)
  next
    case False
    then have "c \<in> set (to_dec (n div 10)) \<or> c = digit (n mod 10)" using 1(2) by (auto simp: to_dec.simps [of n])
    then show ?thesis using 1(1) [OF False] by (auto intro: exI [of _ "n mod 10"])
  qed
qed

lemma to_dec_nonempty [simp]: "to_dec n \<noteq> []"
  by (subst to_dec.simps) simp

lemma trim_to_dec: "trim (to_dec n) = to_dec n"
proof -
  have ns: "\<not> is_space c" if "c \<in> set (to_dec n)" for c
    using to_dec_digits [OF that] by (auto simp: is_space_def of_char_digit)
  then have "dropWhile is_space (to_dec n) = to_dec n" "dropWhile is_space (rev (to_dec n)) = rev (to_dec n)"
    by (simp_all add: dropWhile_eq_self_iff hd_rev)
  then show ?thesis by (simp add: trim_def)
qed

lemma read_current_to_dec: "read_current (to_dec (unat g)) = Inr g"
proof -
  have p: "parse_digits 0 (to_dec (unat g)) = Some (unat g)"
    by (rule parse_digits_to_dec) (use unsigned_less [of g, where ?'a = nat] in simp)
  obtain c cs where c: "to_dec (unat g) = c # cs" by (cases "to_dec (unat g)") simp_all
  then obtain d where "d < 10" "c = digit d" using to_dec_digits [of c "unat g"] by auto
  then have "c \<noteq> CHR ''+''" using of_char_digit [of d] by auto
  then have "parse_u64 (to_dec (unat g)) = Some g" using p by (simp add: parse_u64_def c)
  then show ?thesis by (simp add: read_current_def trim_to_dec)
qed

section \<open>What a directory holds\<close>

text \<open>The contract of \<open>postcard\<close> on the states \<open>S\<close> the program can reach.\<close>

definition sn_ok :: "('s, 'e) snapshotable \<Rightarrow> 's set \<Rightarrow> bool" where
  "sn_ok sn S \<longleftrightarrow>
     sn_default sn \<in> S \<and> (\<forall>s \<in> S. \<forall>e. sn_apply sn e s \<in> S)
   \<and> (\<forall>s \<in> S. \<exists>p. ser (sn_state sn) s = Some p \<and> de (sn_state sn) p = Some s)"

text \<open>A log file no edit was ever written to.\<close>

definition fresh_log :: "log_format \<Rightarrow> byte list option \<Rightarrow> bool" where
  "fresh_log fmt f = (case f of None \<Rightarrow> True | Some b \<Rightarrow> length b < HEADER_LEN \<or> b = encode_format fmt)"

definition dir_holds :: "(byte list \<Rightarrow> u32) \<Rightarrow> ('s, 'e) snapshotable \<Rightarrow> log_format \<Rightarrow> snapshot_dir \<Rightarrow> u64 \<Rightarrow> 's \<Rightarrow> bool" where
  "dir_holds h sn fmt d g s \<longleftrightarrow>
     d_current d = Some (to_dec (unat g)) \<and> load_state h sn True fmt g d = Inr s
   \<and> (\<forall>g'. unat g < unat g' \<longrightarrow> fresh_log fmt (d_log d g'))"

definition sl_inv :: "(byte list \<Rightarrow> u32) \<Rightarrow> ('s, 'e) snapshotable \<Rightarrow> 's set \<Rightarrow> log_format \<Rightarrow> nat \<Rightarrow> snapshot_dir \<times> 's snapshot_log \<Rightarrow> bool" where
  "sl_inv h sn S fmt n ds \<longleftrightarrow>
     (let (d, sl) = ds; g = sl_generation sl
      in dir_holds h sn fmt d g (sl_state sl) \<and> sl_format sl = fmt \<and> sl_state sl \<in> S
       \<and> d_log d g = Some (fl_file (sl_log sl)) \<and> (\<exists>bs. fl_holds h (sn_batch sn) fmt bs (sl_log sl))
       \<and> unat g + Suc n < 2 ^ 64)"

definition reopened :: "(byte list \<Rightarrow> u32) \<Rightarrow> ('s, 'e) snapshotable \<Rightarrow> log_format \<Rightarrow> nat \<Rightarrow> snapshot_dir \<Rightarrow> 's result" where
  "reopened h sn fmt threshold d = rbind (snd (sl_open h sn sl_io_ok fmt threshold d)) (\<lambda>sl. Inr (sl_state sl))"

lemma apply_batch_in: "sn_ok sn S \<Longrightarrow> s \<in> S \<Longrightarrow> apply_batch sn es s \<in> S"
  unfolding apply_batch_def by (induction es arbitrary: s) (auto simp: sn_ok_def)

lemma atomic_write_cases:
  "atomic_write io b old = (f, r) \<Longrightarrow> (f = old \<and> r = Inl Io) \<or> (f = Some b \<and> (r = Inr () \<or> r = Inl Io))"
  by (auto simp: atomic_write_def fsync_parent_dir_def split: if_splits dir_sync.splits)

lemma HEADER_LEN_pos [simp]: "HEADER_LEN \<noteq> 0" "0 < HEADER_LEN"
  by (simp_all add: HEADER_LEN_def)

lemma fl_open_fresh:
  assumes "format_ok fmt" "fresh_log fmt old" "fl_open io fmt None old = (f, r)"
  shows "fresh_log fmt (Some f)" "r = Inr l \<Longrightarrow> fl_holds h sd fmt [] l \<and> fl_file l = f"
proof -
  have "fresh_log fmt (Some f) \<and> (r = Inr l \<longrightarrow> fl_holds h sd fmt [] l \<and> fl_file l = f)"
    using assms
    by (auto simp: fl_open_def fresh_log_def write_all_def fl_holds_def log_bytes_def Let_def rbind_eq_Inr
        split: option.splits if_splits prod.splits)
  then show "fresh_log fmt (Some f)" "r = Inr l \<Longrightarrow> fl_holds h sd fmt [] l \<and> fl_file l = f" by blast+
qed

lemma fresh_log_recover: "format_ok fmt \<Longrightarrow> fresh_log fmt f \<Longrightarrow> fl_recover h sd fmt f = Inr []"
  using recover_from_reader_header [of fmt h sd "[]"]
  by (auto simp: fresh_log_def fl_recover_def recover_from_reader_def recover_frames_short split: option.splits)

lemma load_state_cong:
  "d_snap d' g = d_snap d g \<Longrightarrow> d_log d' g = d_log d g \<Longrightarrow> load_state h sn rd fmt g d' = load_state h sn rd fmt g d"
  by (simp add: load_state_def)

text \<open>Publishing a newer generation: the directory holds the old state or the new one, the new one on success.\<close>

lemma publish_cases:
  assumes sn: "sn_ok sn S" and fmt: "format_ok fmt" and old: "dir_holds h sn fmt d g s0" and s: "s \<in> S"
    and g: "unat g < unat g'" and p: "publish sn io fmt g' s d = (d', r)"
  shows "dir_holds h sn fmt d' g s0 \<or> dir_holds h sn fmt d' g' s"
    "r = Inr l \<Longrightarrow> dir_holds h sn fmt d' g' s \<and> fl_holds h (sn_batch sn) fmt [] l \<and> d_log d' g' = Some (fl_file l)"
proof -
  have ne: "g \<noteq> g'" using g by auto
  obtain bytes where b: "ser (sn_state sn) s = Some bytes" "de (sn_state sn) bytes = Some s" using sn s by (auto simp: sn_ok_def)
  obtain f r1 where w: "atomic_write (io_snap io) bytes (d_snap d g') = (f, r1)" by force
  define d1 where "d1 = d\<lparr>d_snap := (d_snap d)(g' := f)\<rparr>"
  have old1: "dir_holds h sn fmt d1 g s0" using old ne load_state_cong [of d1 g d h sn True fmt] by (auto simp: dir_holds_def d1_def)
  have "(dir_holds h sn fmt d' g s0 \<or> dir_holds h sn fmt d' g' s) \<and>
    (r = Inr l \<longrightarrow> dir_holds h sn fmt d' g' s \<and> fl_holds h (sn_batch sn) fmt [] l \<and> d_log d' g' = Some (fl_file l))"
  proof (cases r1)
    case (Inl e)
    then have "d' = d1" "r = Inl e" using p b w by (auto simp: publish_def d1_def)
    then show ?thesis using old1 by simp
  next
    case (Inr u)
    then have f: "f = Some bytes" using atomic_write_cases [OF w] by auto
    obtain lf r2 where o: "fl_open (io_log io) fmt None (d_log d1 g') = (lf, r2)" by force
    have fr: "fresh_log fmt (d_log d1 g')" using old1 g by (auto simp: dir_holds_def)
    define d2 where "d2 = d1\<lparr>d_log := (d_log d1)(g' \<mapsto> lf)\<rparr>"
    note O = fl_open_fresh [OF fmt fr o]
    have old2: "dir_holds h sn fmt d2 g s0"
      using old1 ne load_state_cong [of d2 g d1 h sn True fmt] O(1) by (auto simp: dir_holds_def d2_def)
    have load: "load_state h sn True fmt g' d2 = Inr s"
      using fresh_log_recover [OF fmt O(1), of h "sn_batch sn"] by (simp add: load_state_def d2_def d1_def f b)
    show ?thesis
    proof (cases r2)
      case (Inl e)
      then have "d' = d2" "r = Inl e" using p b w \<open>r1 = Inr u\<close> o by (auto simp: publish_def d1_def d2_def Let_def)
      then show ?thesis using old2 by simp
    next
      case l: (Inr l')
      obtain c r3 where c: "atomic_write (io_current io) (to_dec (unat g')) (d_current d2) = (c, r3)" by force
      define d3 where "d3 = d2\<lparr>d_current := c\<rparr>"
      have d': "d' = d3" "r = (case r3 of Inl e \<Rightarrow> Inl e | Inr _ \<Rightarrow> Inr l')"
        using p b w \<open>r1 = Inr u\<close> o l c
        by (auto simp: publish_def d1_def d2_def d3_def Let_def write_current_def split: sum.splits)
      have new: "dir_holds h sn fmt d3 g' s" if "c = Some (to_dec (unat g'))"
        using that load load_state_cong [of d3 g' d2 h sn True fmt] old2 g by (auto simp: dir_holds_def d3_def)
      have old3: "dir_holds h sn fmt d3 g s0" if "c = d_current d2"
        using that old2 by (simp add: d3_def)
      have lg: "d_log d3 g' = Some lf" by (simp add: d3_def d2_def)
      show ?thesis
        using atomic_write_cases [OF c] new old3 d' O(2) [of l' h "sn_batch sn"] l lg by (auto split: sum.splits)
    qed
  qed
  then show "dir_holds h sn fmt d' g s0 \<or> dir_holds h sn fmt d' g' s"
    "r = Inr l \<Longrightarrow> dir_holds h sn fmt d' g' s \<and> fl_holds h (sn_batch sn) fmt [] l \<and> d_log d' g' = Some (fl_file l)"
    by blast+
qed

lemma publish_succeeds:
  assumes "sn_ok sn S" "format_ok fmt" "fresh_log fmt (d_log d g)" "s \<in> S"
  shows "\<exists>d' l. publish sn sl_io_ok fmt g s d = (d', Inr l)"
proof -
  obtain bytes where "ser (sn_state sn) s = Some bytes" using assms(1,4) by (auto simp: sn_ok_def)
  moreover have "\<exists>f l. fl_open io_ok fmt None (d_log d g) = (f, Inr l)"
    using assms(2,3)
    by (auto simp: fl_open_def fresh_log_def io_ok_def write_all_def Let_def split: option.splits)
  ultimately show ?thesis
    by (auto simp: publish_def sl_io_ok_def atomic_write_def aw_ok_def fsync_parent_dir_def write_current_def Let_def)
qed

lemma reopened_holds:
  assumes "sn_ok sn S" "format_ok fmt" "dir_holds h sn fmt d g s" "s \<in> S" "unat g + 1 < 2 ^ 64"
  shows "reopened h sn fmt thr d = Inr s"
proof -
  have "unat (g + 1) = unat g + 1" using assms(5) by (simp add: unat_word_ariths)
  then have "fresh_log fmt (d_log d (g + 1))" using assms(3) by (simp add: dir_holds_def)
  from publish_succeeds [OF assms(1,2) this assms(4)] obtain d' l where "publish sn sl_io_ok fmt (g + 1) s d = (d', Inr l)" by blast
  then show ?thesis
    using assms(3)
    by (simp add: reopened_def sl_open_def dir_holds_def read_current_to_dec sl_io_ok_def remove_stale_generations_def Let_def)
qed

section \<open>Operations on a live log\<close>

lemma fl_append_any:
  assumes hold: "fl_holds h sd fmt es l" and e: "rec_ok sd e" and a: "fl_append h sd io e l = (l', r)"
  shows "recover_from_reader h sd fmt (fl_file l') = Inr es \<or> recover_from_reader h sd fmt (fl_file l') = Inr (es @ [e])"
    "r = Inr u \<Longrightarrow> fl_holds h sd fmt (es @ [e]) l'"
proof -
  obtain p where p: "ser sd e = Some p" "length p \<le> MAX_FRAME_BYTES" using e by (auto simp: rec_ok_def)
  have H: "format_ok fmt" "\<forall>x \<in> set es. rec_ok sd x" using hold by (simp_all add: fl_holds_def)
  have rec: "recover_from_reader h sd fmt (log_bytes h sd fmt es @ rest) = Inr (es @ recover_frames h sd rest)" for rest
    using recover_frames_concat [OF H(2), of h rest] H(1) by (simp add: log_bytes_def recover_from_reader_header)
  have "(recover_from_reader h sd fmt (fl_file l') = Inr es \<or> recover_from_reader h sd fmt (fl_file l') = Inr (es @ [e]))
    \<and> (r = Inr u \<longrightarrow> fl_holds h sd fmt (es @ [e]) l')"
  proof (cases "wr io")
    case (Some n)
    have r: "r = Inl Io" "fl_file l' = log_bytes h sd fmt es @ take n (frame_bytes h p)"
      using fl_append_torn [OF hold p(1) Some] a by simp_all
    show ?thesis
    proof (cases "n < length (frame_bytes h p)")
      case True
      then show ?thesis using r rec recover_frames_torn [OF True p(2), of sd] by simp
    next
      case False
      then have "take n (frame_bytes h p) = frame_of h sd e" using p(1) by (simp add: frame_of_def)
      then show ?thesis using r rec recover_frames_ok [OF e, of h "[]"] by (simp add: recover_frames_short)
    qed
  next
    case None
    have f: "fl_file l' = log_bytes h sd fmt (es @ [e])" and "fl_holds h sd fmt (es @ [e]) l'"
      using a None hold e p
      by (auto simp: fl_append_def write_all_def fl_sync_def fl_holds_def log_bytes_def frame_of_def Let_def split: if_splits)
    then show ?thesis using fl_holds_recover by blast
  qed
  then show "recover_from_reader h sd fmt (fl_file l') = Inr es \<or> recover_from_reader h sd fmt (fl_file l') = Inr (es @ [e])"
    "r = Inr u \<Longrightarrow> fl_holds h sd fmt (es @ [e]) l'" by blast+
qed

lemma unat_Suc_u64: "unat (g :: u64) + 1 < 2 ^ 64 \<Longrightarrow> unat (g + 1) = unat g + 1"
  by (simp add: unat_word_ariths)

lemma sl_compact_cases:
  assumes sn: "sn_ok sn S" and fmt: "format_ok fmt" and inv: "sl_inv h sn S fmt (Suc n) (d, sl)"
    and c: "sl_compact sn io (d, sl) = ((d', sl'), r)"
  shows "\<exists>g. dir_holds h sn fmt d' g (sl_state sl) \<and> unat g + Suc n < 2 ^ 64"
    "r = Inr u \<Longrightarrow> sl_inv h sn S fmt n (d', sl') \<and> sl_state sl' = sl_state sl"
proof -
  let ?g = "sl_generation sl"
  have I: "dir_holds h sn fmt d ?g (sl_state sl)" "sl_format sl = fmt" "sl_state sl \<in> S" "unat ?g + Suc (Suc n) < 2 ^ 64"
    using inv by (auto simp: sl_inv_def Let_def)
  have g: "unat (?g + 1) = unat ?g + 1" using I(4) by (intro unat_Suc_u64) simp
  obtain d1 r1 where p: "publish sn io fmt (?g + 1) (sl_state sl) d = (d1, r1)" by force
  have lt: "unat ?g < unat (?g + 1)" using g by simp
  note P = publish_cases [OF sn fmt I(1,3) lt p]
  have "(\<exists>g. dir_holds h sn fmt d' g (sl_state sl) \<and> unat g + Suc n < 2 ^ 64)
    \<and> (r = Inr u \<longrightarrow> sl_inv h sn S fmt n (d', sl') \<and> sl_state sl' = sl_state sl)"
  proof (cases r1)
    case (Inl e)
    then have "d' = d1" "r = Inl e" using c p I(2) by (auto simp: sl_compact_def Let_def)
    moreover have "unat ?g + Suc n < 2 ^ 64" "unat (?g + 1) + Suc n < 2 ^ 64" using I(4) g by simp_all
    ultimately show ?thesis using P(1) by auto
  next
    case (Inr l)
    have ne: "?g \<noteq> ?g + 1" using lt by auto
    have d': "d' = d1\<lparr>d_snap := (if keep_snap io ?g then d_snap d1 else (d_snap d1)(?g := None)),
        d_log := (if keep_log io ?g then d_log d1 else (d_log d1)(?g := None))\<rparr>"
      "sl' = sl\<lparr>sl_generation := ?g + 1, sl_log := l\<rparr>" using c p I(2) Inr by (auto simp: sl_compact_def Let_def)
    have L: "dir_holds h sn fmt d1 (?g + 1) (sl_state sl)" "fl_holds h (sn_batch sn) fmt [] l" "d_log d1 (?g + 1) = Some (fl_file l)"
      using P(2) [OF Inr] by auto
    have same: "d_snap d' (?g + 1) = d_snap d1 (?g + 1)" "d_log d' (?g + 1) = d_log d1 (?g + 1)" "d_current d' = d_current d1"
      using d'(1) ne by auto
    have fr: "fresh_log fmt (d_log d' g')" if "unat (?g + 1) < unat g'" for g'
      using that L(1) d'(1) by (auto simp: dir_holds_def fresh_log_def)
    have "dir_holds h sn fmt d' (?g + 1) (sl_state sl)"
      using L(1) load_state_cong [OF same(1,2), of h sn True fmt] same(3) fr by (simp add: dir_holds_def)
    then show ?thesis using d'(2) L(2,3) same(2) I g by (auto simp: sl_inv_def Let_def intro!: exI [of _ "?g + 1"])
  qed
  then show "\<exists>g. dir_holds h sn fmt d' g (sl_state sl) \<and> unat g + Suc n < 2 ^ 64"
    "r = Inr u \<Longrightarrow> sl_inv h sn S fmt n (d', sl') \<and> sl_state sl' = sl_state sl" by blast+
qed

lemma sl_inv_mono: "sl_inv h sn S fmt (Suc n) ds \<Longrightarrow> sl_inv h sn S fmt n ds"
  by (auto simp: sl_inv_def Let_def split: prod.splits)

text \<open>The log of the live generation is replaced by one that recovers to \<open>bs'\<close>.\<close>

lemma dir_holds_log:
  assumes "dir_holds h sn fmt d g (foldl (\<lambda>s b. apply_batch sn b s) base bs)" "d_log d g = Some f"
    and "recover_from_reader h (sn_batch sn) fmt f = Inr bs" "recover_from_reader h (sn_batch sn) fmt f' = Inr bs'"
    and "Option.bind (d_snap d g) (de (sn_state sn)) = Some base"
  shows "dir_holds h sn fmt (d\<lparr>d_log := (d_log d)(g \<mapsto> f')\<rparr>) g (foldl (\<lambda>s b. apply_batch sn b s) base bs')"
proof -
  obtain bytes where "d_snap d g = Some bytes" "de (sn_state sn) bytes = Some base"
    using assms(5) by (auto simp: Option.bind_eq_Some_conv)
  then show ?thesis using assms by (auto simp: dir_holds_def load_state_def fl_recover_def)
qed

lemma sl_append_batch_cases:
  assumes sn: "sn_ok sn S" and inv: "sl_inv h sn S fmt (Suc n) (d, sl)" and e: "rec_ok (sn_batch sn) edits"
    and a: "sl_append_batch h sn io edits (d, sl) = ((d', sl'), r)"
  shows "\<exists>g s. dir_holds h sn fmt d' g s \<and> unat g + Suc n < 2 ^ 64 \<and> s \<in> S
      \<and> (s = sl_state sl \<or> s = apply_batch sn edits (sl_state sl))"
    "r = Inr u \<Longrightarrow> sl_inv h sn S fmt n (d', sl') \<and> sl_state sl' = apply_batch sn edits (sl_state sl)"
proof -
  let ?g = "sl_generation sl" and ?s = "sl_state sl" and ?s' = "apply_batch sn edits (sl_state sl)"
  obtain bs where I: "dir_holds h sn fmt d ?g ?s" "sl_format sl = fmt" "?s \<in> S" "d_log d ?g = Some (fl_file (sl_log sl))"
    "fl_holds h (sn_batch sn) fmt bs (sl_log sl)" "unat ?g + Suc (Suc n) < 2 ^ 64"
    using inv by (auto simp: sl_inv_def Let_def)
  have fmt: "format_ok fmt" using I(5) by (simp add: fl_holds_def)
  note R = fl_holds_recover [OF I(5)]
  obtain base where base: "Option.bind (d_snap d ?g) (de (sn_state sn)) = Some base" "?s = foldl (\<lambda>s b. apply_batch sn b s) base bs"
    using I(1,4) R by (auto simp: dir_holds_def load_state_def fl_recover_def rbind_eq_Inr ok_or_eq_Inr)
  obtain l r1 where l: "fl_append h (sn_batch sn) (io_append io) edits (sl_log sl) = (l, r1)" by force
  note A = fl_append_any [OF I(5) e l]
  define d1 where "d1 = d\<lparr>d_log := (d_log d)(?g \<mapsto> fl_file l)\<rparr>"
  have step: "dir_holds h sn fmt d1 ?g (foldl (\<lambda>s b. apply_batch sn b s) base bs')"
    if "recover_from_reader h (sn_batch sn) fmt (fl_file l) = Inr bs'" for bs'
    unfolding d1_def using dir_holds_log [OF _ I(4) R that base(1)] I(1) base(2) by simp
  have D: "dir_holds h sn fmt d1 ?g ?s \<or> dir_holds h sn fmt d1 ?g ?s'"
    using A(1) step [of bs] step [of "bs @ [edits]"] base(2) by auto
  have S': "?s' \<in> S" by (rule apply_batch_in [OF sn I(3)])
  define sl2 where "sl2 = sl\<lparr>sl_state := ?s', sl_log := l\<rparr>"
  have ok: "sl_inv h sn S fmt (Suc n) (d1, sl2)" if "r1 = Inr u" for u
  proof -
    have f: "fl_holds h (sn_batch sn) fmt (bs @ [edits]) l" using A(2) [OF that] .
    have "dir_holds h sn fmt d1 ?g ?s'" using step [OF fl_holds_recover [OF f]] base(2) by simp
    then show ?thesis using f I S' by (auto simp: sl_inv_def Let_def sl2_def d1_def)
  qed
  have "(\<exists>g s. dir_holds h sn fmt d' g s \<and> unat g + Suc n < 2 ^ 64 \<and> s \<in> S \<and> (s = ?s \<or> s = ?s'))
    \<and> (r = Inr u \<longrightarrow> sl_inv h sn S fmt n (d', sl') \<and> sl_state sl' = ?s')"
  proof (cases r1)
    case (Inl e)
    then have "d' = d1" "r = Inl e" using a l by (auto simp: sl_append_batch_def d1_def Let_def)
    moreover have "unat ?g + Suc n < 2 ^ 64" using I(6) by simp
    ultimately show ?thesis using D I(3) S' by blast
  next
    case (Inr v)
    show ?thesis
    proof (cases "sl_threshold sl \<le> size_bytes l")
      case True
      then have c: "sl_compact sn io (d1, sl2) = ((d', sl'), r)"
        using a l Inr by (simp add: sl_append_batch_def d1_def sl2_def Let_def)
      show ?thesis using sl_compact_cases [OF sn fmt ok [OF Inr] c] S' by (auto simp: sl2_def)
    next
      case False
      then have "d' = d1" "sl' = sl2" using a l Inr by (auto simp: sl_append_batch_def d1_def sl2_def Let_def)
      then show ?thesis using ok [OF Inr] sl_inv_mono [OF ok [OF Inr]] S' I(6)
        by (auto simp: sl_inv_def Let_def sl2_def intro!: exI [of _ ?g])
    qed
  qed
  then show "\<exists>g s. dir_holds h sn fmt d' g s \<and> unat g + Suc n < 2 ^ 64 \<and> s \<in> S \<and> (s = ?s \<or> s = ?s')"
    "r = Inr u \<Longrightarrow> sl_inv h sn S fmt n (d', sl') \<and> sl_state sl' = ?s'" by blast+
qed

lemma sl_open_fresh:
  assumes "sn_ok sn S" "format_ok fmt" "d_current d = None" "\<forall>g. fresh_log fmt (d_log d g)"
    and o: "sl_open h sn io fmt thr d = (d', Inr sl)" and n: "n + 1 < 2 ^ 64"
  shows "sl_inv h sn S fmt n (d', sl)" "sl_state sl = sn_default sn"
proof -
  obtain d1 l where p: "publish sn io fmt 0 (sn_default sn) d = (d1, Inr l)" "d' = d1"
    "sl = \<lparr>sl_state = sn_default sn, sl_log = l, sl_generation = 0, sl_format = fmt, sl_threshold = thr\<rparr>"
    using o assms(3) by (auto simp: sl_open_def Let_def split: prod.splits sum.splits)
  show "sl_state sl = sn_default sn" using p(3) by simp
  obtain bytes where b: "ser (sn_state sn) (sn_default sn) = Some bytes" "de (sn_state sn) bytes = Some (sn_default sn)"
    using assms(1) by (auto simp: sn_ok_def)
  obtain f where f: "fl_open (io_log io) fmt None (d_log d 0) = (f, Inr l)" "d_log d1 = (d_log d)(0 \<mapsto> f)"
    "d_snap d1 0 = Some bytes" "d_current d1 = Some (to_dec 0)"
    using p(1) b(1) atomic_write_cases
    by (auto simp: publish_def write_current_def Let_def split: prod.splits sum.splits dest!: atomic_write_cases)
  note O = fl_open_fresh [OF assms(2) assms(4) [rule_format] f(1)]
  have "dir_holds h sn fmt d1 0 (sn_default sn)"
    using f b O(1) fresh_log_recover [OF assms(2) O(1), of h "sn_batch sn"] assms(4) by (auto simp: dir_holds_def load_state_def)
  then show "sl_inv h sn S fmt n (d', sl)"
    using p f(2) O(2) [OF refl, of h "sn_batch sn"] n assms(1) by (auto simp: sl_inv_def Let_def sn_ok_def)
qed

section \<open>The interface of a durable journal\<close>

text \<open>
  What a client of the snapshot log relies on. \<open>inv n\<close> says that at least \<open>n\<close> more commits fit before
  the generation counter would overflow.
\<close>

fun run_commits :: "('f \<Rightarrow> 'e \<Rightarrow> 'j \<Rightarrow> 'j \<times> unit result) \<Rightarrow> ('f \<times> 'e) list \<Rightarrow> 'j \<Rightarrow> 'j \<times> nat" where
  "run_commits commit [] j = (j, 0)"
| "run_commits commit ((f, e) # fes) j =
     (case commit f e j of
        (j', Inl _) \<Rightarrow> (j', 0)
      | (j', Inr _) \<Rightarrow> (let (j'', m) = run_commits commit fes j' in (j'', Suc m)))"

locale journal =
  fixes inv :: "nat \<Rightarrow> 'j \<Rightarrow> bool"
    and view :: "'j \<Rightarrow> 's"
    and commit :: "'f \<Rightarrow> 'e \<Rightarrow> 'j \<Rightarrow> 'j \<times> unit result"
    and restart :: "'j \<Rightarrow> 's result"
    and step :: "'e \<Rightarrow> 's \<Rightarrow> 's"
    and acceptable :: "'e \<Rightarrow> bool"
  assumes commit_ok: "inv (Suc n) j \<Longrightarrow> acceptable e \<Longrightarrow> commit f e j = (j', Inr u) \<Longrightarrow> inv n j' \<and> view j' = step e (view j)"
    and commit_failed: "inv (Suc n) j \<Longrightarrow> acceptable e \<Longrightarrow> commit f e j = (j', Inl x) \<Longrightarrow>
      restart j' = Inr (view j) \<or> restart j' = Inr (step e (view j))"
    and restart_ok: "inv n j \<Longrightarrow> restart j = Inr (view j)"
begin

lemma run_commits_restart:
  assumes "inv (length fes) j" "\<forall>fe \<in> set fes. acceptable (snd fe)" "run_commits commit fes j = (j', m)"
  shows "\<exists>m'. (m' = m \<or> m' = Suc m) \<and> m' \<le> length fes \<and> restart j' = Inr (foldl (\<lambda>s fe. step (snd fe) s) (view j) (take m' fes))"
  using assms
proof (induction fes arbitrary: j m)
  case Nil
  then show ?case by (auto simp: restart_ok)
next
  case (Cons fe fes)
  obtain f e where fe: "fe = (f, e)" by (cases fe)
  obtain j1 r where c: "commit f e j = (j1, r)" by force
  have inv: "inv (Suc (length fes)) j" and acc: "acceptable e" using Cons.prems fe by auto
  show ?case
  proof (cases r)
    case (Inl x)
    then have "j' = j1" "m = 0" using Cons.prems(3) c fe by auto
    with commit_failed [OF inv acc c [unfolded Inl]] show ?thesis
    proof (elim disjE)
      assume "restart j1 = Inr (view j)"
      then show ?thesis using \<open>j' = j1\<close> \<open>m = 0\<close> by (intro exI [of _ 0]) simp
    next
      assume "restart j1 = Inr (step e (view j))"
      then show ?thesis using \<open>j' = j1\<close> \<open>m = 0\<close> fe by (intro exI [of _ "Suc 0"]) simp
    qed
  next
    case (Inr u)
    note ok = commit_ok [OF inv acc c [unfolded Inr]]
    obtain m1 where m1: "run_commits commit fes j1 = (j', m1)" "m = Suc m1"
      using Cons.prems(3) c fe Inr by (auto split: prod.splits)
    from Cons.IH [OF _ _ m1(1)] ok Cons.prems(2)
    obtain m' where "m' = m1 \<or> m' = Suc m1" "m' \<le> length fes"
      "restart j' = Inr (foldl (\<lambda>s fe. step (snd fe) s) (view j1) (take m' fes))" by auto
    then show ?thesis using ok m1(2) fe by (intro exI [of _ "Suc m'"]) auto
  qed
qed

end

definition sl_live :: "(byte list \<Rightarrow> u32) \<Rightarrow> ('s, 'e) snapshotable \<Rightarrow> 's set \<Rightarrow> log_format \<Rightarrow> nat \<Rightarrow> snapshot_dir \<times> 's snapshot_log \<Rightarrow> bool" where
  "sl_live h sn S fmt n ds \<longleftrightarrow> sn_ok sn S \<and> sl_inv h sn S fmt n ds"

interpretation sl: journal "sl_live h sn S fmt" "\<lambda>ds. sl_state (snd ds)" "sl_append_batch h sn"
  "\<lambda>ds. reopened h sn fmt thr (fst ds)" "apply_batch sn" "rec_ok (sn_batch sn)"
  for h :: "byte list \<Rightarrow> u32" and sn :: "('s, 'e) snapshotable" and S :: "'s set" and fmt :: log_format and thr :: nat
proof
  fix n and j j' :: "snapshot_dir \<times> 's snapshot_log" and e f u x
  obtain d sl where j: "j = (d, sl)" by (cases j)
  obtain d' sl' where j': "j' = (d', sl')" by (cases j')
  show "sl_live h sn S fmt n j \<Longrightarrow> reopened h sn fmt thr (fst j) = Inr (sl_state (snd j))"
    using reopened_holds [of sn S fmt h d "sl_generation sl" "sl_state sl" thr]
    by (auto simp: sl_live_def sl_inv_def Let_def j fl_holds_def)
  assume I: "sl_live h sn S fmt (Suc n) j" and A: "rec_ok (sn_batch sn) e"
  then have I': "sn_ok sn S" "sl_inv h sn S fmt (Suc n) (d, sl)" by (simp_all add: sl_live_def j)
  then have fmt: "format_ok fmt" by (auto simp: sl_inv_def Let_def fl_holds_def)
  show "sl_append_batch h sn f e j = (j', Inr u) \<Longrightarrow> sl_live h sn S fmt n j' \<and> sl_state (snd j') = apply_batch sn e (sl_state (snd j))"
    using sl_append_batch_cases(2) [OF I' A] I'(1) by (simp add: j j' sl_live_def)
  show "reopened h sn fmt thr (fst j') = Inr (sl_state (snd j)) \<or> reopened h sn fmt thr (fst j') = Inr (apply_batch sn e (sl_state (snd j)))"
    if c: "sl_append_batch h sn f e j = (j', Inl x)"
  proof -
    obtain g s where gs: "dir_holds h sn fmt d' g s" "unat g + Suc n < 2 ^ 64" "s \<in> S"
      "s = sl_state sl \<or> s = apply_batch sn e (sl_state sl)"
      using sl_append_batch_cases(1) [OF I' A c [unfolded j j']] by blast
    have "reopened h sn fmt thr d' = Inr s" using gs(2) by (intro reopened_holds [OF I'(1) fmt gs(1,3)]) simp
    then show ?thesis using gs(4) by (auto simp: j j')
  qed
qed

section \<open>Properties\<close>

text \<open>A small client for the witnesses: the state is a list of bytes, an edit appends one byte.\<close>

definition demo_sn :: "(byte list, byte) snapshotable" where
  "demo_sn = \<lparr>sn_default = [], sn_apply = (\<lambda>e s. s @ [e]), sn_state = demo_serde, sn_batch = demo_serde\<rparr>"

definition empty_dir :: snapshot_dir where
  "empty_dir = \<lparr>d_current = None, d_snap = Map.empty, d_log = Map.empty\<rparr>"

lemma demo_sn_ok: "sn_ok demo_sn UNIV"
  by (simp add: sn_ok_def demo_sn_def demo_serde_def)

lemma empty_dir_fresh: "d_current empty_dir = None" "\<forall>g. fresh_log fmt (d_log empty_dir g)"
  by (simp_all add: empty_dir_def fresh_log_def)

text \<open>
  C9: Crash safety of the snapshot log. Over a log created in a fresh directory, a sequence of batches is
  recorded, each under arbitrary I/O faults, up to the first one that fails (or where the process dies),
  automatic compactions included. Reopening the directory then gives exactly the state after all
  acknowledged batches, or after those and the one that failed: no acknowledged edit is lost, no batch is
  applied in part, and none is replayed twice.
\<close>

theorem snapshot_log_crash_atomic:
  assumes "sn_ok sn S" "format_ok fmt" "d_current d = None" "\<forall>g. fresh_log fmt (d_log d g)"
    and "sl_open h sn io fmt thr d = (d0, Inr sl)" "length batches + 1 < 2 ^ 64"
    and "\<forall>b \<in> set batches. rec_ok (sn_batch sn) (snd b)"
    and "run_commits (sl_append_batch h sn) batches (d0, sl) = ((d', sl'), acked)"
  shows "\<exists>m. (m = acked \<or> m = Suc acked) \<and> m \<le> length batches
    \<and> reopened h sn fmt thr d' = Inr (foldl (\<lambda>s b. apply_batch sn (snd b) s) (sn_default sn) (take m batches))"
proof -
  note O = sl_open_fresh [OF assms(1-6)]
  have "sl_live h sn S fmt (length batches) (d0, sl)" using O(1) assms(1) by (simp add: sl_live_def)
  from sl.run_commits_restart [OF this assms(7,8), of thr] show ?thesis using O(2) by simp
qed

definition demo_torn_append :: sl_io where
  "demo_torn_append = sl_io_ok\<lparr>io_append := \<lparr>wr = Some 3, sy = True, tr = True\<rparr>\<rparr>"

theorem snapshot_log_crash_atomic_witness:
  "\<exists>d0 sl d' sl'. sl_open demo_hash demo_sn sl_io_ok demo_format 30 empty_dir = (d0, Inr sl)
    \<and> run_commits (sl_append_batch demo_hash demo_sn) [(sl_io_ok, [1, 2]), (sl_io_ok, [3, 4, 5, 6]), (demo_torn_append, [7])] (d0, sl)
        = ((d', sl'), 2)
    \<and> (reopened demo_hash demo_sn demo_format 30 d' = Inr [1, 2, 3, 4, 5, 6]
       \<or> reopened demo_hash demo_sn demo_format 30 d' = Inr [1, 2, 3, 4, 5, 6, 7])"
proof -
  let ?bs = "[(sl_io_ok, [1, 2]), (sl_io_ok, [3, 4, 5, 6]), (demo_torn_append, [7])] :: (sl_io \<times> byte list) list"
  obtain d0 sl where o: "sl_open demo_hash demo_sn sl_io_ok demo_format 30 empty_dir = (d0, Inr sl)"
    "d0 = empty_dir\<lparr>d_current := Some (to_dec 0), d_snap := [0 \<mapsto> []], d_log := [0 \<mapsto> encode_format demo_format]\<rparr>"
    "sl = \<lparr>sl_state = [], sl_log = \<lparr>fl_file = encode_format demo_format, synced = 8, format = demo_format, sync_interval_ms = None,
       size_bytes = 8\<rparr>, sl_generation = 0, sl_format = demo_format, sl_threshold = 30\<rparr>"
    by (simp add: sl_open_def empty_dir_def publish_def demo_sn_def demo_serde_def sl_io_ok_def atomic_write_def aw_ok_def
        fsync_parent_dir_def fl_open_new [unfolded io_ok_def] io_ok_def demo_format_ok write_current_def Let_def HEADER_LEN_def)
  obtain d' sl' where r: "run_commits (sl_append_batch demo_hash demo_sn) ?bs (d0, sl) = ((d', sl'), 2)"
    by (simp add: o(2,3) sl_append_batch_def fl_append_def demo_sn_def demo_serde_def sl_io_ok_def demo_torn_append_def io_ok_def
        write_all_def fl_sync_def syncs_each_append_def sl_compact_def publish_def atomic_write_def aw_ok_def fsync_parent_dir_def
        fl_open_new [unfolded io_ok_def] demo_format_ok write_current_def apply_batch_def empty_dir_def Let_def HEADER_LEN_def)
  have "length ?bs + 1 < 2 ^ 64" "\<forall>b \<in> set ?bs. rec_ok (sn_batch demo_sn) (snd b)"
    by (simp_all add: demo_sn_def demo_rec_ok MAX_FRAME_BYTES_def)
  from snapshot_log_crash_atomic [OF demo_sn_ok demo_format_ok empty_dir_fresh o(1) this r]
  obtain m where "m = 2 \<or> m = 3"
    "reopened demo_hash demo_sn demo_format 30 d' = Inr (foldl (\<lambda>s b. apply_batch demo_sn (snd b) s) [] (take m ?bs))"
    by (auto simp: demo_sn_def)
  then show ?thesis using o(1) r by (auto simp: apply_batch_def demo_sn_def)
qed

text \<open>
  C25: Opening is safe to interrupt and idempotent. On a directory that holds a state, \<open>open\<close> under any
  faults leaves a directory that still holds that state, and a handle it returns has it.
\<close>

theorem snapshot_log_open_idempotent:
  assumes sn: "sn_ok sn S" and fmt: "format_ok fmt" and d: "dir_holds h sn fmt d g s" and s: "s \<in> S" and g: "unat g + 2 < 2 ^ 64"
    and o: "sl_open h sn io fmt thr d = (d', r)"
  shows "reopened h sn fmt thr d' = Inr s \<and> (\<forall>sl. r = Inr sl \<longrightarrow> sl_state sl = s \<and> sl_inv h sn S fmt 0 (d', sl))"
proof -
  have g1: "unat (g + 1) = unat g + 1" using g by (intro unat_Suc_u64) simp
  have rd: "reopened h sn fmt thr e = Inr s" if "dir_holds h sn fmt e g s \<or> dir_holds h sn fmt e (g + 1) s" for e
    using that reopened_holds [OF sn fmt _ s, of h e g thr] reopened_holds [OF sn fmt _ s, of h e "g + 1" thr] g g1 by auto
  show ?thesis
  proof (cases "io_read io")
    case False
    then have "d' = d" "r = Inl Io" using o d by (auto simp: sl_open_def dir_holds_def Let_def)
    then show ?thesis using rd d by auto
  next
    case True
    obtain d1 r1 where p: "publish sn io fmt (g + 1) s d = (d1, r1)" by force
    have lt: "unat g < unat (g + 1)" using g1 by simp
    note P = publish_cases [OF sn fmt d s lt p]
    show ?thesis
    proof (cases r1)
      case (Inl e)
      then have "d' = d1" "r = Inl e"
        using o d True p by (auto simp: sl_open_def dir_holds_def read_current_to_dec Let_def)
      then show ?thesis using rd P(1) by auto
    next
      case (Inr l)
      have L: "dir_holds h sn fmt d1 (g + 1) s" "fl_holds h (sn_batch sn) fmt [] l" "d_log d1 (g + 1) = Some (fl_file l)"
        using P(2) [OF Inr] by auto
      have d': "d' = fst (remove_stale_generations io (g + 1) d1)"
        "\<And>sl. r = Inr sl \<Longrightarrow> sl = \<lparr>sl_state = s, sl_log = l, sl_generation = g + 1, sl_format = fmt, sl_threshold = thr\<rparr>"
        using o d True p Inr
        by (auto simp: sl_open_def dir_holds_def read_current_to_dec remove_stale_generations_def Let_def split: if_splits)
      have same: "d_snap d' (g + 1) = d_snap d1 (g + 1)" "d_log d' (g + 1) = d_log d1 (g + 1)" "d_current d' = d_current d1"
        "\<And>g'. d_log d' g' = d_log d1 g' \<or> d_log d' g' = None"
        by (auto simp: d' remove_stale_generations_def)
      have fr: "fresh_log fmt (d_log d' g')" if "unat (g + 1) < unat g'" for g'
        using that L(1) same(4) [of g'] by (auto simp: dir_holds_def fresh_log_def)
      have "dir_holds h sn fmt d' (g + 1) s"
        using L(1) load_state_cong [OF same(1,2), of h sn True fmt] same(3) fr by (simp add: dir_holds_def)
      then show ?thesis using rd d'(2) L(2,3) same(2) s g g1 by (auto simp: sl_inv_def Let_def)
    qed
  qed
qed

definition demo_dir :: snapshot_dir where
  "demo_dir = \<lparr>d_current = Some (to_dec 4), d_snap = [4 \<mapsto> [1, 2], 3 \<mapsto> [9]],
     d_log = [4 \<mapsto> log_bytes demo_hash demo_serde demo_format [[3], [5, 6]]]\<rparr>"

lemma demo_dir_holds: "dir_holds demo_hash demo_sn demo_format demo_dir 4 [1, 2, 3, 5, 6]"
proof -
  have f: "fl_holds demo_hash demo_serde demo_format [[3], [5, 6]]
      \<lparr>fl_file = log_bytes demo_hash demo_serde demo_format [[3], [5, 6]], synced = 0, format = demo_format, sync_interval_ms = None,
       size_bytes = length (log_bytes demo_hash demo_serde demo_format [[3], [5, 6]])\<rparr>"
    by (simp add: fl_holds_def demo_format_ok demo_rec_ok MAX_FRAME_BYTES_def)
  show ?thesis
    using fl_holds_recover [OF f]
    by (auto simp: dir_holds_def demo_dir_def load_state_def demo_sn_def fl_recover_def apply_batch_def demo_serde_def fresh_log_def)
qed

definition demo_current_lost :: sl_io where
  "demo_current_lost = sl_io_ok\<lparr>io_current := aw_ok\<lparr>aw_dir := Dir_Sync_Failed\<rparr>\<rparr>"

theorem snapshot_log_open_idempotent_witness:
  "reopened demo_hash demo_sn demo_format 30 (fst (sl_open demo_hash demo_sn demo_current_lost demo_format 30 demo_dir))
     = Inr [1, 2, 3, 5, 6]"
  using snapshot_log_open_idempotent [OF demo_sn_ok demo_format_ok demo_dir_holds UNIV_I, of demo_current_lost 30] by (simp add: prod_eq_iff)


definition demo_handle :: "byte list snapshot_log" where
  "demo_handle = \<lparr>sl_state = [1, 2, 3, 5, 6],
     sl_log = \<lparr>fl_file = log_bytes demo_hash demo_serde demo_format [[3], [5, 6]], synced = 0, format = demo_format,
       sync_interval_ms = None, size_bytes = length (log_bytes demo_hash demo_serde demo_format [[3], [5, 6]])\<rparr>,
     sl_generation = 4, sl_format = demo_format, sl_threshold = 100\<rparr>"


end
