(* ===== verification/Schema.thy ===== *)
theory Schema
  imports Rows Snapshot_Log
begin

text \<open>
  \<^verbatim>\<open>dtdb_relational/src/schema.rs\<close>: column and index definitions, table schemas, the splitting of rows over locality
  groups and their merging, reconciliation of rows stored under an older layout, row and key
  validation, primary keys and their scan bounds.

  An index into the values of a row that is out of range panics in the source; the definitions that
  index return \<open>None\<close> there. A \<open>HashMap\<close> is a map. The cache of relative indices is a field of the
  schema, as in the source.
\<close>

section \<open>Types and columns\<close>

datatype data_type =
    TInt
  | TFloat
  | TString
  | TBytes
  | TNull
  | TBool
  | TDate
  | TTime
  | TTimestamp
  | TDecimal

text \<open>The extreme values \<open>chrono\<close> and \<open>rust_decimal\<close> name.\<close>

record 'x extremes =
  date_min :: 'x
  date_max :: 'x
  time_min :: 'x
  time_max :: 'x
  timestamp_min :: 'x
  timestamp_max :: 'x
  decimal_min :: 'x
  decimal_max :: 'x

definition key_bounds :: "'x extremes \<Rightarrow> data_type \<Rightarrow> 'x dbkey \<times> 'x dbkey" where
  "key_bounds ex t =
     (case t of
        TInt \<Rightarrow> (KInt 0x8000000000000000, KInt 0x7FFFFFFFFFFFFFFF)
      | TBool \<Rightarrow> (KBool False, KBool True)
      | TDate \<Rightarrow> (KDate (date_min ex), KDate (date_max ex))
      | TTime \<Rightarrow> (KTime (time_min ex), KTime (time_max ex))
      | TTimestamp \<Rightarrow> (KTimestamp (timestamp_min ex), KTimestamp (timestamp_max ex))
      | TDecimal \<Rightarrow> (KDecimal (decimal_min ex), KDecimal (decimal_max ex))
      | _ \<Rightarrow> (KString [], KString (str [0x10FFFF])))"

record 'x column =
  c_id :: u32
  c_name :: string
  c_type :: data_type
  is_primary_key :: bool
  is_nullable :: bool
  locality_group :: "string option"
  default_value :: "'x dbvalue option"
  is_auto_increment :: bool

text \<open>\<open>locality_group.as_deref().unwrap_or("")\<close>\<close>

definition col_group :: "'x column \<Rightarrow> string" where
  "col_group c = (case locality_group c of None \<Rightarrow> [] | Some g \<Rightarrow> g)"

definition col_default :: "'x column \<Rightarrow> 'x dbvalue" where
  "col_default c = (case default_value c of None \<Rightarrow> VNull | Some v \<Rightarrow> v)"

record locality_group_options =
  lg_compression :: "compression_type option"
  lg_memtable_size_limit :: "nat option"
  lg_block_size_limit :: "nat option"
  lg_wal_size_limit :: "nat option"
  lg_l0_compaction_threshold :: "nat option"
  lg_sstable_target_size :: "nat option"
  lg_base_level_size_limit :: "nat option"
  lg_level_size_multiplier :: "nat option"
  lg_max_level :: "nat option"
  lg_block_cache_capacity :: "nat option"
  lg_wal_sync_interval_ms :: "nat option option"
  lg_l0_slowdown_writes_trigger :: "nat option"
  lg_l0_stop_writes_trigger :: "nat option"
  lg_l0_slowdown_max_sleep_ms :: "nat option"

definition unwrap_or :: "'a option \<Rightarrow> 'a \<Rightarrow> 'a" where
  "unwrap_or o' d = (case o' of None \<Rightarrow> d | Some v \<Rightarrow> v)"

definition apply_to :: "locality_group_options \<Rightarrow> engine_options \<Rightarrow> engine_options" where
  "apply_to lg defaults =
     defaults
       \<lparr>compression := unwrap_or (lg_compression lg) (compression defaults),
        memtable_size_limit := unwrap_or (lg_memtable_size_limit lg) (memtable_size_limit defaults),
        block_size_limit := unwrap_or (lg_block_size_limit lg) (block_size_limit defaults),
        wal_size_limit := unwrap_or (lg_wal_size_limit lg) (wal_size_limit defaults),
        l0_compaction_threshold := unwrap_or (lg_l0_compaction_threshold lg) (l0_compaction_threshold defaults),
        sstable_target_size := unwrap_or (lg_sstable_target_size lg) (sstable_target_size defaults),
        base_level_size_limit := unwrap_or (lg_base_level_size_limit lg) (base_level_size_limit defaults),
        level_size_multiplier := unwrap_or (lg_level_size_multiplier lg) (level_size_multiplier defaults),
        max_level := unwrap_or (lg_max_level lg) (max_level defaults),
        block_cache_capacity := unwrap_or (lg_block_cache_capacity lg) (block_cache_capacity defaults),
        wal_sync_interval_ms := unwrap_or (lg_wal_sync_interval_ms lg) (wal_sync_interval_ms defaults),
        l0_slowdown_writes_trigger := unwrap_or (lg_l0_slowdown_writes_trigger lg) (l0_slowdown_writes_trigger defaults),
        l0_stop_writes_trigger := unwrap_or (lg_l0_stop_writes_trigger lg) (l0_stop_writes_trigger defaults),
        l0_slowdown_max_sleep_ms := unwrap_or (lg_l0_slowdown_max_sleep_ms lg) (l0_slowdown_max_sleep_ms defaults)\<rparr>"

datatype index_type = BTree | FullText

record index_definition =
  ix_name :: string
  ix_columns :: "string list"
  ix_type :: index_type
  ix_tokenizer :: "string option"

section \<open>Column names\<close>

definition ends_with_dot_suffix :: "string \<Rightarrow> string \<Rightarrow> bool" where
  "ends_with_dot_suffix full suf \<longleftrightarrow>
     length full > length suf
   \<and> drop (length full - length suf) full = suf
   \<and> full ! (length full - length suf - 1) = CHR ''.''"

definition column_names_match :: "string \<Rightarrow> string \<Rightarrow> bool" where
  "column_names_match a b \<longleftrightarrow> a = b \<or> ends_with_dot_suffix a b \<or> ends_with_dot_suffix b a"

definition matches_name :: "'x column \<Rightarrow> string \<Rightarrow> bool" where
  "matches_name c query_name = column_names_match (c_name c) query_name"

section \<open>Schemas\<close>

record 'x schema =
  columns :: "'x column list"
  next_column_id :: u32
  lg_options :: "string \<rightharpoonup> locality_group_options"
  indexes :: "index_definition list"
  relative_indices :: "(string \<times> nat) list option"

definition matches_column :: "'x schema \<Rightarrow> string \<Rightarrow> bool" where
  "matches_column s query_name = list_ex (\<lambda>c. matches_name c query_name) (columns s)"

definition schema_new_with_options :: "'x column list \<Rightarrow> (string \<rightharpoonup> locality_group_options) \<Rightarrow> 'x schema" where
  "schema_new_with_options cols opts =
     \<lparr>columns = map (\<lambda>(idx, c). c\<lparr>c_id := of_nat idx\<rparr>) (enumerate 0 cols),
      next_column_id = of_nat (length cols),
      lg_options = opts,
      indexes = [],
      relative_indices = None\<rparr>"

definition schema_new :: "'x column list \<Rightarrow> 'x schema" where
  "schema_new cols = schema_new_with_options cols Map.empty"

definition column_index :: "'x schema \<Rightarrow> string \<Rightarrow> nat option" where
  "column_index s name = position (\<lambda>c. c_name c = name) (columns s)"

definition get_by_name :: "'x row \<Rightarrow> 'x schema \<Rightarrow> string \<Rightarrow> 'x dbvalue option" where
  "get_by_name r s name = (case column_index s name of None \<Rightarrow> None | Some idx \<Rightarrow> get_by_index r idx)"

section \<open>Stored layouts\<close>

record 'x stored_column =
  sc_id :: u32
  sc_default :: "'x dbvalue option"

type_synonym 'x stored_layout = "'x stored_column list"

definition stored_column_of :: "'x column \<Rightarrow> 'x stored_column" where
  "stored_column_of c = \<lparr>sc_id = c_id c, sc_default = default_value c\<rparr>"

definition current_layout :: "'x schema \<Rightarrow> 'x stored_layout" where
  "current_layout s = map stored_column_of (columns s)"

definition default_row_values :: "'x schema \<Rightarrow> 'x dbvalue list" where
  "default_row_values s = map col_default (columns s)"

fun reconcile_loop :: "'x schema \<Rightarrow> 'x dbvalue list \<Rightarrow> nat \<Rightarrow> 'x stored_layout \<Rightarrow> 'x dbvalue list \<Rightarrow> 'x dbvalue list" where
  "reconcile_loop s vals src_pos [] new_values = new_values"
| "reconcile_loop s vals src_pos (src_col # rest) new_values =
     reconcile_loop s vals (src_pos + 1) rest
       (if src_pos < length vals
        then case position (\<lambda>c. c_id c = sc_id src_col) (columns s) of
               Some dst_pos \<Rightarrow> new_values[dst_pos := vals ! src_pos]
             | None \<Rightarrow> new_values
        else new_values)"

definition reconcile_row_with_layout :: "'x schema \<Rightarrow> 'x row \<Rightarrow> 'x stored_layout \<Rightarrow> 'x row" where
  "reconcile_row_with_layout s r layout = row_new (reconcile_loop s (row_values r) 0 layout (default_row_values s))"

definition reconcile_row :: "'x schema \<Rightarrow> 'x row \<Rightarrow> 'x row" where
  "reconcile_row s r =
     (if length (row_values r) = length (columns s) then r
      else reconcile_row_with_layout s r (map stored_column_of (take (length (row_values r)) (columns s))))"

section \<open>Locality groups\<close>

definition locality_groups :: "'x schema \<Rightarrow> string set" where
  "locality_groups s = (let groups = set (map col_group (columns s)) in if groups = {} then {[]} else groups)"

definition split_row :: "'x schema \<Rightarrow> 'x row \<Rightarrow> string \<Rightarrow> 'x row option" where
  "split_row s r grp =
     map_option row_new (all_some
       (map (\<lambda>c. case column_index s (c_name c) of Some idx \<Rightarrow> get_by_index r idx | None \<Rightarrow> None)
         (filter (\<lambda>c. col_group c = grp \<and> column_index s (c_name c) \<noteq> None) (columns s))))"

definition relative_index :: "'x schema \<Rightarrow> 'x column \<Rightarrow> string \<times> nat" where
  "relative_index s col =
     (col_group col,
      unwrap_or (position (\<lambda>c. c_name c = c_name col) (filter (\<lambda>c. col_group c = col_group col) (columns s))) 0)"

definition get_relative_indices :: "'x schema \<Rightarrow> (string \<times> nat) list" where
  "get_relative_indices s = unwrap_or (relative_indices s) (map (relative_index s) (columns s))"

fun merge_loop :: "(string \<rightharpoonup> 'x row option) \<Rightarrow> nat \<Rightarrow> (string \<times> nat) list \<Rightarrow> 'x dbvalue list \<Rightarrow> 'x dbvalue list option" where
  "merge_loop group_rows col_idx [] full_values = Some full_values"
| "merge_loop group_rows col_idx ((grp, r_idx) # rest) full_values =
     (case group_rows grp of
        Some (Some sub_row) \<Rightarrow>
          (case get_by_index sub_row r_idx of
             Some val \<Rightarrow>
               if col_idx < length full_values then merge_loop group_rows (col_idx + 1) rest (full_values[col_idx := val]) else None
           | None \<Rightarrow> merge_loop group_rows (col_idx + 1) rest full_values)
      | _ \<Rightarrow> merge_loop group_rows (col_idx + 1) rest full_values)"

definition merge_rows :: "'x schema \<Rightarrow> (string \<rightharpoonup> 'x row option) \<Rightarrow> 'x row option" where
  "merge_rows s group_rows = map_option row_new (merge_loop group_rows 0 (get_relative_indices s) (default_row_values s))"

section \<open>Validation\<close>

definition type_accepts :: "data_type \<Rightarrow> 'x dbvalue \<Rightarrow> bool" where
  "type_accepts t v =
     (case (t, v) of
        (TInt, VInt _) \<Rightarrow> True
      | (TFloat, VFloat _) \<Rightarrow> True
      | (TString, VString _) \<Rightarrow> True
      | (TBytes, VBytes _) \<Rightarrow> True
      | (TBool, VBool _) \<Rightarrow> True
      | (TDate, VDate _) \<Rightarrow> True
      | (TTime, VTime _) \<Rightarrow> True
      | (TTimestamp, VTimestamp _) \<Rightarrow> True
      | (TDecimal, VDecimal _) \<Rightarrow> True
      | _ \<Rightarrow> False)"

definition validate_value :: "'x column \<Rightarrow> 'x dbvalue \<Rightarrow> unit rresult" where
  "validate_value col val =
     (case val of
        VNull \<Rightarrow> if is_nullable col then Inr () else Inl (SchemaMismatch ''Column is not nullable, but got NULL'')
      | _ \<Rightarrow> if type_accepts (c_type col) val then Inr () else Inl (SchemaMismatch ''Column expects another type''))"

fun each_ok :: "('a \<Rightarrow> 'e + unit) \<Rightarrow> 'a list \<Rightarrow> 'e + unit" where
  "each_ok f [] = Inr ()"
| "each_ok f (x # xs) = rbind (f x) (\<lambda>_. each_ok f xs)"

definition validate_row :: "'x schema \<Rightarrow> 'x row \<Rightarrow> unit rresult" where
  "validate_row s r =
     (if length (row_values r) \<noteq> length (columns s) then Inl (SchemaMismatch ''Row and schema differ in their number of columns'')
      else each_ok (\<lambda>(col, val). validate_value col val) (zip (columns s) (row_values r)))"

definition primary_key_indices :: "'x schema \<Rightarrow> nat list" where
  "primary_key_indices s = map fst (filter (\<lambda>(idx, col). is_primary_key col) (enumerate 0 (columns s)))"

definition key_type_accepts :: "data_type \<Rightarrow> 'x dbkey \<Rightarrow> bool" where
  "key_type_accepts t k =
     (case (t, k) of
        (TInt, KInt _) \<Rightarrow> True
      | (TString, KString _) \<Rightarrow> True
      | (TBool, KBool _) \<Rightarrow> True
      | (TDate, KDate _) \<Rightarrow> True
      | (TTime, KTime _) \<Rightarrow> True
      | (TTimestamp, KTimestamp _) \<Rightarrow> True
      | (TDecimal, KDecimal _) \<Rightarrow> True
      | _ \<Rightarrow> False)"

definition key_matches_value :: "'x dbkey \<Rightarrow> 'x dbvalue \<Rightarrow> bool" where
  "key_matches_value key v =
     (case (key, v) of
        (KInt k, VInt w) \<Rightarrow> k = w
      | (KString k, VString w) \<Rightarrow> k = w
      | (KBool k, VBool w) \<Rightarrow> k = w
      | (KDate k, VDate w) \<Rightarrow> k = w
      | (KTime k, VTime w) \<Rightarrow> k = w
      | (KTimestamp k, VTimestamp w) \<Rightarrow> k = w
      | (KDecimal k, VDecimal w) \<Rightarrow> k = w
      | _ \<Rightarrow> False)"

definition no_primary_key :: relational_error where
  "no_primary_key = SchemaMismatch ''Schema does not define a primary key''"

definition validate_key_part :: "'x column \<Rightarrow> 'x dbkey \<Rightarrow> unit rresult" where
  "validate_key_part col k =
     (if key_type_accepts (c_type col) k then Inr () else Inl (SchemaMismatch ''Primary key column expects another type''))"

definition validate_single :: "'x column \<Rightarrow> 'x dbkey \<Rightarrow> 'x dbvalue \<Rightarrow> unit rresult" where
  "validate_single col k val =
     rbind (validate_key_part col k) (\<lambda>_.
       if key_matches_value k val then Inr () else Inl (SchemaMismatch ''Key mismatch''))"

text \<open>The parts of a composite key in order; \<open>None\<close> is the panic of an index past the row.\<close>

fun validate_parts :: "'x schema \<Rightarrow> 'x row \<Rightarrow> (nat \<times> 'x dbkey) list \<Rightarrow> unit rresult option" where
  "validate_parts s r [] = Some (Inr ())"
| "validate_parts s r ((idx, k) # rest) =
     (case get_by_index r idx of
        None \<Rightarrow> None
      | Some val \<Rightarrow>
          (case validate_single (columns s ! idx) k val of
             Inl e \<Rightarrow> Some (Inl e)
           | Inr _ \<Rightarrow> validate_parts s r rest))"

definition validate_key :: "'x schema \<Rightarrow> 'x dbkey \<Rightarrow> 'x row \<Rightarrow> unit rresult option" where
  "validate_key s key r =
     (case primary_key_indices s of
        [] \<Rightarrow> Some (Inl no_primary_key)
      | [idx] \<Rightarrow> validate_parts s r [(idx, key)]
      | indices \<Rightarrow>
          (case key of
             KComposite parts \<Rightarrow>
               if length parts \<noteq> length indices then Some (Inl (SchemaMismatch ''Composite key has the wrong number of parts''))
               else validate_parts s r (zip indices parts)
           | _ \<Rightarrow> Some (Inl (SchemaMismatch ''Expected Composite key for multi-column primary key''))))"

definition validate_key_only :: "'x schema \<Rightarrow> 'x dbkey \<Rightarrow> unit rresult" where
  "validate_key_only s key =
     (case primary_key_indices s of
        [] \<Rightarrow> Inl no_primary_key
      | [idx] \<Rightarrow> validate_key_part (columns s ! idx) key
      | indices \<Rightarrow>
          (case key of
             KComposite parts \<Rightarrow>
               if length parts \<noteq> length indices then Inl (SchemaMismatch ''Composite key has the wrong number of parts'')
               else each_ok (\<lambda>(idx, part). validate_key_part (columns s ! idx) part) (zip indices parts)
           | _ \<Rightarrow> Inl (SchemaMismatch ''Expected Composite key for multi-column primary key'')))"

section \<open>Primary keys\<close>

fun extract_parts :: "'x row \<Rightarrow> nat list \<Rightarrow> 'x dbkey list rresult option" where
  "extract_parts r [] = Some (Inr [])"
| "extract_parts r (idx # rest) =
     (case get_by_index r idx of
        None \<Rightarrow> None
      | Some val \<Rightarrow>
          if val = VNull then Some (Inl (SchemaMismatch ''Primary key cannot be NULL''))
          else case db_value_to_key val of
                 None \<Rightarrow> Some (Inl (SchemaMismatch ''Unsupported primary key type''))
               | Some k \<Rightarrow> map_option (\<lambda>res. rbind res (\<lambda>ks. Inr (k # ks))) (extract_parts r rest))"

definition extract_primary_key :: "'x schema \<Rightarrow> 'x row \<Rightarrow> 'x dbkey rresult option" where
  "extract_primary_key s r =
     (case primary_key_indices s of
        [] \<Rightarrow> Some (Inl no_primary_key)
      | [idx] \<Rightarrow> map_option (\<lambda>res. rbind res (\<lambda>ks. Inr (hd ks))) (extract_parts r [idx])
      | indices \<Rightarrow> map_option (\<lambda>res. rbind res (\<lambda>ks. Inr (KComposite ks))) (extract_parts r indices))"

definition primary_key_bounds :: "'x extremes \<Rightarrow> 'x schema \<Rightarrow> ('x dbkey \<times> 'x dbkey) rresult" where
  "primary_key_bounds ex s =
     (case primary_key_indices s of
        [] \<Rightarrow> Inl no_primary_key
      | [idx] \<Rightarrow> Inr (key_bounds ex (c_type (columns s ! idx)))
      | indices \<Rightarrow>
          (let bs = map (\<lambda>idx. key_bounds ex (c_type (columns s ! idx))) indices
           in Inr (KComposite (map fst bs), KComposite (map snd bs))))"

definition primary_key_index :: "'x schema \<Rightarrow> nat option" where
  "primary_key_index s = (case primary_key_indices s of [idx] \<Rightarrow> Some idx | _ \<Rightarrow> None)"

section \<open>The schema file\<close>

definition save_to_file :: "'x schema serde \<Rightarrow> aw_io \<Rightarrow> 'x schema \<Rightarrow> byte list option \<Rightarrow> byte list option \<times> unit rresult" where
  "save_to_file sd io s file =
     (case ser sd s of
        None \<Rightarrow> (file, Inl RSerialization)
      | Some bytes \<Rightarrow>
          (case atomic_write io bytes file of
             (file1, Inl e) \<Rightarrow> (file1, Inl (RStorage e))
           | (file1, Inr _) \<Rightarrow> (file1, Inr ())))"

definition load_from_file :: "'x schema serde \<Rightarrow> byte list option \<Rightarrow> 'x schema rresult" where
  "load_from_file sd file = rbind (ok_or RIo file) (\<lambda>bytes. ok_or RSerialization (de sd bytes))"

section \<open>Splitting and merging\<close>

lemma unwrap_or_simps [simp]: "unwrap_or None d = d" "unwrap_or (Some v) d = v"
  by (simp_all add: unwrap_or_def)

lemma row_values_new [simp]: "row_values (row_new vs) = vs"
  by (simp add: row_new_def)

lemma row_new_values [simp]: "row_new (row_values r) = r"
  by (simp add: row_new_def)

lemma column_index_nth:
  "distinct (map c_name (columns s)) \<Longrightarrow> i < length (columns s) \<Longrightarrow> column_index s (c_name (columns s ! i)) = Some i"
  unfolding column_index_def by (rule position_distinct)

text \<open>The sub-row of a group has the values of its columns in schema order.\<close>

lemma split_row_filter:
  assumes "distinct (map c_name (columns s))" "length (row_values r) = length (columns s)"
  shows "split_row s r g = Some (row_new (map snd (filter (\<lambda>cv. col_group (fst cv) = g) (zip (columns s) (row_values r)))))"
proof -
  let ?f = "\<lambda>c. case column_index s (c_name c) of Some idx \<Rightarrow> get_by_index r idx | None \<Rightarrow> None"
  have z: "?f c = Some v" if "(c, v) \<in> set (zip (columns s) (row_values r))" for c v
    using that assms column_index_nth [OF assms(1)] by (auto simp: in_set_zip get_by_index_def)
  have n: "column_index s (c_name c) \<noteq> None" if "c \<in> set (columns s)" for c
    using that column_index_nth [OF assms(1)] by (metis in_set_conv_nth option.distinct(1))
  have "filter (\<lambda>c. col_group c = g \<and> column_index s (c_name c) \<noteq> None) (columns s)
      = filter (\<lambda>c. col_group c = g) (map fst (zip (columns s) (row_values r)))"
    using assms(2) n by (auto intro: filter_cong)
  also have "\<dots> = map fst (filter (\<lambda>cv. col_group (fst cv) = g) (zip (columns s) (row_values r)))"
    by (simp add: filter_map comp_def)
  finally have "map ?f (filter (\<lambda>c. col_group c = g \<and> column_index s (c_name c) \<noteq> None) (columns s))
      = map (\<lambda>cv. ?f (fst cv)) (filter (\<lambda>cv. col_group (fst cv) = g) (zip (columns s) (row_values r)))" by simp
  moreover have "all_some (map (\<lambda>cv. ?f (fst cv)) (filter (\<lambda>cv. col_group (fst cv) = g) (zip (columns s) (row_values r))))
      = Some (map snd (filter (\<lambda>cv. col_group (fst cv) = g) (zip (columns s) (row_values r))))"
    using z by (intro all_some_map) auto
  ultimately show ?thesis by (simp add: split_row_def)
qed

lemma filter_nth_take:
  assumes "i < length xs" "P (xs ! i)"
  shows "filter P xs ! length (filter P (take i xs)) = xs ! i" "length (filter P (take i xs)) < length (filter P xs)"
proof -
  have "filter P xs = filter P (take i xs @ xs ! i # drop (Suc i) xs)" using assms(1) by (simp add: id_take_nth_drop [symmetric])
  then have e: "filter P xs = filter P (take i xs) @ xs ! i # filter P (drop (Suc i) xs)" using assms(2) by simp
  show "filter P xs ! length (filter P (take i xs)) = xs ! i" "length (filter P (take i xs)) < length (filter P xs)"
    unfolding e by simp_all
qed

lemma relative_index_nth:
  assumes "distinct (map c_name (columns s))" "i < length (columns s)"
  shows "relative_index s (columns s ! i)
    = (col_group (columns s ! i), length (filter (\<lambda>c. col_group c = col_group (columns s ! i)) (take i (columns s))))"
proof -
  let ?F = "filter (\<lambda>c. col_group c = col_group (columns s ! i)) (columns s)"
    and ?k = "length (filter (\<lambda>c. col_group c = col_group (columns s ! i)) (take i (columns s)))"
  note F = filter_nth_take [of i "columns s" "\<lambda>c. col_group c = col_group (columns s ! i)", OF assms(2) refl]
  have "distinct (map c_name ?F)" using assms(1) by (rule distinct_map_filter)
  from position_distinct [OF this F(2)] show ?thesis by (simp add: relative_index_def F(1))
qed

definition merged_value :: "(string \<rightharpoonup> 'x row option) \<Rightarrow> string \<times> nat \<Rightarrow> 'x dbvalue \<Rightarrow> 'x dbvalue" where
  "merged_value gr gk d =
     (case gr (fst gk) of
        Some (Some sub) \<Rightarrow> (case get_by_index sub (snd gk) of Some v \<Rightarrow> v | None \<Rightarrow> d)
      | _ \<Rightarrow> d)"

lemma merge_loop_map2:
  "length full = length rest \<Longrightarrow> merge_loop gr (length pre) rest (pre @ full) = Some (pre @ map2 (merged_value gr) rest full)"
proof (induction rest arbitrary: pre full)
  case (Cons gk rest)
  obtain g k where gk: "gk = (g, k)" by force
  obtain d full' where full: "full = d # full'" "length full' = length rest" using Cons.prems by (cases full) auto
  have IH: "merge_loop gr (length (pre @ [x])) rest ((pre @ [x]) @ full') = Some ((pre @ [x]) @ map2 (merged_value gr) rest full')" for x
    by (rule Cons.IH [OF full(2)])
  show ?case
    using IH by (auto simp: gk full merged_value_def split: option.split)
qed simp

lemma merge_rows_map2:
  assumes "length (get_relative_indices s) = length (columns s)"
  shows "merge_rows s gr = Some (row_new (map2 (merged_value gr) (get_relative_indices s) (default_row_values s)))"
  using merge_loop_map2 [of "default_row_values s" "get_relative_indices s" gr "[]"] assms
  by (simp add: merge_rows_def default_row_values_def)

definition cache_ok :: "'x schema \<Rightarrow> bool" where
  "cache_ok s \<longleftrightarrow> relative_indices s = None \<or> relative_indices s = Some (map (relative_index s) (columns s))"


definition demo_column :: "string \<Rightarrow> data_type \<Rightarrow> bool \<Rightarrow> string option \<Rightarrow> 'x dbvalue option \<Rightarrow> 'x column" where
  "demo_column name t pk g d =
     \<lparr>c_id = 0, c_name = name, c_type = t, is_primary_key = pk, is_nullable = \<not> pk, locality_group = g, default_value = d, is_auto_increment = False\<rparr>"

definition demo_schema :: "'x schema" where
  "demo_schema = schema_new
     [demo_column ''id'' TInt True None None, demo_column ''name'' TString False (Some ''g'') None,
      demo_column ''score'' TInt False None (Some (VInt 0))]"

definition demo_row :: "'x row" where
  "demo_row = row_new [VInt 7, VString ''x'', VInt 9]"

lemmas demo_schema_simps =
  demo_schema_def schema_new_def schema_new_with_options_def demo_column_def demo_row_def row_new_def


section \<open>Reconciliation\<close>

lemma length_reconcile_loop [simp]: "length (reconcile_loop s vals p layout nv) = length nv"
  by (induction layout arbitrary: p nv) (auto split: option.split)

text \<open>What a column reads: the stored value of its id if the layout has it and the row is long enough.\<close>

definition stored_value :: "'x stored_layout \<Rightarrow> 'x dbvalue list \<Rightarrow> u32 \<Rightarrow> 'x dbvalue \<Rightarrow> 'x dbvalue" where
  "stored_value layout vals cid d =
     (case position (\<lambda>sc. sc_id sc = cid) layout of
        Some q \<Rightarrow> if q < length vals then vals ! q else d
      | None \<Rightarrow> d)"

lemma reconcile_loop_nth:
  assumes "distinct (map c_id (columns s))" "distinct (map sc_id layout)" "length nv = length (columns s)" "j < length (columns s)"
  shows "reconcile_loop s vals p layout nv ! j = stored_value layout (drop p vals) (c_id (columns s ! j)) (nv ! j)"
  using assms(2,3)
proof (induction layout arbitrary: p nv)
  case Nil
  then show ?case by (simp add: stored_value_def)
next
  case (Cons sc layout)
  let ?id = "c_id (columns s ! j)"
  define nv' where "nv' = (if p < length vals
        then case position (\<lambda>c. c_id c = sc_id sc) (columns s) of
               Some dst_pos \<Rightarrow> nv[dst_pos := vals ! p]
             | None \<Rightarrow> nv
        else nv)"
  have IH: "reconcile_loop s vals (p + 1) layout nv' ! j = stored_value layout (drop (p + 1) vals) ?id (nv' ! j)"
    using Cons by (intro Cons.IH) (auto simp: nv'_def split: option.split)
  have d: "Suc q < length (drop p vals) \<Longrightarrow> drop p vals ! Suc q = drop (p + 1) vals ! q"
    "Suc q < length (drop p vals) \<longleftrightarrow> q < length (drop (p + 1) vals)" for q
    by auto
  show ?case
  proof (cases "sc_id sc = ?id")
    case True
    then have "position (\<lambda>c. c_id c = sc_id sc) (columns s) = Some j" using position_distinct [OF assms(1,4)] by simp
    moreover have "\<forall>x \<in> set layout. sc_id x \<noteq> sc_id sc" using Cons.prems(1) by (auto simp: image_iff)
    then have "position (\<lambda>sc. sc_id sc = ?id) layout = None" using True by (simp add: position_None)
    ultimately show ?thesis using IH True assms(4) Cons.prems(2) by (auto simp: nv'_def stored_value_def)
  next
    case False
    have "nv' ! j = nv ! j"
    proof (cases "position (\<lambda>c. c_id c = sc_id sc) (columns s)")
      case (Some q)
      then have "q \<noteq> j" using False by (auto simp: position_Some)
      then show ?thesis using Some by (simp add: nv'_def)
    qed (simp add: nv'_def)
    then show ?thesis using IH False d by (auto simp: nv'_def [symmetric] stored_value_def split: option.split)
  qed
qed

lemma reconcile_row_with_layout_eq:
  assumes "distinct (map c_id (columns s))" "distinct (map sc_id layout)"
  shows "reconcile_row_with_layout s r layout = row_new (map (\<lambda>c. stored_value layout (row_values r) (c_id c) (col_default c)) (columns s))"
  unfolding reconcile_row_with_layout_def
  by (intro arg_cong [where f = row_new] nth_equalityI)
    (simp_all add: default_row_values_def reconcile_loop_nth [OF assms])

lemma position_map: "position p (map f xs) = position (\<lambda>x. p (f x)) xs"
  by (induction xs) auto

lemma sc_ids_current [simp]: "map sc_id (current_layout s) = map c_id (columns s)" "sc_id (stored_column_of c) = c_id c"
  by (simp_all add: current_layout_def stored_column_of_def comp_def)

lemma stored_value_nth:
  assumes "distinct (map sc_id layout)" "q < length layout"
  shows "stored_value layout vals (sc_id (layout ! q)) d = (if q < length vals then vals ! q else d)"
  using position_distinct [OF assms] by (simp add: stored_value_def)

section \<open>Keys\<close>

lemma each_ok_Inr: "each_ok f xs = Inr () \<longleftrightarrow> (\<forall>x \<in> set xs. f x = Inr ())"
  by (induction xs) (auto simp: rbind_eq_Inr)

lemma validate_row_typed:
  assumes "validate_row s r = Inr ()" "i < length (columns s)" "row_values r ! i \<noteq> VNull"
  shows "length (row_values r) = length (columns s)" "type_accepts (c_type (columns s ! i)) (row_values r ! i)"
proof -
  show l: "length (row_values r) = length (columns s)" using assms(1) by (auto simp: validate_row_def split: if_splits)
  have "validate_value (columns s ! i) (row_values r ! i) = Inr ()"
    using assms(1,2) l by (fastforce simp: validate_row_def each_ok_Inr set_zip)
  then show "type_accepts (c_type (columns s ! i)) (row_values r ! i)"
    using assms(3) by (cases "row_values r ! i") (auto simp: validate_value_def split: if_splits)
qed

lemma key_of_value_matches: "db_value_to_key v = Some k \<Longrightarrow> key_matches_value k v"
  by (cases v) (auto simp: key_matches_value_def)

lemma key_of_typed_value: "type_accepts t v \<Longrightarrow> db_value_to_key v = Some k \<Longrightarrow> key_type_accepts t k"
  by (cases v) (auto simp: type_accepts_def key_type_accepts_def split: data_type.splits)

lemma primary_key_indices_less: "i \<in> set (primary_key_indices s) \<Longrightarrow> i < length (columns s)"
  by (auto simp: primary_key_indices_def in_set_enumerate_eq)

lemma extract_parts_ok:
  assumes "extract_parts r idxs = Some (Inr ks)"
  shows "length ks = length idxs"
    "\<forall>(i, k) \<in> set (zip idxs ks). i < length (row_values r) \<and> row_values r ! i \<noteq> VNull \<and> db_value_to_key (row_values r ! i) = Some k"
  using assms
proof (induction idxs arbitrary: ks)
  case (Cons i idxs)
  case 1 then show ?case using Cons by (auto simp: rbind_eq_Inr split: option.splits if_splits)
  case 2 then show ?case using Cons by (auto simp: rbind_eq_Inr get_by_index_def split: option.splits if_splits)
qed simp_all

lemma validate_parts_ok:
  "(\<forall>(i, k) \<in> set iks. i < length (row_values r) \<and> validate_single (columns s ! i) k (row_values r ! i) = Inr ())
    \<Longrightarrow> validate_parts s r iks = Some (Inr ())"
  by (induction iks) (auto simp: get_by_index_def)

text \<open>
  The bounds of a type bracket its values, except that a string may extend the sentinel and a leap
  second may follow the last time of the day.
\<close>

definition extremes_ok :: "('x::linorder) extremes \<Rightarrow> bool" where
  "extremes_ok ex \<longleftrightarrow>
     (\<forall>x. date_min ex \<le> x \<and> x \<le> date_max ex) \<and> (\<forall>x. time_min ex \<le> x) \<and> (\<forall>x. timestamp_min ex \<le> x \<and> x \<le> timestamp_max ex)
   \<and> (\<forall>x. decimal_min ex \<le> x \<and> x \<le> decimal_max ex)"

fun below_sentinel :: "('x::linorder) extremes \<Rightarrow> 'x dbkey \<Rightarrow> bool" where
  "below_sentinel ex (KString t) \<longleftrightarrow> t \<le> str [0x10FFFF]"
| "below_sentinel ex (KTime t) \<longleftrightarrow> t \<le> time_max ex"
| "below_sentinel ex (KComposite ks) \<longleftrightarrow> (\<forall>k \<in> set ks. below_sentinel ex k)"
| "below_sentinel ex k \<longleftrightarrow> True"

lemma sint_i64_bounds: "sint (0x8000000000000000 :: i64) \<le> sint (v :: i64)" "sint v \<le> sint (0x7FFFFFFFFFFFFFFF :: i64)"
  using sint_ge [of v] sint_less [of v] by simp_all

lemma key_le_simps:
  "KDate a \<le> KDate b \<longleftrightarrow> a \<le> b" "KTime a \<le> KTime b \<longleftrightarrow> a \<le> b" "KTimestamp a \<le> KTimestamp b \<longleftrightarrow> a \<le> b"
  "KDecimal a \<le> KDecimal b \<longleftrightarrow> a \<le> b" "(KString u :: ('x::linorder) dbkey) \<le> KString v \<longleftrightarrow> u \<le> v" "(KBool p :: 'x dbkey) \<le> KBool q \<longleftrightarrow> p \<le> q"
  by (auto simp: less_eq_dbkey_def cmp_key.simps not_less)

lemma key_bounds_bracket:
  assumes "extremes_ok ex" "key_type_accepts t k" "below_sentinel ex k"
  shows "fst (key_bounds ex t) \<le> k \<and> k \<le> snd (key_bounds ex t)"
proof (cases k)
  case (KInt v)
  then have "t = TInt" using assms(2) by (cases t) (simp_all add: key_type_accepts_def)
  then show ?thesis using sint_i64_bounds [of v] KInt by (simp add: key_bounds_def)
next
  case (KString u)
  then have "t = TString" using assms(2) by (cases t) (simp_all add: key_type_accepts_def)
  then show ?thesis using assms(3) KString by (simp add: key_bounds_def key_le_simps)
next
  case (KBool u)
  then have "t = TBool" using assms(2) by (cases t) (simp_all add: key_type_accepts_def)
  then show ?thesis using KBool by (simp add: key_bounds_def key_le_simps)
next
  case (KDate u)
  then have "t = TDate" using assms(2) by (cases t) (simp_all add: key_type_accepts_def)
  then show ?thesis using KDate assms(1) by (simp add: key_bounds_def key_le_simps extremes_ok_def)
next
  case (KTime u)
  then have "t = TTime" using assms(2) by (cases t) (simp_all add: key_type_accepts_def)
  then show ?thesis using KTime assms(1,3) by (simp add: key_bounds_def key_le_simps extremes_ok_def)
next
  case (KTimestamp u)
  then have "t = TTimestamp" using assms(2) by (cases t) (simp_all add: key_type_accepts_def)
  then show ?thesis using KTimestamp assms(1) by (simp add: key_bounds_def key_le_simps extremes_ok_def)
next
  case (KDecimal u)
  then have "t = TDecimal" using assms(2) by (cases t) (simp_all add: key_type_accepts_def)
  then show ?thesis using KDecimal assms(1) by (simp add: key_bounds_def key_le_simps extremes_ok_def)
next
  case (KComposite ks)
  then show ?thesis using assms(2) by (cases t) (simp_all add: key_type_accepts_def)
qed

lemma cmp_keys_mono: "list_all2 (\<le>) xs ys \<Longrightarrow> cmp_keys xs ys \<noteq> Greater"
proof (induction xs ys rule: list_all2_induct)
  case (Cons x xs y ys)
  then show ?case by (cases "cmp_key x y") (auto simp: less_eq_dbkey_def)
qed simp

lemma composite_mono: "list_all2 (\<le>) xs ys \<Longrightarrow> KComposite xs \<le> KComposite ys"
  using cmp_keys_mono by (simp add: less_eq_dbkey_def cmp_key.simps)

lemma list_all2_bracket:
  "list_all2 (\<lambda>i k. f i \<le> k \<and> k \<le> g i) is' ks \<Longrightarrow> list_all2 (\<le>) (map f is') ks \<and> list_all2 (\<le>) ks (map g is')"
  by (induction rule: list_all2_induct) auto

lemma extracted_parts:
  assumes "validate_row s r = Inr ()" "extract_parts r idxs = Some (Inr ks)" "set idxs \<subseteq> set (primary_key_indices s)" "(i, k) \<in> set (zip idxs ks)"
  shows "i < length (row_values r)" "key_type_accepts (c_type (columns s ! i)) k" "validate_single (columns s ! i) k (row_values r ! i) = Inr ()"
proof -
  have i: "i < length (columns s)" using assms(3,4) primary_key_indices_less by (metis in_mono set_zip_leftD)
  have p: "i < length (row_values r)" "row_values r ! i \<noteq> VNull" "db_value_to_key (row_values r ! i) = Some k"
    using extract_parts_ok(2) [OF assms(2)] assms(4) by auto
  note T = validate_row_typed [OF assms(1) i p(2)]
  show "i < length (row_values r)" by (rule p)
  show a: "key_type_accepts (c_type (columns s ! i)) k" by (rule key_of_typed_value [OF T(2) p(3)])
  show "validate_single (columns s ! i) k (row_values r ! i) = Inr ()"
    using a key_of_value_matches [OF p(3)] by (simp add: validate_single_def validate_key_part_def)
qed


definition demo_extremes :: "bool extremes" where
  "demo_extremes = \<lparr>date_min = False, date_max = True, time_min = False, time_max = True, timestamp_min = False, timestamp_max = True,
     decimal_min = False, decimal_max = True\<rparr>"


text \<open>The sentinel is not an upper bound of all strings: this key is valid and lies past the bounds of a full scan.\<close>

lemma key_bounds_miss_string:
  "validate_key_part (demo_column ''k'' TString True None None) (KString (str [0x10FFFF, 97]) :: ('x::linorder) dbkey) = Inr ()
   \<and> snd (key_bounds ex TString) < (KString (str [0x10FFFF, 97]) :: 'x dbkey)"
proof -
  have "str [0x10FFFF] < str [0x10FFFF, 97]" by (simp add: str_def utf8_char_def)
  then show ?thesis
    by (simp add: demo_column_def validate_key_part_def key_type_accepts_def key_bounds_def less_dbkey_def cmp_key.simps)
qed

end
