(* ===== verification/Bloom.thy ===== *)
theory Bloom
  imports Prelude
begin

text \<open>
  \<^verbatim>\<open>dtdb_storage/src/bloom.rs\<close>: the Bloom filter an SSTable carries. The 128-bit \<open>xxh3\<close> digest of
  a key, split into two 64-bit halves, is the parameter \<open>hashes\<close>; the two floating-point formulas
  that size a new filter are the parameters \<open>opt_bits\<close> (already rounded up) and \<open>opt_hashes\<close>
  (already rounded).
\<close>

unbundle bit_operations_syntax

definition MAX_NUM_HASHES :: nat where "MAX_NUM_HASHES = 30"

record bloom_filter =
  bit_vec :: "byte list"
  num_hashes :: nat
  bits_count :: nat

definition bloom_new :: "(nat \<Rightarrow> nat) \<Rightarrow> (nat \<Rightarrow> nat \<Rightarrow> nat) \<Rightarrow> nat \<Rightarrow> bloom_filter" where
  "bloom_new opt_bits opt_hashes num_items =
     (if num_items = 0 then \<lparr>bit_vec = [], num_hashes = 0, bits_count = 0\<rparr>
      else let bits = max (opt_bits num_items) 8;
               k = min (max (opt_hashes bits num_items) 1) MAX_NUM_HASHES;
               bytes_count = (bits + 7) div 8
           in \<lparr>bit_vec = replicate bytes_count 0, num_hashes = k, bits_count = bytes_count * 8\<rparr>)"

text \<open>The probe sequence \<open>hash1 + i * hash2\<close>, wrapping, reduced modulo the number of bits.\<close>

definition bloom_bits :: "bloom_filter \<Rightarrow> u64" where
  "bloom_bits b = of_nat (length (bit_vec b) * 8)"

definition probe :: "bloom_filter \<Rightarrow> u64 \<times> u64 \<Rightarrow> nat \<Rightarrow> nat" where
  "probe b hs i = unat ((fst hs + of_nat i * snd hs) mod bloom_bits b)"

definition set_bit_vec :: "nat \<Rightarrow> byte list \<Rightarrow> byte list" where
  "set_bit_vec bit_idx bv = bv[bit_idx div 8 := (bv ! (bit_idx div 8)) OR push_bit (bit_idx mod 8) 1]"

definition test_bit_vec :: "nat \<Rightarrow> byte list \<Rightarrow> bool" where
  "test_bit_vec bit_idx bv \<longleftrightarrow> (bv ! (bit_idx div 8)) AND push_bit (bit_idx mod 8) 1 \<noteq> 0"

definition bloom_insert :: "('k \<Rightarrow> u64 \<times> u64) \<Rightarrow> 'k \<Rightarrow> bloom_filter \<Rightarrow> bloom_filter" where
  "bloom_insert hashes key b =
     (if bloom_bits b = 0 then b
      else b\<lparr>bit_vec := foldl (\<lambda>bv i. set_bit_vec (probe b (hashes key) i) bv) (bit_vec b)
                           [0..<min (num_hashes b) MAX_NUM_HASHES]\<rparr>)"

definition bloom_contains :: "('k \<Rightarrow> u64 \<times> u64) \<Rightarrow> 'k \<Rightarrow> bloom_filter \<Rightarrow> bool" where
  "bloom_contains hashes key b \<longleftrightarrow>
     bloom_bits b \<noteq> 0
   \<and> list_all (\<lambda>i. test_bit_vec (probe b (hashes key) i) (bit_vec b)) [0..<min (num_hashes b) MAX_NUM_HASHES]"

section \<open>Lemmas\<close>

lemma probe_in_range:
  assumes "bloom_bits b \<noteq> 0"
  shows "probe b hs i div 8 < length (bit_vec b)"
proof -
  have "probe b hs i < unat (bloom_bits b)"
    unfolding probe_def using assms by (simp add: unat_mod_distrib word_gt_0 unat_gt_0)
  also have "\<dots> \<le> length (bit_vec b) * 8"
    by (simp add: bloom_bits_def unsigned_of_nat del: of_nat_mult)
  finally show ?thesis by (simp add: less_mult_imp_div_less)
qed

lemma test_bit_vec_bit: "test_bit_vec i bv \<longleftrightarrow> bit (bv ! (i div 8)) (i mod 8)"
  by (simp add: test_bit_vec_def push_bit_of_1 and_exp_eq_0_iff_not_bit)

lemma test_set_bit_vec:
  assumes "i div 8 < length bv" "j div 8 < length bv"
  shows "test_bit_vec j (set_bit_vec i bv) \<longleftrightarrow> i = j \<or> test_bit_vec j bv"
proof -
  have "i = j \<longleftrightarrow> i div 8 = j div 8 \<and> i mod 8 = j mod 8" by (metis div_mult_mod_eq)
  with assms show ?thesis
    by (cases "i div 8 = j div 8")
      (auto simp: test_bit_vec_bit set_bit_vec_def bit_or_iff push_bit_of_1 bit_exp_iff)
qed

lemma length_set_bit_vec [simp]: "length (set_bit_vec i bv) = length bv"
  by (simp add: set_bit_vec_def)

lemma test_set_bits:
  assumes "\<forall>i \<in> set is. p i div 8 < length bv" "j div 8 < length bv"
  shows "test_bit_vec j (foldl (\<lambda>bv i. set_bit_vec (p i) bv) bv is) \<longleftrightarrow> j \<in> p ` set is \<or> test_bit_vec j bv"
    and "length (foldl (\<lambda>bv i. set_bit_vec (p i) bv) bv is) = length bv"
  using assms
proof (induction "is" arbitrary: bv)
  case (Cons i "is")
  {
    case 1
    then show ?case using Cons.IH(1) [of "set_bit_vec (p i) bv"] by (auto simp: test_set_bit_vec)
  next
    case 2
    then show ?case using Cons.IH(2) [of "set_bit_vec (p i) bv"] by simp
  }
qed auto

lemma bloom_insert_shape:
  "length (bit_vec (bloom_insert hashes k b)) = length (bit_vec b)"
  "num_hashes (bloom_insert hashes k b) = num_hashes b"
proof -
  show "length (bit_vec (bloom_insert hashes k b)) = length (bit_vec b)"
  proof (cases "bloom_bits b = 0")
    case False
    show ?thesis
      using test_set_bits(2) [of "[0..<min (num_hashes b) MAX_NUM_HASHES]" "probe b (hashes k)" "bit_vec b" 0]
        probe_in_range [OF False] False
      by (cases "bit_vec b = []") (auto simp: bloom_insert_def bloom_bits_def)
  qed (simp add: bloom_insert_def)
qed (simp add: bloom_insert_def)

lemma bloom_insert_bits [simp]: "bloom_bits (bloom_insert hashes k b) = bloom_bits b"
  by (simp add: bloom_bits_def bloom_insert_shape)

lemma bloom_insert_probe [simp]: "probe (bloom_insert hashes k b) = probe b"
  by (simp add: probe_def fun_eq_iff)

lemma test_bloom_insert:
  assumes "bloom_bits b \<noteq> 0" "j div 8 < length (bit_vec b)"
  shows "test_bit_vec j (bit_vec (bloom_insert hashes k b)) \<longleftrightarrow>
    (\<exists>i < min (num_hashes b) MAX_NUM_HASHES. j = probe b (hashes k) i) \<or> test_bit_vec j (bit_vec b)"
  using assms test_set_bits(1) [of "[0..<min (num_hashes b) MAX_NUM_HASHES]" "probe b (hashes k)" "bit_vec b" j]
    probe_in_range [OF assms(1)]
  by (auto simp: bloom_insert_def)

lemma bloom_contains_insert:
  "bloom_bits b \<noteq> 0 \<Longrightarrow> bloom_contains hashes k (bloom_insert hashes k b)"
  by (auto simp: bloom_contains_def bloom_insert_shape list_all_iff test_bloom_insert probe_in_range)

lemma bloom_contains_mono:
  "bloom_contains hashes k b \<Longrightarrow> bloom_contains hashes k (bloom_insert hashes k' b)"
  by (auto simp: bloom_contains_def bloom_insert_shape list_all_iff test_bloom_insert probe_in_range)

definition bloom_insert_all :: "('k \<Rightarrow> u64 \<times> u64) \<Rightarrow> 'k list \<Rightarrow> bloom_filter \<Rightarrow> bloom_filter" where
  "bloom_insert_all hashes ks b = foldl (\<lambda>b k. bloom_insert hashes k b) b ks"

lemma bloom_contains_insert_all:
  assumes "bloom_bits b \<noteq> 0" "k \<in> set ks"
  shows "bloom_contains hashes k (bloom_insert_all hashes ks b)"
proof -
  have mono: "bloom_contains hashes k b \<Longrightarrow> bloom_contains hashes k (bloom_insert_all hashes ks b)" for b ks
    by (induction ks arbitrary: b) (auto simp: bloom_insert_all_def bloom_contains_mono)
  show ?thesis
    using assms
  proof (induction ks arbitrary: b)
    case (Cons k' ks)
    show ?case
    proof (cases "k = k'")
      case True
      then show ?thesis
        using mono [OF bloom_contains_insert [OF Cons.prems(1)]] by (simp add: bloom_insert_all_def)
    next
      case False
      with Cons show ?thesis by (simp add: bloom_insert_all_def)
    qed
  qed simp
qed

lemma bloom_new_bits:
  assumes "0 < n" "max (opt_bits n) 8 + 7 < 2 ^ 64"
  shows "bloom_bits (bloom_new opt_bits opt_hashes n) \<noteq> 0"
proof -
  define bytes where "bytes = (max (opt_bits n) 8 + 7) div 8"
  have "0 < bytes * 8" by (simp add: bytes_def div_greater_zero_iff)
  moreover have "bytes * 8 < 2 ^ 64" using assms(2) unfolding bytes_def by linarith
  ultimately have "unat (of_nat (bytes * 8) :: u64) \<noteq> 0"
    by (simp add: unsigned_of_nat take_bit_nat_eq_self del: of_nat_mult)
  then have "(of_nat (bytes * 8) :: u64) \<noteq> 0" by (metis unat_0)
  then show ?thesis using assms(1) by (simp add: bloom_bits_def bloom_new_def bytes_def Let_def del: of_nat_mult)
qed

section \<open>Properties\<close>

text \<open>
  C29: No false negatives. In a filter built for a positive number of items, every key that was
  inserted, in whatever order and among whatever other keys, tests present, so that a lookup
  that trusts a negative answer skips no stored key. Probes stay inside the bit vector, and there
  are at most thirty of them, even for a filter whose stored hash count is garbage.
\<close>

theorem bloom_no_false_negative:
  assumes "0 < n" "max (opt_bits n) 8 + 7 < 2 ^ 64" "k \<in> set ks"
  shows "bloom_contains hashes k (bloom_insert_all hashes ks (bloom_new opt_bits opt_hashes n))
    \<and> (bloom_bits b \<noteq> 0 \<longrightarrow> bloom_contains hashes k' (bloom_insert hashes k' (b\<lparr>num_hashes := garbage\<rparr>))
        \<and> probe b hs i div 8 < length (bit_vec b) \<and> min garbage MAX_NUM_HASHES \<le> 30)"
proof -
  have "bloom_bits (b\<lparr>num_hashes := garbage\<rparr>) = bloom_bits b" by (simp add: bloom_bits_def)
  then show ?thesis
    using bloom_contains_insert_all [OF bloom_new_bits [of n opt_bits opt_hashes, OF assms(1,2)] assms(3), of hashes]
      bloom_contains_insert [of "b\<lparr>num_hashes := garbage\<rparr>" hashes k'] probe_in_range [of b]
    by (simp add: MAX_NUM_HASHES_def)
qed

theorem bloom_no_false_negative_witness:
  "bloom_contains (\<lambda>k :: nat. (of_nat k, of_nat (k * k + 1))) 5
     (bloom_insert_all (\<lambda>k. (of_nat k, of_nat (k * k + 1))) [3, 5, 9] (bloom_new (\<lambda>n. 10 * n) (\<lambda>m n. 7) 3))"
proof -
  have "(0::nat) < 3" "max (10 * 3) 8 + 7 < (2::nat) ^ 64" "(5::nat) \<in> set [3, 5, 9]" by simp_all
  then show ?thesis using bloom_no_false_negative [of 3 "\<lambda>n. 10 * n" 5 "[3, 5, 9]"] by blast
qed

end
