(* ===== verification/Block_Cache.thy ===== *)
theory Block_Cache
  imports Values "HOL-Library.AList"
begin

text \<open>
  \<^verbatim>\<open>dtdb_storage/src/block_cache.rs\<close>: the sharded cache of decoded SSTable blocks. \<open>LruCache\<close> is a
  hash map into a vector of nodes that form a doubly linked list by index, with a free list of
  vector slots. The model keeps that structure, pointer updates included: \<open>nodes\<close> is the vector,
  \<open>lru_map\<close> an association list without duplicate keys for the hash map. It is shown to refine the
  list of cached entries, most recently used first.

  A vector index out of range is a panic of the source; the invariant \<open>lru_wf\<close> shows that every
  index an operation uses is in range. The eviction loop follows pointers and is a partial function:
  that it returns is a theorem.
\<close>

record ('k, 'v) lru_node =
  nd_key :: "'k option"
  nd_value :: "'v option"
  prev :: "nat option"
  next_n :: "nat option"
  nd_size :: nat

record ('k, 'v) lru_cache =
  lru_map :: "('k \<times> nat) list"
  nodes :: "('k, 'v) lru_node list"
  head :: "nat option"
  tail :: "nat option"
  free :: "nat list"
  capacity_bytes :: nat
  current_bytes :: nat

definition lru_new :: "nat \<Rightarrow> ('k, 'v) lru_cache option" where
  "lru_new cap =
     (if 0 < cap
      then Some \<lparr>lru_map = [], nodes = [], head = None, tail = None, free = [], capacity_bytes = cap,
                 current_bytes = 0\<rparr>
      else None)"

definition upd_node ::
  "nat \<Rightarrow> (('k, 'v) lru_node \<Rightarrow> ('k, 'v) lru_node) \<Rightarrow> ('k, 'v) lru_cache \<Rightarrow> ('k, 'v) lru_cache" where
  "upd_node i f c = c\<lparr>nodes := (nodes c)[i := f (nodes c ! i)]\<rparr>"

definition detach :: "nat \<Rightarrow> ('k, 'v) lru_cache \<Rightarrow> ('k, 'v) lru_cache" where
  "detach idx c =
     (let p = prev (nodes c ! idx); n = next_n (nodes c ! idx);
          c1 = (case p of Some p' \<Rightarrow> upd_node p' (next_n_update (\<lambda>_. n)) c | None \<Rightarrow> c\<lparr>head := n\<rparr>);
          c2 = (case n of Some n' \<Rightarrow> upd_node n' (prev_update (\<lambda>_. p)) c1 | None \<Rightarrow> c1\<lparr>tail := p\<rparr>)
      in upd_node idx (\<lambda>nd. nd\<lparr>prev := None, next_n := None\<rparr>) c2)"

definition attach_head :: "nat \<Rightarrow> ('k, 'v) lru_cache \<Rightarrow> ('k, 'v) lru_cache" where
  "attach_head idx c =
     (case head c of
        Some h \<Rightarrow>
          (upd_node h (prev_update (\<lambda>_. Some idx)) (upd_node idx (next_n_update (\<lambda>_. Some h)) c))\<lparr>head := Some idx\<rparr>
      | None \<Rightarrow> c\<lparr>head := Some idx, tail := Some idx\<rparr>)"

definition remove_node :: "nat \<Rightarrow> ('k, 'v) lru_cache \<Rightarrow> ('k, 'v) lru_cache" where
  "remove_node idx c =
     (let c1 = detach idx (c\<lparr>current_bytes := current_bytes c - nd_size (nodes c ! idx)\<rparr>);
          c2 = (case nd_key (nodes c1 ! idx) of
                  Some old_key \<Rightarrow> c1\<lparr>lru_map := AList.delete old_key (lru_map c1)\<rparr>
                | None \<Rightarrow> c1);
          c3 = upd_node idx (\<lambda>nd. nd\<lparr>nd_key := None, nd_value := None, nd_size := 0\<rparr>) c2
      in c3\<lparr>free := idx # free c3\<rparr>)"

text \<open>The eviction loop; \<open>None\<close> is a loop that does not end.\<close>

partial_function (option) evict_if_needed :: "('k, 'v) lru_cache \<Rightarrow> ('k, 'v) lru_cache option" where
  "evict_if_needed c =
     (if capacity_bytes c < current_bytes c
      then (case tail c of None \<Rightarrow> Some c | Some tail_idx \<Rightarrow> evict_if_needed (remove_node tail_idx c))
      else Some c)"

definition usize_sat_add :: "nat \<Rightarrow> nat \<Rightarrow> nat" where
  "usize_sat_add a b = min (a + b) (2 ^ 64 - 1)"

definition lru_get :: "'k \<Rightarrow> ('k, 'v) lru_cache \<Rightarrow> ('k, 'v) lru_cache \<times> 'v option" where
  "lru_get key c =
     (case map_of (lru_map c) key of
        Some idx \<Rightarrow> (let c1 = attach_head idx (detach idx c) in (c1, nd_value (nodes c1 ! idx)))
      | None \<Rightarrow> (c, None))"

text \<open>A slot for a new entry: the last one freed, or a fresh one at the end of the vector.\<close>

definition alloc_node :: "('k, 'v) lru_cache \<Rightarrow> ('k, 'v) lru_cache \<times> nat" where
  "alloc_node c =
     (case free c of
        i # fs \<Rightarrow> (c\<lparr>free := fs\<rparr>, i)
      | [] \<Rightarrow>
          (c\<lparr>nodes := nodes c @ [\<lparr>nd_key = None, nd_value = None, prev = None, next_n = None, nd_size = 0\<rparr>]\<rparr>,
           length (nodes c)))"

definition lru_insert :: "'k \<Rightarrow> 'v \<Rightarrow> nat \<Rightarrow> ('k, 'v) lru_cache \<Rightarrow> ('k, 'v) lru_cache option" where
  "lru_insert key v sz c =
     (if capacity_bytes c < sz then
        Some (case map_of (lru_map c) key of Some idx \<Rightarrow> remove_node idx c | None \<Rightarrow> c)
      else case map_of (lru_map c) key of
        Some idx \<Rightarrow>
          (let c1 = c\<lparr>current_bytes := usize_sat_add (current_bytes c - nd_size (nodes c ! idx)) sz\<rparr>;
               c2 = upd_node idx (\<lambda>nd. nd\<lparr>nd_value := Some v, nd_size := sz\<rparr>) c1
           in evict_if_needed (attach_head idx (detach idx c2)))
      | None \<Rightarrow>
          (let c1 = c\<lparr>current_bytes := usize_sat_add (current_bytes c) sz\<rparr>;
               (c2, idx) = alloc_node c1;
               c3 = upd_node idx (\<lambda>nd. nd\<lparr>nd_key := Some key, nd_value := Some v, nd_size := sz\<rparr>) c2;
               c4 = c3\<lparr>lru_map := AList.update key idx (lru_map c3)\<rparr>
           in evict_if_needed (attach_head idx c4)))"

definition lru_len :: "('k, 'v) lru_cache \<Rightarrow> nat" where
  "lru_len c = length (lru_map c)"

definition lru_is_empty :: "('k, 'v) lru_cache \<Rightarrow> bool" where
  "lru_is_empty c \<longleftrightarrow> lru_map c = []"

subsection \<open>The sharded cache\<close>

type_synonym cache_key = "u64 \<times> nat"
type_synonym 'x block_cache = "(cache_key, 'x entry list) lru_cache list"

definition block_byte_size :: "('x::linorder) entry list \<Rightarrow> nat" where
  "block_byte_size block = sum_list (map entry_byte_size block)"

definition bc_new :: "nat \<Rightarrow> ('x::linorder) block_cache option" where
  "bc_new capacity =
     (case lru_new ((capacity + 15) div 16) of Some c \<Rightarrow> Some (replicate 16 c) | None \<Rightarrow> None)"

definition get_shard :: "cache_key \<Rightarrow> ('x::linorder) block_cache \<Rightarrow> nat" where
  "get_shard key shards = unat (xor (fst key) (of_nat (snd key))) mod length shards"

definition bc_get :: "cache_key \<Rightarrow> ('x::linorder) block_cache \<Rightarrow> 'x block_cache \<times> 'x entry list option" where
  "bc_get key shards =
     (let i = get_shard key shards; (c, r) = lru_get key (shards ! i) in (shards[i := c], r))"

definition bc_insert :: "cache_key \<Rightarrow> ('x::linorder) entry list \<Rightarrow> 'x block_cache \<Rightarrow> 'x block_cache option" where
  "bc_insert key block shards =
     (let i = get_shard key shards
      in map_option (\<lambda>c. shards[i := c]) (lru_insert key block (block_byte_size block) (shards ! i)))"

section \<open>The linked list\<close>

text \<open>
  \<open>seg ns p xs q\<close>: the nodes \<open>xs\<close> are linked in this order, the first one's \<open>prev\<close> is \<open>p\<close> and the last
  one's \<open>next\<close> is \<open>q\<close>.
\<close>

fun first_or :: "nat list \<Rightarrow> nat option \<Rightarrow> nat option" where
  "first_or [] q = q"
| "first_or (x # xs) q = Some x"

fun last_or :: "nat option \<Rightarrow> nat list \<Rightarrow> nat option" where
  "last_or p [] = p"
| "last_or p (x # xs) = last_or (Some x) xs"

fun seg :: "('k, 'v) lru_node list \<Rightarrow> nat option \<Rightarrow> nat list \<Rightarrow> nat option \<Rightarrow> bool" where
  "seg ns p [] q \<longleftrightarrow> True"
| "seg ns p (x # xs) q \<longleftrightarrow>
     prev (ns ! x) = p \<and> next_n (ns ! x) = first_or xs q \<and> seg ns (Some x) xs q"

lemma first_or_append [simp]: "first_or (xs @ ys) q = first_or xs (first_or ys q)"
  by (cases xs) auto

lemma last_or_append [simp]: "last_or p (xs @ ys) = last_or (last_or p xs) ys"
  by (induction p xs rule: last_or.induct) auto

lemma last_or_SomeD: "last_or (Some x) xs = Some (last (x # xs))"
  by (induction xs arbitrary: x) auto

lemma seg_append [simp]: "seg ns p (xs @ ys) q \<longleftrightarrow> seg ns p xs (first_or ys q) \<and> seg ns (last_or p xs) ys q"
  by (induction xs arbitrary: p) auto

text \<open>Only the links of the nodes of a segment matter.\<close>

lemma seg_cong:
  assumes "\<forall>x \<in> set xs. prev (ns' ! x) = prev (ns ! x) \<and> next_n (ns' ! x) = next_n (ns ! x)"
  shows "seg ns' p xs q = seg ns p xs q"
  using assms by (induction xs arbitrary: p) auto

lemma seg_frame [simp]: "u \<notin> set xs \<Longrightarrow> seg (ns[u := nd]) p xs q = seg ns p xs q"
  by (rule seg_cong) (metis nth_list_update_neq)

lemma seg_set_next:
  assumes "seg ns p (xs @ [x]) q" "x \<notin> set xs" "x < length ns"
  shows "seg (ns[x := (ns ! x)\<lparr>next_n := q'\<rparr>]) p (xs @ [x]) q'"
  using assms by simp

lemma seg_set_prev:
  assumes "seg ns p (x # xs) q" "x \<notin> set xs" "x < length ns"
  shows "seg (ns[x := (ns ! x)\<lparr>prev := p'\<rparr>]) p' (x # xs) q"
  using assms by simp

section \<open>The invariant\<close>

text \<open>
  \<open>lru_wf c xs\<close>: the vector's slots are split between the list \<open>xs\<close> and the free list; the list is
  linked in the order \<open>xs\<close>; free slots are unlinked; the hash map and the keys in the list's nodes are
  inverse to each other; and the byte counter is the sum of the sizes in the list.
\<close>

definition dll :: "('k, 'v) lru_cache \<Rightarrow> nat list \<Rightarrow> bool" where
  "dll c xs \<longleftrightarrow>
     distinct xs \<and> set xs \<subseteq> {..<length (nodes c)} \<and> seg (nodes c) None xs None
   \<and> head c = first_or xs None \<and> tail c = last_or None xs"

definition unlinked :: "('k, 'v) lru_cache \<Rightarrow> nat \<Rightarrow> bool" where
  "unlinked c x \<longleftrightarrow> prev (nodes c ! x) = None \<and> next_n (nodes c ! x) = None"

definition lru_links :: "('k, 'v) lru_cache \<Rightarrow> nat list \<Rightarrow> bool" where
  "lru_links c xs \<longleftrightarrow>
     dll c xs \<and> distinct (free c) \<and> set xs \<inter> set (free c) = {}
   \<and> set xs \<union> set (free c) = {..<length (nodes c)} \<and> (\<forall>x \<in> set (free c). unlinked c x)"

definition lru_keys :: "('k, 'v) lru_cache \<Rightarrow> nat list \<Rightarrow> bool" where
  "lru_keys c xs \<longleftrightarrow>
     distinct (map fst (lru_map c))
   \<and> (\<forall>k x. map_of (lru_map c) k = Some x \<longleftrightarrow> x \<in> set xs \<and> nd_key (nodes c ! x) = Some k)
   \<and> (\<forall>x \<in> set xs. nd_key (nodes c ! x) \<noteq> None \<and> nd_value (nodes c ! x) \<noteq> None)"

definition list_bytes :: "('k, 'v) lru_cache \<Rightarrow> nat list \<Rightarrow> nat" where
  "list_bytes c xs = sum_list (map (\<lambda>x. nd_size (nodes c ! x)) xs)"

definition lru_wf :: "('k, 'v) lru_cache \<Rightarrow> nat list \<Rightarrow> bool" where
  "lru_wf c xs \<longleftrightarrow> lru_links c xs \<and> lru_keys c xs \<and> current_bytes c = list_bytes c xs"

definition node_entry :: "('k, 'v) lru_node \<Rightarrow> 'k \<times> 'v \<times> nat" where
  "node_entry nd = (the (nd_key nd), the (nd_value nd), nd_size nd)"

definition lru_abs :: "('k, 'v) lru_cache \<Rightarrow> nat list \<Rightarrow> ('k \<times> 'v \<times> nat) list" where
  "lru_abs c xs = map (\<lambda>x. node_entry (nodes c ! x)) xs"

text \<open>The payload of a node is untouched by the pointer operations.\<close>

definition payload :: "('k, 'v) lru_node \<Rightarrow> 'k option \<times> 'v option \<times> nat" where
  "payload nd = (nd_key nd, nd_value nd, nd_size nd)"

lemma payload_eqD:
  "payload nd = payload nd' \<Longrightarrow> nd_key nd = nd_key nd'"
  "payload nd = payload nd' \<Longrightarrow> nd_value nd = nd_value nd'"
  "payload nd = payload nd' \<Longrightarrow> nd_size nd = nd_size nd'"
  by (auto simp: payload_def)

lemma payload_upd_links [simp]:
  "payload (nd\<lparr>prev := p\<rparr>) = payload nd" "payload (nd\<lparr>next_n := p\<rparr>) = payload nd"
  by (auto simp: payload_def)

lemma map_payload_upd [simp]:
  "payload nd = payload (ns ! i) \<Longrightarrow> map payload (ns[i := nd]) = map payload ns"
  by (cases "i < length ns") (auto simp: map_update list_update_same_conv list_update_beyond)

lemma detach_payload: "map payload (nodes (detach i c)) = map payload (nodes c)"
  by (simp add: detach_def upd_node_def Let_def split: option.split)

lemma attach_head_payload: "map payload (nodes (attach_head i c)) = map payload (nodes c)"
  by (simp add: attach_head_def upd_node_def split: option.split)

lemma detach_other [simp]:
  "lru_map (detach i c) = lru_map c" "free (detach i c) = free c"
  "capacity_bytes (detach i c) = capacity_bytes c" "current_bytes (detach i c) = current_bytes c"
  by (simp_all add: detach_def upd_node_def Let_def split: option.split)

lemma attach_head_other [simp]:
  "lru_map (attach_head i c) = lru_map c" "free (attach_head i c) = free c"
  "capacity_bytes (attach_head i c) = capacity_bytes c" "current_bytes (attach_head i c) = current_bytes c"
  by (simp_all add: attach_head_def upd_node_def split: option.split)

lemma same_payload:
  assumes "map payload (nodes c') = map payload (nodes c)" "x < length (nodes c)"
  shows "payload (nodes c' ! x) = payload (nodes c ! x)"
  using assms by (metis length_map nth_map)

lemma detach_dll:
  assumes "dll c (as @ i # bs)"
  shows "dll (detach i c) (as @ bs)" "unlinked (detach i c) i"
    "x \<notin> set (as @ i # bs) \<Longrightarrow> unlinked (detach i c) x = unlinked c x"
    "length (nodes (detach i c)) = length (nodes c)"
proof -
  have i: "i < length (nodes c)" "i \<notin> set as" "i \<notin> set bs" "distinct as" "distinct bs" "set as \<inter> set bs = {}"
    and prev: "prev (nodes c ! i) = last_or None as" and nxt: "next_n (nodes c ! i) = first_or bs None"
    and sg: "seg (nodes c) None as (Some i)" "seg (nodes c) (Some i) bs None"
    and lt: "set as \<subseteq> {..<length (nodes c)}" "set bs \<subseteq> {..<length (nodes c)}"
    and ends: "head c = first_or (as @ [i]) None" "tail c = last_or (Some i) bs"
    using assms by (auto simp: dll_def)
  note d = detach_def prev nxt upd_node_def Let_def dll_def unlinked_def
  show "length (nodes (detach i c)) = length (nodes c)" by (simp add: d split: option.split)
  have "dll (detach i c) (as @ bs) \<and> unlinked (detach i c) i
    \<and> (x \<notin> set (as @ i # bs) \<longrightarrow> unlinked (detach i c) x = unlinked c x)"
  proof (cases as rule: rev_cases)
    case Nil
    show ?thesis
    proof (cases bs)
      case Nil
      with \<open>as = []\<close> i show ?thesis by (auto simp: d)
    next
      case (Cons b bs')
      with \<open>as = []\<close> i sg lt ends show ?thesis by (auto simp: d)
    qed
  next
    case (snoc as' a)
    show ?thesis
    proof (cases bs)
      case Nil
      with snoc i sg lt ends show ?thesis by (auto simp: d)
    next
      case (Cons b bs')
      with snoc i sg lt ends show ?thesis by (auto simp: d)
    qed
  qed
  then show "dll (detach i c) (as @ bs)" "unlinked (detach i c) i"
    "x \<notin> set (as @ i # bs) \<Longrightarrow> unlinked (detach i c) x = unlinked c x"
    by blast+
qed

lemma attach_head_dll:
  assumes "dll c xs" "i \<notin> set xs" "i < length (nodes c)" "unlinked c i"
  shows "dll (attach_head i c) (i # xs)"
    "x \<notin> set (i # xs) \<Longrightarrow> unlinked (attach_head i c) x = unlinked c x"
    "length (nodes (attach_head i c)) = length (nodes c)"
proof -
  note d = attach_head_def upd_node_def dll_def unlinked_def
  show "length (nodes (attach_head i c)) = length (nodes c)" by (simp add: d split: option.split)
  have "dll (attach_head i c) (i # xs) \<and> (x \<notin> set (i # xs) \<longrightarrow> unlinked (attach_head i c) x = unlinked c x)"
  proof (cases xs)
    case Nil
    with assms show ?thesis by (auto simp: d)
  next
    case (Cons h xs')
    with assms show ?thesis by (auto simp: d)
  qed
  then show "dll (attach_head i c) (i # xs)" "x \<notin> set (i # xs) \<Longrightarrow> unlinked (attach_head i c) x = unlinked c x"
    by blast+
qed

section \<open>The abstract cache: entries, most recently used first\<close>

type_synonym ('k, 'v) mru = "('k \<times> 'v \<times> nat) list"

definition mru_bytes :: "('k, 'v) mru \<Rightarrow> nat" where
  "mru_bytes l = sum_list (map (\<lambda>e. snd (snd e)) l)"

definition mru_drop :: "'k \<Rightarrow> ('k, 'v) mru \<Rightarrow> ('k, 'v) mru" where
  "mru_drop k l = filter (\<lambda>e. fst e \<noteq> k) l"

fun mru_trim :: "nat \<Rightarrow> ('k, 'v) mru \<Rightarrow> ('k, 'v) mru" where
  "mru_trim cap l = (if cap < mru_bytes l \<and> l \<noteq> [] then mru_trim cap (butlast l) else l)"

declare mru_trim.simps [simp del]

definition mru_get :: "'k \<Rightarrow> ('k, 'v) mru \<Rightarrow> ('k, 'v) mru \<times> 'v option" where
  "mru_get k l =
     (case map_of l k of None \<Rightarrow> (l, None) | Some (v, s) \<Rightarrow> ((k, v, s) # mru_drop k l, Some v))"

definition mru_insert :: "nat \<Rightarrow> 'k \<Rightarrow> 'v \<Rightarrow> nat \<Rightarrow> ('k, 'v) mru \<Rightarrow> ('k, 'v) mru" where
  "mru_insert cap k v s l =
     (if cap < s then mru_drop k l else mru_trim cap ((k, v, s) # mru_drop k l))"

lemma mru_trim_step: "cap < mru_bytes l \<Longrightarrow> l \<noteq> [] \<Longrightarrow> mru_trim cap l = mru_trim cap (butlast l)"
  by (subst mru_trim.simps) simp

lemma mru_trim_done: "mru_bytes l \<le> cap \<Longrightarrow> mru_trim cap l = l"
  by (subst mru_trim.simps) simp

lemma mru_trim_bytes: "mru_bytes (mru_trim cap l) \<le> cap"
  by (induction cap l rule: mru_trim.induct) (subst mru_trim.simps, auto simp: mru_bytes_def)

lemma mru_trim_prefix: "\<exists>d. l = mru_trim cap l @ d"
proof (induction cap l rule: mru_trim.induct)
  case (1 cap l)
  show ?case
  proof (cases "cap < mru_bytes l \<and> l \<noteq> []")
    case True
    then obtain d where "butlast l = mru_trim cap (butlast l) @ d" using 1 by blast
    then have "l = mru_trim cap (butlast l) @ d @ [last l]"
      by (metis True append.assoc append_butlast_last_id)
    then show ?thesis using True mru_trim_step by metis
  next
    case False
    then show ?thesis by (subst mru_trim.simps) auto
  qed
qed

text \<open>The newest entry fits on its own, so trimming never drops it.\<close>

lemma mru_trim_keeps_head: "s \<le> cap \<Longrightarrow> \<exists>r. mru_trim cap ((k, v, s) # l) = (k, v, s) # r"
proof (induction "(k, v, s) # l" arbitrary: l rule: rev_induct)
  case (snoc y ys)
  show ?case
  proof (cases ys)
    case Nil
    with snoc show ?thesis by (subst mru_trim.simps) (auto simp: mru_bytes_def)
  next
    case (Cons z zs)
    with snoc have "l = zs @ [y]" "z = (k, v, s)" by auto
    with snoc.hyps(1) [of zs] Cons snoc.prems show ?thesis
      by (subst mru_trim.simps) auto
  qed
qed

section \<open>Operations on the abstraction\<close>

lemma lru_keys_cong:
  assumes "lru_map c' = lru_map c" "map payload (nodes c') = map payload (nodes c)" "set xs' = set xs"
    "set xs \<subseteq> {..<length (nodes c)}"
  shows "lru_keys c' xs' = lru_keys c xs"
proof -
  have "nd_key (nodes c' ! x) = nd_key (nodes c ! x) \<and> nd_value (nodes c' ! x) = nd_value (nodes c ! x)"
    if "x \<in> set xs" for x
    using same_payload [OF assms(2)] that assms(4) payload_eqD by (metis lessThan_iff subsetD)
  then show ?thesis using assms(1,3) by (simp add: lru_keys_def cong: conj_cong)
qed

lemma list_bytes_abs: "list_bytes c xs = mru_bytes (lru_abs c xs)"
  by (simp add: list_bytes_def mru_bytes_def lru_abs_def node_entry_def comp_def)

lemma lru_abs_cong:
  assumes "map payload (nodes c') = map payload (nodes c)" "set xs \<subseteq> {..<length (nodes c)}"
  shows "lru_abs c' xs = lru_abs c xs"
proof -
  have "node_entry (nodes c' ! x) = node_entry (nodes c ! x)" if "x \<in> set xs" for x
    using same_payload [OF assms(1)] that assms(2) payload_eqD
    by (metis (no_types, opaque_lifting) node_entry_def lessThan_iff subsetD)
  then show ?thesis by (simp add: lru_abs_def)
qed

lemma lru_abs_append [simp]: "lru_abs c (xs @ ys) = lru_abs c xs @ lru_abs c ys"
  by (simp add: lru_abs_def)

lemma lru_abs_Nil [simp]: "lru_abs c [] = []"
  by (simp add: lru_abs_def)

lemma lru_abs_Cons [simp]: "lru_abs c (x # xs) = node_entry (nodes c ! x) # lru_abs c xs"
  by (simp add: lru_abs_def)

lemma mru_bytes_simps [simp]:
  "mru_bytes [] = 0" "mru_bytes (e # l) = snd (snd e) + mru_bytes l" "mru_bytes (l @ l') = mru_bytes l + mru_bytes l'"
  by (simp_all add: mru_bytes_def)

text \<open>Moving a listed node to the front.\<close>

lemma lru_touch:
  assumes "lru_wf c (as @ i # bs)"
  shows "lru_wf (attach_head i (detach i c)) (i # as @ bs)"
    "lru_abs (attach_head i (detach i c)) (i # as @ bs) = lru_abs c (i # as @ bs)"
proof -
  let ?c = "attach_head i (detach i c)"
  have d: "dll c (as @ i # bs)" and dj: "set (as @ i # bs) \<inter> set (free c) = {}"
    and un: "set (as @ i # bs) \<union> set (free c) = {..<length (nodes c)}" and fr: "distinct (free c)"
    and ul: "\<forall>x \<in> set (free c). unlinked c x"
    and k: "lru_keys c (as @ i # bs)" and b: "current_bytes c = list_bytes c (as @ i # bs)"
    using assms by (auto simp: lru_wf_def lru_links_def)
  note D = detach_dll [OF d]
  have i: "i \<notin> set (as @ bs)" "i < length (nodes (detach i c))"
    using d D(4) by (auto simp: dll_def)
  note A = attach_head_dll [OF D(1) i D(2)]
  have pay: "map payload (nodes ?c) = map payload (nodes c)"
    by (simp add: attach_head_payload detach_payload)
  have sub: "set (i # as @ bs) \<subseteq> {..<length (nodes c)}" using un by auto
  show abs: "lru_abs ?c (i # as @ bs) = lru_abs c (i # as @ bs)" by (rule lru_abs_cong [OF pay sub])
  have "\<forall>x \<in> set (free c). unlinked ?c x"
    using A(2) D(3) ul dj by (metis Int_iff append_is_Nil_conv empty_iff set_ConsD set_append Un_iff list.set_intros)
  then have "lru_links ?c (i # as @ bs)"
    unfolding lru_links_def using A(1,3) D(4) dj un fr by auto
  moreover have "lru_keys ?c (i # as @ bs)"
    using k lru_keys_cong [OF _ pay, of "i # as @ bs" "as @ i # bs"] sub by auto
  ultimately show "lru_wf ?c (i # as @ bs)"
    using b abs by (simp add: lru_wf_def list_bytes_abs)
qed

lemma lru_wf_in:
  assumes "lru_wf c xs" "x \<in> set xs"
  obtains k v where "nd_key (nodes c ! x) = Some k" "nd_value (nodes c ! x) = Some v"
    "map_of (lru_map c) k = Some x" "x < length (nodes c)"
proof -
  have "nd_key (nodes c ! x) \<noteq> None" "nd_value (nodes c ! x) \<noteq> None" "x < length (nodes c)"
    using assms by (auto simp: lru_wf_def lru_keys_def lru_links_def)
  then show thesis using assms that by (auto simp: lru_wf_def lru_keys_def)
qed

lemma lru_keys_inj:
  assumes "lru_keys c xs" "x \<in> set xs" "y \<in> set xs" "nd_key (nodes c ! x) = nd_key (nodes c ! y)"
  shows "x = y"
  using assms unfolding lru_keys_def by (metis option.exhaust option.inject)

lemma dll_upd_other:
  assumes "dll c xs" "i \<notin> set xs"
  shows "dll (c\<lparr>nodes := (nodes c)[i := nd]\<rparr>) xs"
  using assms by (simp add: dll_def)

lemma lru_remove:
  assumes "lru_wf c (as @ i # bs)"
  shows "lru_wf (remove_node i c) (as @ bs)"
    "lru_abs (remove_node i c) (as @ bs) = lru_abs c (as @ bs)"
    "capacity_bytes (remove_node i c) = capacity_bytes c"
proof -
  let ?c0 = "c\<lparr>current_bytes := current_bytes c - nd_size (nodes c ! i)\<rparr>"
  let ?c1 = "detach i ?c0"
  obtain k where k: "nd_key (nodes c ! i) = Some k" "map_of (lru_map c) k = Some i" and il: "i < length (nodes c)"
    by (rule lru_wf_in [OF assms]) auto
  have keys: "lru_keys c (as @ i # bs)" and b: "current_bytes c = list_bytes c (as @ i # bs)"
    and dj: "set (as @ i # bs) \<inter> set (free c) = {}" "distinct (free c)"
    and un: "set (as @ i # bs) \<union> set (free c) = {..<length (nodes c)}"
    and ul: "\<forall>x \<in> set (free c). unlinked c x" and d: "dll ?c0 (as @ i # bs)"
    using assms by (auto simp: lru_wf_def lru_links_def dll_def)
  note D = detach_dll [OF d]
  have pay: "map payload (nodes ?c1) = map payload (nodes c)" by (simp add: detach_payload)
  have i: "i \<notin> set (as @ bs)" using d by (auto simp: dll_def)
  let ?nd = "(nodes ?c1 ! i)\<lparr>nd_key := None, nd_value := None, nd_size := 0\<rparr>"
  have r: "remove_node i c = ?c1\<lparr>lru_map := AList.delete k (lru_map c), nodes := (nodes ?c1)[i := ?nd], free := i # free c\<rparr>"
    using payload_eqD(1) [OF same_payload [OF pay il]] k
    by (simp add: remove_node_def Let_def upd_node_def)
  have len: "length (nodes ?c1) = length (nodes c)" using D(4) by simp
  have same: "payload (nodes (remove_node i c) ! x) = payload (nodes c ! x)" if "x \<in> set (as @ bs)" for x
  proof -
    have "x \<noteq> i" "x < length (nodes c)" using that i un by auto
    then show ?thesis using same_payload [OF pay, of x] by (simp add: r)
  qed
  show "capacity_bytes (remove_node i c) = capacity_bytes c" by (simp add: r)
  show abs: "lru_abs (remove_node i c) (as @ bs) = lru_abs c (as @ bs)"
    using same by (simp add: lru_abs_def node_entry_def payload_def)
  have "dll (remove_node i c) (as @ bs)"
    using dll_upd_other [OF D(1) i] by (simp add: r dll_def)
  moreover have "unlinked (remove_node i c) x" if "x \<in> set (i # free c)" for x
  proof (cases "x = i")
    case True
    then show ?thesis using D(2) il len by (simp add: r unlinked_def)
  next
    case False
    with that have x: "x \<in> set (free c)" by simp
    with dj have "x \<notin> set (as @ i # bs)" by blast
    from D(3) [OF this] x ul have "unlinked ?c1 x" by (simp add: unlinked_def)
    then show ?thesis using False by (simp add: r unlinked_def)
  qed
  ultimately have "lru_links (remove_node i c) (as @ bs)"
    unfolding lru_links_def using dj un i len by (auto simp: r)
  moreover have "lru_keys (remove_node i c) (as @ bs)"
  proof -
    have "map_of (AList.delete k (lru_map c)) k' = Some x \<longleftrightarrow>
        x \<in> set (as @ bs) \<and> nd_key (nodes c ! x) = Some k'" for k' x
    proof (cases "k' = k")
      case True
      have "x = i" if "x \<in> set (as @ bs)" "nd_key (nodes c ! x) = Some k"
        using lru_keys_inj [OF keys, of x i] that k by auto
      then show ?thesis using True i by (auto simp: delete_conv')
    next
      case False
      then show ?thesis using keys k i unfolding lru_keys_def by (auto simp: delete_conv')
    qed
    moreover have "distinct (map fst (AList.delete k (lru_map c)))"
      using keys by (simp add: lru_keys_def distinct_delete)
    moreover have "nd_key (nodes (remove_node i c) ! x) = nd_key (nodes c ! x)
        \<and> nd_value (nodes (remove_node i c) ! x) = nd_value (nodes c ! x)" if "x \<in> set (as @ bs)" for x
      using same [OF that] by (simp add: payload_def)
    moreover have "lru_map (remove_node i c) = AList.delete k (lru_map c)" by (simp add: r)
    ultimately show ?thesis using keys by (simp add: lru_keys_def cong: conj_cong)
  qed
  moreover have "current_bytes (remove_node i c) = list_bytes (remove_node i c) (as @ bs)"
    using b abs by (simp add: list_bytes_abs r node_entry_def)
  ultimately show "lru_wf (remove_node i c) (as @ bs)" by (simp add: lru_wf_def)
qed

text \<open>The eviction loop returns, and trims the list from its least recently used end.\<close>

lemma evict_trims:
  assumes "lru_wf c xs"
  shows "\<exists>c' ys. evict_if_needed c = Some c' \<and> lru_wf c' ys \<and> capacity_bytes c' = capacity_bytes c
    \<and> lru_abs c' ys = mru_trim (capacity_bytes c) (lru_abs c xs)"
  using assms
proof (induction xs arbitrary: c rule: rev_induct)
  case Nil
  then have "current_bytes c = 0" by (simp add: lru_wf_def list_bytes_def)
  then have "evict_if_needed c = Some c" by (subst evict_if_needed.simps) simp
  then show ?case using Nil by (auto simp: mru_trim_done lru_abs_def)
next
  case (snoc x xs)
  have b: "current_bytes c = mru_bytes (lru_abs c (xs @ [x]))" and t: "tail c = Some x"
    using snoc.prems by (auto simp: lru_wf_def list_bytes_abs lru_links_def dll_def)
  show ?case
  proof (cases "capacity_bytes c < current_bytes c")
    case True
    note R = lru_remove [of c xs x "[]", simplified, OF snoc.prems]
    have "evict_if_needed c = evict_if_needed (remove_node x c)"
      using True t by (subst evict_if_needed.simps) simp
    moreover have "mru_trim (capacity_bytes c) (lru_abs c (xs @ [x])) = mru_trim (capacity_bytes c) (lru_abs c xs)"
      using True b mru_trim_step [of "capacity_bytes c" "lru_abs c (xs @ [x])"] by (simp add: butlast_append)
    ultimately show ?thesis using snoc.IH [OF R(1)] R(2,3) by simp
  next
    case False
    then have "evict_if_needed c = Some c" by (subst evict_if_needed.simps) simp
    then show ?thesis using False b snoc.prems by (metis mru_trim_done not_less)
  qed
qed

definition lru_rel :: "nat \<Rightarrow> ('k, 'v) lru_cache \<Rightarrow> ('k, 'v) mru \<Rightarrow> bool" where
  "lru_rel cap c l \<longleftrightarrow>
     capacity_bytes c = cap \<and> mru_bytes l \<le> cap \<and> (\<exists>xs. lru_wf c xs \<and> lru_abs c xs = l)"

lemma lru_rel_new: "lru_new cap = Some c \<Longrightarrow> lru_rel cap c []"
  by (auto simp: lru_new_def lru_rel_def lru_wf_def lru_links_def dll_def lru_keys_def list_bytes_def
      lru_abs_def split: if_splits intro!: exI [of _ "[]"])

text \<open>What the hash map finds is what the list holds under the key.\<close>

lemma lru_found:
  assumes "lru_wf c xs" "map_of (lru_map c) k = Some i"
  obtains as bs v where "xs = as @ i # bs" "nd_key (nodes c ! i) = Some k" "nd_value (nodes c ! i) = Some v"
    "mru_drop k (lru_abs c xs) = lru_abs c (as @ bs)" "map_of (lru_abs c xs) k = Some (v, nd_size (nodes c ! i))"
    "node_entry (nodes c ! i) = (k, v, nd_size (nodes c ! i))"
proof -
  have keys: "lru_keys c xs" and dx: "distinct xs"
    using assms(1) by (auto simp: lru_wf_def lru_links_def dll_def)
  have i: "i \<in> set xs" "nd_key (nodes c ! i) = Some k" using keys assms(2) by (auto simp: lru_keys_def)
  obtain as bs where xs: "xs = as @ i # bs" using split_list [OF i(1)] by blast
  obtain v where v: "nd_value (nodes c ! i) = Some v" using keys i(1) by (auto simp: lru_keys_def)
  have other: "\<forall>x \<in> set (as @ bs). fst (node_entry (nodes c ! x)) \<noteq> k"
  proof (intro ballI notI)
    fix x
    assume that: "x \<in> set (as @ bs)" and "fst (node_entry (nodes c ! x)) = k"
    moreover have "nd_key (nodes c ! x) \<noteq> None" using keys that xs by (auto simp: lru_keys_def)
    ultimately have "nd_key (nodes c ! x) = nd_key (nodes c ! i)" using i(2) by (auto simp: node_entry_def)
    then have "x = i" using lru_keys_inj [OF keys] that xs i(1) by auto
    then show False using that dx xs by auto
  qed
  have e: "node_entry (nodes c ! i) = (k, v, nd_size (nodes c ! i))" by (simp add: node_entry_def i(2) v)
  have "mru_drop k (lru_abs c xs) = lru_abs c (as @ bs)"
    using other by (auto simp: xs e mru_drop_def lru_abs_def filter_id_conv)
  moreover have "map_of (lru_abs c as) k = None"
    using other by (auto simp: map_of_eq_None_iff lru_abs_def)
  then have "map_of (lru_abs c xs) k = Some (v, nd_size (nodes c ! i))" by (simp add: xs e map_add_def)
  ultimately show thesis using that xs i(2) v e by blast
qed

lemma lru_absent:
  assumes "lru_wf c xs" "map_of (lru_map c) k = None"
  shows "mru_drop k (lru_abs c xs) = lru_abs c xs" "map_of (lru_abs c xs) k = None"
proof -
  have "\<forall>x \<in> set xs. fst (node_entry (nodes c ! x)) \<noteq> k"
  proof
    fix x
    assume x: "x \<in> set xs"
    obtain k' where "nd_key (nodes c ! x) = Some k'" "map_of (lru_map c) k' = Some x"
      by (rule lru_wf_in [OF assms(1) x])
    with assms(2) show "fst (node_entry (nodes c ! x)) \<noteq> k" by (auto simp: node_entry_def)
  qed
  then show "mru_drop k (lru_abs c xs) = lru_abs c xs" "map_of (lru_abs c xs) k = None"
    by (auto simp: mru_drop_def lru_abs_def filter_id_conv map_of_eq_None_iff)
qed

lemma mru_drop_le: "mru_bytes (mru_drop k l) \<le> mru_bytes l"
  by (induction l) (auto simp: mru_drop_def)

lemma mru_drop_bytes: "map_of l k = Some (v, s) \<Longrightarrow> mru_bytes (mru_drop k l) + s \<le> mru_bytes l"
proof (induction l)
  case (Cons e l)
  then show ?case using mru_drop_le [of k l] by (auto simp: mru_drop_def split: if_splits)
qed simp

lemma lru_get_refines:
  assumes "lru_rel cap c l"
  shows "snd (lru_get k c) = snd (mru_get k l) \<and> lru_rel cap (fst (lru_get k c)) (fst (mru_get k l))"
proof -
  obtain xs where wf: "lru_wf c xs" and l: "lru_abs c xs = l" and cap: "capacity_bytes c = cap" "mru_bytes l \<le> cap"
    using assms by (auto simp: lru_rel_def)
  show ?thesis
  proof (cases "map_of (lru_map c) k")
    case None
    with lru_absent [OF wf None] assms l show ?thesis by (simp add: lru_get_def mru_get_def)
  next
    case (Some i)
    obtain as bs v where F: "xs = as @ i # bs" "nd_key (nodes c ! i) = Some k" "nd_value (nodes c ! i) = Some v"
      "mru_drop k l = lru_abs c (as @ bs)" "map_of l k = Some (v, nd_size (nodes c ! i))"
      "node_entry (nodes c ! i) = (k, v, nd_size (nodes c ! i))"
      using lru_found [OF wf Some] l by metis
    let ?c = "attach_head i (detach i c)"
    note T = lru_touch [OF wf [unfolded F(1)]]
    have "i < length (nodes c)" using wf F(1) by (auto simp: lru_wf_def lru_links_def)
    from same_payload [OF _ this, of ?c] have "nd_value (nodes ?c ! i) = Some v"
      using F(3) payload_eqD(2) by (metis attach_head_payload detach_payload)
    moreover have "lru_rel cap ?c ((k, v, nd_size (nodes c ! i)) # mru_drop k l)"
      using T F mru_drop_bytes [OF F(5)] cap unfolding lru_rel_def by (intro conjI exI [of _ "i # as @ bs"]) auto
    ultimately show ?thesis using Some F(5) by (simp add: lru_get_def mru_get_def Let_def)
  qed
qed

lemma evict_rel:
  assumes "lru_wf c xs" "capacity_bytes c = cap"
  shows "\<exists>c'. evict_if_needed c = Some c' \<and> lru_rel cap c' (mru_trim cap (lru_abs c xs))"
  using evict_trims [OF assms(1)] assms(2) mru_trim_bytes [of cap] by (auto simp: lru_rel_def)

text \<open>Overwriting the payload of a listed node.\<close>

lemma lru_wf_set_value:
  assumes "lru_wf c (as @ i # bs)"
    and c': "c' = upd_node i (\<lambda>nd. nd\<lparr>nd_value := Some v, nd_size := sz\<rparr>)
                   (c\<lparr>current_bytes := current_bytes c - nd_size (nodes c ! i) + sz\<rparr>)"
  shows "lru_wf c' (as @ i # bs)" "lru_abs c' (as @ bs) = lru_abs c (as @ bs)"
    "node_entry (nodes c' ! i) = (the (nd_key (nodes c ! i)), v, sz)" "capacity_bytes c' = capacity_bytes c"
proof -
  have i: "i < length (nodes c)" "i \<notin> set (as @ bs)"
    using assms(1) by (auto simp: lru_wf_def lru_links_def dll_def)
  have same: "nodes c' ! x = nodes c ! x" if "x \<noteq> i" for x using that by (simp add: c' upd_node_def)
  have at: "nodes c' ! i = (nodes c ! i)\<lparr>nd_value := Some v, nd_size := sz\<rparr>" using i by (simp add: c' upd_node_def)
  have rest: "head c' = head c" "tail c' = tail c" "free c' = free c" "lru_map c' = lru_map c"
    "length (nodes c') = length (nodes c)" "current_bytes c' = current_bytes c - nd_size (nodes c ! i) + sz"
    by (simp_all add: c' upd_node_def)
  show "capacity_bytes c' = capacity_bytes c" by (simp add: c' upd_node_def)
  show e: "node_entry (nodes c' ! i) = (the (nd_key (nodes c ! i)), v, sz)" by (simp add: node_entry_def at)
  show abs: "lru_abs c' (as @ bs) = lru_abs c (as @ bs)"
  proof -
    have "\<forall>x \<in> set (as @ bs). nodes c' ! x = nodes c ! x" using i same by metis
    then show ?thesis by (simp add: lru_abs_def)
  qed
  have links: "prev (nodes c' ! x) = prev (nodes c ! x) \<and> next_n (nodes c' ! x) = next_n (nodes c ! x)
      \<and> nd_key (nodes c' ! x) = nd_key (nodes c ! x)" for x
    by (cases "x = i") (simp_all add: at same)
  have "dll c' (as @ i # bs) = dll c (as @ i # bs)"
    using seg_cong [of "as @ i # bs" "nodes c'" "nodes c"] links unfolding dll_def rest by metis
  moreover have "unlinked c' x = unlinked c x" for x using links by (simp add: unlinked_def)
  ultimately have "lru_links c' (as @ i # bs)"
    using assms(1) by (simp add: lru_wf_def lru_links_def rest)
  moreover have "lru_keys c' (as @ i # bs)"
  proof -
    have "nd_value (nodes c' ! x) \<noteq> None" if "x \<in> set (as @ i # bs)" for x
      using that assms(1) at same [of x] by (cases "x = i") (auto simp: lru_wf_def lru_keys_def)
    then show ?thesis using assms(1) links unfolding lru_wf_def lru_keys_def rest by metis
  qed
  moreover have "current_bytes c' = list_bytes c' (as @ i # bs)"
    using assms(1) arg_cong [OF abs, of mru_bytes] e
    by (simp add: lru_wf_def list_bytes_abs rest node_entry_def [of "nodes c ! i"])
  ultimately show "lru_wf c' (as @ i # bs)" by (simp add: lru_wf_def)
qed

text \<open>Taking a slot, from the free list or at the end of the vector.\<close>

lemma alloc_node_ok:
  assumes "lru_wf c xs" "alloc_node c = (c', i)"
  shows "dll c' xs" "i \<notin> set xs" "i < length (nodes c')" "unlinked c' i"
    "distinct (free c')" "i \<notin> set (free c')" "set xs \<inter> set (free c') = {}"
    "insert i (set xs \<union> set (free c')) = {..<length (nodes c')}"
    "\<forall>x \<in> set (free c'). unlinked c' x" "\<forall>x \<in> set xs. nodes c' ! x = nodes c ! x"
    "lru_map c' = lru_map c" "capacity_bytes c' = capacity_bytes c" "current_bytes c' = current_bytes c"
proof -
  have W: "dll c xs" "distinct (free c)" "set xs \<inter> set (free c) = {}"
    "set xs \<union> set (free c) = {..<length (nodes c)}" "\<forall>x \<in> set (free c). unlinked c x"
    using assms(1) by (auto simp: lru_wf_def lru_links_def)
  have sub: "\<forall>x \<in> set xs. x < length (nodes c)" using W(4) by blast
  show "lru_map c' = lru_map c" "capacity_bytes c' = capacity_bytes c" "current_bytes c' = current_bytes c"
    using assms(2) by (auto simp: alloc_node_def split: list.splits)
  have "dll c' xs \<and> i \<notin> set xs \<and> i < length (nodes c') \<and> unlinked c' i
    \<and> distinct (free c') \<and> i \<notin> set (free c') \<and> set xs \<inter> set (free c') = {}
    \<and> insert i (set xs \<union> set (free c')) = {..<length (nodes c')}
    \<and> (\<forall>x \<in> set (free c'). unlinked c' x) \<and> (\<forall>x \<in> set xs. nodes c' ! x = nodes c ! x)"
  proof (cases "free c")
    case Nil
    let ?nd = "\<lparr>nd_key = None, nd_value = None, prev = None, next_n = None, nd_size = 0\<rparr>"
    have c': "c' = c\<lparr>nodes := nodes c @ [?nd]\<rparr>" "i = length (nodes c)"
      using assms(2) Nil by (auto simp: alloc_node_def)
    have "seg (nodes c @ [?nd]) None xs None = seg (nodes c) None xs None"
      by (rule seg_cong) (simp add: sub nth_append)
    moreover have "{..<Suc (length (nodes c))} = insert (length (nodes c)) (set xs)"
      using W(4) Nil by (simp add: lessThan_Suc)
    ultimately show ?thesis using W Nil sub by (auto simp: c' dll_def unlinked_def nth_append)
  next
    case (Cons f fs)
    then have c': "c' = c\<lparr>free := fs\<rparr>" "i = f" using assms(2) by (auto simp: alloc_node_def)
    have "f < length (nodes c)" using W(4) Cons by auto
    with W Cons show ?thesis by (auto simp: c' dll_def unlinked_def)
  qed
  then show "dll c' xs" "i \<notin> set xs" "i < length (nodes c')" "unlinked c' i"
    "distinct (free c')" "i \<notin> set (free c')" "set xs \<inter> set (free c') = {}"
    "insert i (set xs \<union> set (free c')) = {..<length (nodes c')}"
    "\<forall>x \<in> set (free c'). unlinked c' x" "\<forall>x \<in> set xs. nodes c' ! x = nodes c ! x"
    by blast+
qed

lemma lru_wf_new_node:
  assumes "lru_wf c xs" "map_of (lru_map c) key = None" "alloc_node (c\<lparr>current_bytes := current_bytes c + sz\<rparr>) = (c2, i)"
    and c3: "c3 = upd_node i (\<lambda>nd. nd\<lparr>nd_key := Some key, nd_value := Some v, nd_size := sz\<rparr>) c2"
    and c4: "c4 = c3\<lparr>lru_map := AList.update key i (lru_map c3)\<rparr>"
  shows "lru_wf (attach_head i c4) (i # xs)" "lru_abs (attach_head i c4) (i # xs) = (key, v, sz) # lru_abs c xs"
    "capacity_bytes (attach_head i c4) = capacity_bytes c"
proof -
  let ?c0 = "c\<lparr>current_bytes := current_bytes c + sz\<rparr>"
  let ?c = "attach_head i c4"
  obtain c0' where al: "alloc_node c = (c0', i)" and c2: "c2 = c0'\<lparr>current_bytes := current_bytes c + sz\<rparr>"
    using assms(3) by (auto simp: alloc_node_def split: list.splits)
  note A = alloc_node_ok [OF assms(1) al]
  have n4: "nodes c4 = (nodes c0')[i := (nodes c0' ! i)\<lparr>nd_key := Some key, nd_value := Some v, nd_size := sz\<rparr>]"
    by (simp add: c4 c3 c2 upd_node_def)
  have rest: "lru_map c4 = AList.update key i (lru_map c)" "free c4 = free c0'" "head c4 = head c0'" "tail c4 = tail c0'"
    "capacity_bytes c4 = capacity_bytes c" "current_bytes c4 = current_bytes c + sz"
    "length (nodes c4) = length (nodes c0')"
    by (simp_all add: c4 c3 c2 upd_node_def A)
  have dll4: "dll c4 xs" using A(1,2) by (simp add: dll_def n4 rest)
  have un4: "unlinked c4 x = unlinked c0' x" for x
    using A(3) by (cases "x = i") (simp_all add: unlinked_def n4)
  have "i < length (nodes c4)" "unlinked c4 i" using A(3,4) rest un4 by simp_all
  note H = attach_head_dll [OF dll4 A(2) this]
  have sub: "set (i # xs) \<subseteq> {..<length (nodes c4)}" using A(8) rest(7) by auto
  show "capacity_bytes ?c = capacity_bytes c" by (simp add: rest)
  have at4: "nodes c4 ! i = (nodes c0' ! i)\<lparr>nd_key := Some key, nd_value := Some v, nd_size := sz\<rparr>"
    using A(3) by (simp add: n4)
  have xs4: "\<forall>x \<in> set xs. nodes c4 ! x = nodes c ! x" using A(2,10) n4 by (metis nth_list_update_neq)
  have "lru_abs c4 (i # xs) = (key, v, sz) # lru_abs c xs"
    using xs4 by (simp add: lru_abs_def at4 node_entry_def)
  then show abs: "lru_abs ?c (i # xs) = (key, v, sz) # lru_abs c xs"
    using lru_abs_cong [OF attach_head_payload sub, of i] by simp
  have "\<forall>x \<in> set (free c4). unlinked ?c x"
    using A(6,7,9) H(2) un4 rest(2) by (metis disjoint_iff set_ConsD)
  then have "lru_links ?c (i # xs)"
    unfolding lru_links_def using H(1,3) A(2,5,6,7,8) rest(2,7) by auto
  moreover have "lru_keys ?c (i # xs)"
  proof -
    have keys: "lru_keys c xs" using assms(1) by (simp add: lru_wf_def)
    have "map_of (lru_map c4) k = Some x \<longleftrightarrow> x \<in> set (i # xs) \<and> nd_key (nodes c4 ! x) = Some k" for k x
    proof (cases "x = i")
      case True
      then show ?thesis using keys A(2) by (auto simp: rest update_conv' at4 lru_keys_def)
    next
      case False
      then show ?thesis using keys assms(2) xs4 by (auto simp: rest update_conv' lru_keys_def)
    qed
    then have "lru_keys c4 (i # xs)"
      using keys xs4 unfolding lru_keys_def by (auto simp: rest distinct_update at4)
    then show ?thesis using lru_keys_cong [OF _ attach_head_payload _ sub, of i] by simp
  qed
  moreover have "current_bytes ?c = list_bytes ?c (i # xs)"
    using assms(1) abs by (simp add: list_bytes_abs rest lru_wf_def del: lru_abs_Cons)
  ultimately show "lru_wf ?c (i # xs)" by (simp add: lru_wf_def)
qed

lemma lru_insert_refines:
  assumes "lru_rel cap c l" "2 * cap < 2 ^ 64"
  shows "\<exists>c'. lru_insert k v sz c = Some c' \<and> lru_rel cap c' (mru_insert cap k v sz l)"
proof -
  obtain xs where wf: "lru_wf c xs" and l: "lru_abs c xs = l" and cap: "capacity_bytes c = cap" "mru_bytes l \<le> cap"
    using assms(1) by (auto simp: lru_rel_def)
  have cb: "current_bytes c = mru_bytes l" using wf l by (simp add: lru_wf_def list_bytes_abs)
  show ?thesis
  proof (cases "map_of (lru_map c) k")
    case None
    note N = lru_absent [OF wf None, unfolded l]
    show ?thesis
    proof (cases "cap < sz")
      case True
      then show ?thesis using None N assms(1) cap by (simp add: lru_insert_def mru_insert_def)
    next
      case False
      then have sat: "usize_sat_add (current_bytes c) sz = current_bytes c + sz"
        using cb cap assms(2) by (simp add: usize_sat_add_def)
      obtain c2 i where al: "alloc_node (c\<lparr>current_bytes := current_bytes c + sz\<rparr>) = (c2, i)" by fastforce
      note W = lru_wf_new_node [OF wf None al refl refl, of v]
      show ?thesis
        using evict_rel [OF W(1)] W(2,3) False None N al cap l
        by (simp add: lru_insert_def mru_insert_def sat Let_def)
    qed
  next
    case (Some i)
    obtain as bs v0 where F: "xs = as @ i # bs" "nd_key (nodes c ! i) = Some k" "nd_value (nodes c ! i) = Some v0"
      "mru_drop k l = lru_abs c (as @ bs)" "map_of l k = Some (v0, nd_size (nodes c ! i))"
      "node_entry (nodes c ! i) = (k, v0, nd_size (nodes c ! i))"
      using lru_found [OF wf Some] l by metis
    show ?thesis
    proof (cases "cap < sz")
      case True
      have "lru_rel cap (remove_node i c) (mru_drop k l)"
        using lru_remove [OF wf [unfolded F(1)]] F(4) cap mru_drop_le [of k l] by (auto simp: lru_rel_def)
      then show ?thesis using True Some cap by (simp add: lru_insert_def mru_insert_def)
    next
      case False
      then have sat: "usize_sat_add (current_bytes c - nd_size (nodes c ! i)) sz = current_bytes c - nd_size (nodes c ! i) + sz"
        using cb cap assms(2) by (simp add: usize_sat_add_def)
      define c1 where "c1 = upd_node i (\<lambda>nd. nd\<lparr>nd_value := Some v, nd_size := sz\<rparr>)
                              (c\<lparr>current_bytes := current_bytes c - nd_size (nodes c ! i) + sz\<rparr>)"
      note V = lru_wf_set_value [OF wf [unfolded F(1)] c1_def]
      note T = lru_touch [OF V(1)]
      have "lru_abs (attach_head i (detach i c1)) (i # as @ bs) = (k, v, sz) # mru_drop k l"
        using T(2) V(2,3) F(2,4) by simp
      then show ?thesis
        using evict_rel [OF T(1)] V(4) False Some cap
        by (simp add: lru_insert_def mru_insert_def Let_def sat flip: c1_def)
    qed
  qed
qed

section \<open>The contract of a cache, and its clients' lemmas\<close>

text \<open>
  A cache may forget, but what it still knows under a key is what was last stored there. A client
  that fills it from a function \<open>load\<close> therefore reads through it what \<open>load\<close> would return.
\<close>

locale forgetful_cache =
  fixes cget :: "'k \<Rightarrow> 'c \<Rightarrow> 'c \<times> 'v option"
    and cput :: "'k \<Rightarrow> 'v \<Rightarrow> 'c \<Rightarrow> 'c option"
    and known :: "'c \<Rightarrow> 'k \<Rightarrow> 'v option"
    and cinv :: "'c \<Rightarrow> bool"
  assumes get_result: "cinv c \<Longrightarrow> snd (cget k c) = known c k"
    and get_inv: "cinv c \<Longrightarrow> cinv (fst (cget k c))"
    and get_known: "cinv c \<Longrightarrow> known (fst (cget k c)) = known c"
    and put_returns: "cinv c \<Longrightarrow> \<exists>c'. cput k v c = Some c' \<and> cinv c'"
    and put_same: "cinv c \<Longrightarrow> cput k v c = Some c' \<Longrightarrow> known c' k = Some w \<Longrightarrow> w = v"
    and put_other: "cinv c \<Longrightarrow> cput k v c = Some c' \<Longrightarrow> k' \<noteq> k \<Longrightarrow> known c' k' = Some w \<Longrightarrow> known c k' = Some w"
begin

lemma hit_loads:
  "cinv c \<Longrightarrow> (\<forall>k v. known c k = Some v \<longrightarrow> load k = Some v) \<Longrightarrow> snd (cget k c) = Some v \<Longrightarrow> load k = Some v"
  by (simp add: get_result)

lemma get_keeps_coherence:
  "cinv c \<Longrightarrow> (\<forall>k v. known c k = Some v \<longrightarrow> load k = Some v)
    \<Longrightarrow> (\<forall>k v. known (fst (cget k0 c)) k = Some v \<longrightarrow> load k = Some v)"
  by (simp add: get_known)

lemma put_keeps_coherence:
  assumes "cinv c" "\<forall>k v. known c k = Some v \<longrightarrow> load k = Some v" "load k = Some v"
  shows "\<exists>c'. cput k v c = Some c' \<and> cinv c' \<and> (\<forall>k v. known c' k = Some v \<longrightarrow> load k = Some v)"
  using assms put_returns [of c k v] put_same [of c k v] put_other [of c k v] by metis

end

definition lru_lookup :: "('k, 'v) lru_cache \<Rightarrow> 'k \<Rightarrow> 'v option" where
  "lru_lookup c k = (case map_of (lru_map c) k of Some i \<Rightarrow> nd_value (nodes c ! i) | None \<Rightarrow> None)"

definition lru_inv :: "('k, 'v) lru_cache \<Rightarrow> bool" where
  "lru_inv c \<longleftrightarrow> (\<exists>l. lru_rel (capacity_bytes c) c l \<and> 2 * capacity_bytes c < 2 ^ 64)"

lemma lru_lookup_rel:
  assumes "lru_rel cap c l"
  shows "lru_lookup c k = map_option fst (map_of l k)"
proof -
  obtain xs where wf: "lru_wf c xs" and l: "lru_abs c xs = l" using assms by (auto simp: lru_rel_def)
  show ?thesis
  proof (cases "map_of (lru_map c) k")
    case None
    then show ?thesis using lru_absent [OF wf None] l by (simp add: lru_lookup_def)
  next
    case (Some i)
    obtain v where "nd_value (nodes c ! i) = Some v" "map_of l k = Some (v, nd_size (nodes c ! i))"
      using lru_found [OF wf Some] l by metis
    then show ?thesis using Some by (simp add: lru_lookup_def)
  qed
qed

lemma map_of_mru_drop: "map_of (mru_drop k l) k' = (if k' = k then None else map_of l k')"
  by (induction l) (auto simp: mru_drop_def)

lemma map_of_mru_trim: "map_of (mru_trim cap l) k = Some x \<Longrightarrow> map_of l k = Some x"
  using mru_trim_prefix [of l cap] by (metis map_add_find_right map_add_None map_of_append option.exhaust)

lemma map_of_mru_get: "map_of (fst (mru_get k l)) = map_of l"
  by (rule ext) (auto simp: mru_get_def map_of_mru_drop split: option.split)

lemma map_of_mru_insert:
  "map_of (mru_insert cap k v s l) k' = Some x \<Longrightarrow> (if k' = k then x = (v, s) else map_of l k' = Some x)"
  by (auto simp: mru_insert_def map_of_mru_drop dest!: map_of_mru_trim split: if_splits)

lemma lru_inv_cases:
  assumes "lru_inv c"
  obtains l where "lru_rel (capacity_bytes c) c l" "2 * capacity_bytes c < 2 ^ 64"
  using assms by (auto simp: lru_inv_def)

lemma lru_rel_inv: "lru_rel cap c l \<Longrightarrow> 2 * cap < 2 ^ 64 \<Longrightarrow> lru_inv c"
  by (auto simp: lru_inv_def lru_rel_def)

interpretation lru: forgetful_cache lru_get "\<lambda>k v. lru_insert k v (sz v)" lru_lookup lru_inv for sz
proof
  fix c :: "('a, 'b) lru_cache" and k k' v w c'
  assume "lru_inv c"
  then obtain l where l: "lru_rel (capacity_bytes c) c l" "2 * capacity_bytes c < 2 ^ 64" by (rule lru_inv_cases)
  note G = lru_get_refines [OF l(1), of k] and I = lru_insert_refines [OF l, of k v "sz v"]
  show "snd (lru_get k c) = lru_lookup c k"
    using G by (auto simp: lru_lookup_rel [OF l(1)] mru_get_def split: option.split)
  show "lru_inv (fst (lru_get k c))" using G l(2) lru_rel_inv by blast
  show "lru_lookup (fst (lru_get k c)) = lru_lookup c"
    using lru_lookup_rel [OF conjunct2 [OF G]] by (simp add: lru_lookup_rel [OF l(1)] map_of_mru_get fun_eq_iff)
  show "\<exists>c'. lru_insert k v (sz v) c = Some c' \<and> lru_inv c'" using I l(2) lru_rel_inv by blast
  assume "lru_insert k v (sz v) c = Some c'"
  with I have r: "lru_rel (capacity_bytes c) c' (mru_insert (capacity_bytes c) k v (sz v) l)" by auto
  show "w = v" if "lru_lookup c' k = Some w"
    using that map_of_mru_insert [of _ k v _ l k] by (auto simp: lru_lookup_rel [OF r])
  show "lru_lookup c k' = Some w" if "k' \<noteq> k" "lru_lookup c' k' = Some w"
    using that map_of_mru_insert [of _ k v _ l k'] by (fastforce simp: lru_lookup_rel [OF r] lru_lookup_rel [OF l(1)])
qed

definition bc_lookup :: "('x::linorder) block_cache \<Rightarrow> cache_key \<Rightarrow> 'x entry list option" where
  "bc_lookup shards key = lru_lookup (shards ! get_shard key shards) key"

definition bc_inv :: "('x::linorder) block_cache \<Rightarrow> bool" where
  "bc_inv shards \<longleftrightarrow> shards \<noteq> [] \<and> (\<forall>c \<in> set shards. lru_inv c)"

lemma get_shard_less: "shards \<noteq> [] \<Longrightarrow> get_shard key shards < length shards"
  by (simp add: get_shard_def)

lemma get_shard_update [simp]: "get_shard key (shards[i := c]) = get_shard key shards"
  by (simp add: get_shard_def)

lemma bc_inv_shard: "bc_inv shards \<Longrightarrow> lru_inv (shards ! get_shard key shards)"
  by (simp add: bc_inv_def get_shard_less)

lemma bc_inv_update: "bc_inv shards \<Longrightarrow> lru_inv c \<Longrightarrow> bc_inv (shards[i := c])"
  by (auto simp: bc_inv_def dest: set_update_subset_insert [THEN subsetD])

lemma bc_lookup_update:
  "bc_inv shards \<Longrightarrow> bc_lookup (shards[get_shard k shards := c]) k' =
    (if get_shard k' shards = get_shard k shards then lru_lookup c k' else bc_lookup shards k')"
  by (simp add: bc_lookup_def bc_inv_def get_shard_less)

interpretation bc: forgetful_cache bc_get bc_insert bc_lookup bc_inv
proof
  fix c :: "('x::linorder) block_cache" and k k' v w c'
  assume inv: "bc_inv c"
  note s = bc_inv_shard [OF inv, of k]
  note put = lru.put_returns [OF s, of k v block_byte_size]
  show "snd (bc_get k c) = bc_lookup c k"
    using lru.get_result [OF s] by (simp add: bc_get_def bc_lookup_def split_beta Let_def)
  show "bc_inv (fst (bc_get k c))"
    using lru.get_inv [OF s] inv by (simp add: bc_get_def split_beta Let_def bc_inv_update)
  show "bc_lookup (fst (bc_get k c)) = bc_lookup c"
    using lru.get_known [OF s]
    by (auto simp: fun_eq_iff bc_get_def split_beta Let_def bc_lookup_update [OF inv]) (simp add: bc_lookup_def)
  show "\<exists>c'. bc_insert k v c = Some c' \<and> bc_inv c'"
    using put inv by (auto simp: bc_insert_def Let_def bc_inv_update)
  assume "bc_insert k v c = Some c'"
  then obtain d where d: "lru_insert k v (block_byte_size v) (c ! get_shard k c) = Some d"
    and c': "c' = c[get_shard k c := d]"
    by (auto simp: bc_insert_def Let_def)
  show "w = v" if "bc_lookup c' k = Some w"
    using that lru.put_same [where sz = block_byte_size, OF s d] by (simp add: c' bc_lookup_update [OF inv])
  show "bc_lookup c k' = Some w" if "k' \<noteq> k" "bc_lookup c' k' = Some w"
    using that lru.put_other [where sz = block_byte_size, OF s d that(1)]
    by (cases "get_shard k' c = get_shard k c") (auto simp: c' bc_lookup_update [OF inv] bc_lookup_def [of c])
qed

lemma bc_new_inv:
  assumes "0 < capacity" "capacity < 2 ^ 64"
  shows "\<exists>shards. bc_new capacity = Some shards \<and> bc_inv shards
    \<and> bc_lookup (shards :: ('x::linorder) block_cache) = (\<lambda>_. None)"
proof -
  define cap where "cap = (capacity + 15) div 16"
  have cap: "0 < cap" "2 * cap < 2 ^ 64" using assms by (auto simp: cap_def)
  obtain c :: "(cache_key, 'x entry list) lru_cache" where c: "lru_new cap = Some c"
    using cap(1) by (simp add: lru_new_def)
  note r = lru_rel_new [OF c]
  have "bc_new capacity = Some (replicate 16 c)" by (simp add: bc_new_def c flip: cap_def)
  moreover have "bc_inv (replicate 16 c)" using lru_rel_inv [OF r cap(2)] by (simp add: bc_inv_def)
  moreover have "bc_lookup (replicate 16 c) k = None" for k
    using get_shard_less [of "replicate 16 c" k] by (simp add: bc_lookup_def lru_lookup_rel [OF r])
  ultimately show ?thesis by (auto simp: fun_eq_iff)
qed

section \<open>Properties\<close>

datatype ('k, 'v) lru_op = OpGet 'k | OpInsert 'k 'v nat

text \<open>Traces: the answers of a sequence of operations, and the cache they leave.\<close>

fun lru_run :: "('k, 'v) lru_op list \<Rightarrow> ('k, 'v) lru_cache \<Rightarrow> ('v option list \<times> ('k, 'v) lru_cache) option" where
  "lru_run [] c = Some ([], c)"
| "lru_run (OpGet k # ops) c = (let (c', r) = lru_get k c in map_option (\<lambda>(rs, d). (r # rs, d)) (lru_run ops c'))"
| "lru_run (OpInsert k v s # ops) c = Option.bind (lru_insert k v s c) (lru_run ops)"

fun mru_run :: "nat \<Rightarrow> ('k, 'v) lru_op list \<Rightarrow> ('k, 'v) mru \<Rightarrow> 'v option list \<times> ('k, 'v) mru" where
  "mru_run cap [] l = ([], l)"
| "mru_run cap (OpGet k # ops) l = (let (l', r) = mru_get k l; (rs, m) = mru_run cap ops l' in (r # rs, m))"
| "mru_run cap (OpInsert k v s # ops) l = mru_run cap ops (mru_insert cap k v s l)"

lemma lru_run_refines:
  assumes "lru_rel cap c l" "2 * cap < 2 ^ 64"
  shows "\<exists>c'. lru_run ops c = Some (fst (mru_run cap ops l), c') \<and> lru_rel cap c' (snd (mru_run cap ops l))"
  using assms(1)
proof (induction ops arbitrary: c l)
  case (Cons op ops)
  show ?case
  proof (cases op)
    case (OpGet k)
    obtain c1 r where g: "lru_get k c = (c1, r)" by fastforce
    obtain l1 r' where g': "mru_get k l = (l1, r')" by fastforce
    have "r' = r" "lru_rel cap c1 l1" using lru_get_refines [OF Cons.prems, of k] by (simp_all add: g g')
    with Cons.IH [of c1 l1] show ?thesis by (auto simp: OpGet g g' split_beta)
  next
    case (OpInsert k v s)
    with lru_insert_refines [OF Cons.prems assms(2), of k v s] Cons.IH show ?thesis by auto
  qed
qed simp

text \<open>
  C16: The LRU cache refines a list. For every sequence of lookups and insertions on a new cache, every
  operation returns (the eviction loop ends), the answers are those of the list of entries ordered by
  recency of use and trimmed from its old end to the byte capacity, and afterwards the byte counter
  equals the sum of the sizes of the entries held and is within the capacity.
\<close>

theorem lru_refines_recency_list:
  assumes "lru_new cap = Some c" "2 * cap < 2 ^ 64"
  shows "\<exists>c'. lru_run ops c = Some (fst (mru_run cap ops []), c')
    \<and> current_bytes c' = mru_bytes (snd (mru_run cap ops [])) \<and> current_bytes c' \<le> cap"
proof -
  obtain c' where r: "lru_run ops c = Some (fst (mru_run cap ops []), c')"
    and rel: "lru_rel cap c' (snd (mru_run cap ops []))"
    using lru_run_refines [OF lru_rel_new [OF assms(1)] assms(2)] by blast
  have "current_bytes c' = mru_bytes (snd (mru_run cap ops []))" "current_bytes c' \<le> cap"
    using rel by (auto simp: lru_rel_def lru_wf_def list_bytes_abs)
  with r show ?thesis by blast
qed

theorem lru_refines_recency_list_witness:
  "\<exists>c'. lru_run [OpInsert (1::nat) ''a'' 4, OpInsert 2 ''b'' 4, OpGet 1, OpInsert 3 ''c'' 4, OpGet 2, OpGet 1, OpGet 3]
      (the (lru_new 10)) = Some ([Some ''a'', None, Some ''a'', Some ''c''], c') \<and> current_bytes c' \<le> 10"
proof -
  have n: "lru_new 10 = Some (the (lru_new 10 :: (nat, string) lru_cache option))" "2 * 10 < (2::nat) ^ 64"
    by (simp_all add: lru_new_def)
  have "fst (mru_run 10 [OpInsert (1::nat) ''a'' 4, OpInsert 2 ''b'' 4, OpGet 1, OpInsert 3 ''c'' 4, OpGet 2, OpGet 1, OpGet 3] [])
      = [Some ''a'', None, Some ''a'', Some ''c'']"
    by code_simp
  then show ?thesis
    using lru_refines_recency_list [OF n, of "[OpInsert (1::nat) ''a'' 4, OpInsert 2 ''b'' 4, OpGet 1,
      OpInsert 3 ''c'' 4, OpGet 2, OpGet 1, OpGet 3]"] by auto
qed

datatype 'x cache_op = CGet cache_key | CPut cache_key "'x entry list"

fun bc_run :: "('x::linorder) cache_op list \<Rightarrow> 'x block_cache \<Rightarrow> 'x block_cache option" where
  "bc_run [] c = Some c"
| "bc_run (CGet k # ops) c = bc_run ops (fst (bc_get k c))"
| "bc_run (CPut k b # ops) c = Option.bind (bc_insert k b c) (bc_run ops)"

fun last_put :: "'x cache_op list \<Rightarrow> (cache_key \<rightharpoonup> 'x entry list) \<Rightarrow> cache_key \<rightharpoonup> 'x entry list" where
  "last_put [] m = m"
| "last_put (CGet k # ops) m = last_put ops m"
| "last_put (CPut k b # ops) m = last_put ops (m(k \<mapsto> b))"

lemma bc_run_known:
  assumes "bc_inv c" "bc_lookup c \<subseteq>\<^sub>m m"
  shows "\<exists>c'. bc_run ops c = Some c' \<and> bc_inv c' \<and> bc_lookup c' \<subseteq>\<^sub>m last_put ops m"
  using assms
proof (induction ops arbitrary: c m)
  case (Cons op ops)
  show ?case
  proof (cases op)
    case (CGet k)
    then show ?thesis using Cons.IH [of "fst (bc_get k c)" m] Cons.prems by (simp add: bc.get_inv bc.get_known)
  next
    case (CPut k b)
    obtain c1 where c1: "bc_insert k b c = Some c1" "bc_inv c1" using bc.put_returns [OF Cons.prems(1)] by blast
    have "bc_lookup c1 \<subseteq>\<^sub>m m(k \<mapsto> b)"
      using bc.put_same [OF Cons.prems(1) c1(1)] bc.put_other [OF Cons.prems(1) c1(1)] Cons.prems(2)
      by (auto simp: map_le_def dom_def)
    with Cons.IH [OF c1(2)] c1(1) CPut show ?thesis by simp
  qed
qed simp

lemma lru_insert_retained:
  assumes "lru_rel cap c l" "2 * cap < 2 ^ 64" "sz \<le> cap" "lru_insert k v sz c = Some c'"
  shows "lru_lookup c' k = Some v"
proof -
  have "lru_rel cap c' (mru_insert cap k v sz l)"
    using lru_insert_refines [OF assms(1,2), of k v sz] assms(4) by auto
  moreover obtain r where "mru_insert cap k v sz l = (k, v, sz) # r"
    using mru_trim_keeps_head [OF assms(3), of k v "mru_drop k l"] assms(3) by (auto simp: mru_insert_def)
  ultimately show ?thesis by (simp add: lru_lookup_rel)
qed

text \<open>
  C17: The block cache never serves a stale block. After any sequence of lookups and insertions on a
  new sharded cache, all of which return, a hit for a block's key yields the block last inserted under
  that key, whatever was evicted or shares the key's shard; and a block that fits a shard is found
  right after its insertion.
\<close>

theorem block_cache_coherent:
  assumes "0 < capacity" "capacity < 2 ^ 64"
  shows "\<exists>shards c. bc_new capacity = Some shards \<and> bc_run ops shards = Some c
    \<and> (\<forall>k b. snd (bc_get k c) = Some b \<longrightarrow> last_put ops Map.empty k = Some b)
    \<and> (\<forall>k b c'. bc_insert k b c = Some c' \<longrightarrow> block_byte_size b \<le> capacity_bytes (c ! get_shard k c)
          \<longrightarrow> snd (bc_get k c') = Some (b :: ('x::linorder) entry list))"
proof -
  obtain shards :: "'x block_cache" where s: "bc_new capacity = Some shards" "bc_inv shards" "bc_lookup shards = (\<lambda>_. None)"
    using bc_new_inv [OF assms] by blast
  then obtain c where c: "bc_run ops shards = Some c" "bc_inv c" "bc_lookup c \<subseteq>\<^sub>m last_put ops Map.empty"
    using bc_run_known [of shards Map.empty ops] by auto
  have "last_put ops Map.empty k = Some b" if "snd (bc_get k c) = Some b" for k b
    using that c(2,3) by (simp add: bc.get_result map_le_def) (metis domI)
  moreover have "snd (bc_get k c') = Some b"
    if ins: "bc_insert k b c = Some c'" and fits: "block_byte_size b \<le> capacity_bytes (c ! get_shard k c)" for k b c'
  proof -
    obtain d where d: "lru_insert k b (block_byte_size b) (c ! get_shard k c) = Some d" "c' = c[get_shard k c := d]"
      using ins by (auto simp: bc_insert_def Let_def)
    obtain l where "lru_rel (capacity_bytes (c ! get_shard k c)) (c ! get_shard k c) l"
      "2 * capacity_bytes (c ! get_shard k c) < 2 ^ 64"
      using bc_inv_shard [OF c(2)] by (rule lru_inv_cases)
    from lru_insert_retained [OF this fits d(1)] have "bc_lookup c' k = Some b"
      by (simp add: d(2) bc_lookup_update [OF c(2)])
    moreover have "bc_inv c'" using bc.put_returns [OF c(2), of k b] ins by simp
    ultimately show ?thesis by (simp add: bc.get_result)
  qed
  ultimately show ?thesis using s(1) c(1) by blast
qed

theorem block_cache_coherent_witness:
  "\<exists>shards c. bc_new 4096 = Some shards
    \<and> bc_run [CPut (1, 0) [(KInt 7 :: nat dbkey, None)], CGet (1, 0), CPut (1, 0) [(KInt 8, None)]] shards = Some c
    \<and> (\<forall>k b. snd (bc_get k c) = Some b \<longrightarrow> k = (1, 0) \<and> b = [(KInt 8, None)])"
proof -
  have "(0::nat) < 4096" "4096 < (2::nat) ^ 64" by simp_all
  from block_cache_coherent [OF this, of "[CPut (1, 0) [(KInt 7 :: nat dbkey, None)], CGet (1, 0), CPut (1, 0) [(KInt 8, None)]]"]
  obtain shards c where c: "bc_new 4096 = Some shards"
    "bc_run [CPut (1, 0) [(KInt 7 :: nat dbkey, None)], CGet (1, 0), CPut (1, 0) [(KInt 8, None)]] shards = Some c"
    and hit: "\<And>k b. snd (bc_get k c) = Some b \<Longrightarrow>
      last_put [CPut (1, 0) [(KInt 7 :: nat dbkey, None)], CGet (1, 0), CPut (1, 0) [(KInt 8, None)]] Map.empty k = Some b"
    by blast
  have "k = (1, 0) \<and> b = [(KInt 8, None)]" if "snd (bc_get k c) = Some b" for k b
    using hit [OF that] by (simp split: if_splits)
  with c show ?thesis by blast
qed

end
