(* ===== verification/Actions.thy ===== *)
theory Actions
  imports Prelude
begin

text \<open>
  Fallible code that reads through shared state (the block cache): an action takes the state and
  either does not return a value (\<open>None\<close>: a panic, or a loop that does not end) or returns a result
  (an error or a value) and the state it leaves. \<open>act_bind\<close> is the source's \<open>?\<close>.

  \<open>yields R m r\<close> says that \<open>m\<close>, from every state in \<open>R\<close>, returns the result \<open>r\<close> and a state in \<open>R\<close>.
  The rules below carry the proofs of the read paths: they never mention the cache.
\<close>

type_synonym ('s, 'a) act = "'s \<Rightarrow> ('a result \<times> 's) option"

definition act_ret :: "'a \<Rightarrow> ('s, 'a) act" where
  "act_ret x = (\<lambda>s. Some (Inr x, s))"

definition act_fail :: "storage_error \<Rightarrow> ('s, 'a) act" where
  "act_fail e = (\<lambda>s. Some (Inl e, s))"

definition act_panic :: "('s, 'a) act" where
  "act_panic = (\<lambda>s. None)"

definition act_result :: "'a result \<Rightarrow> ('s, 'a) act" where
  "act_result r = (\<lambda>s. Some (r, s))"

definition act_bind :: "('s, 'a) act \<Rightarrow> ('a \<Rightarrow> ('s, 'b) act) \<Rightarrow> ('s, 'b) act" where
  "act_bind m f =
     (\<lambda>s. case m s of
            None \<Rightarrow> None
          | Some (Inl e, s') \<Rightarrow> Some (Inl e, s')
          | Some (Inr x, s') \<Rightarrow> f x s')"

fun act_map :: "('a \<Rightarrow> ('s, 'b) act) \<Rightarrow> 'a list \<Rightarrow> ('s, 'b list) act" where
  "act_map f [] = act_ret []"
| "act_map f (x # xs) = act_bind (f x) (\<lambda>y. act_bind (act_map f xs) (\<lambda>ys. act_ret (y # ys)))"

fun act_fold :: "('b \<Rightarrow> 'a \<Rightarrow> ('s, 'b) act) \<Rightarrow> 'b \<Rightarrow> 'a list \<Rightarrow> ('s, 'b) act" where
  "act_fold f b [] = act_ret b"
| "act_fold f b (x # xs) = act_bind (f b x) (\<lambda>b'. act_fold f b' xs)"

definition yields :: "('s \<Rightarrow> bool) \<Rightarrow> ('s, 'a) act \<Rightarrow> 'a result \<Rightarrow> bool" where
  "yields R m r \<longleftrightarrow> (\<forall>s. R s \<longrightarrow> (\<exists>s'. m s = Some (r, s') \<and> R s'))"

text \<open>
  \<open>while let Some(x) = it.next()?\<close>: gather what an iterator hands out until it ends or fails. Nothing
  bounds the number of steps, so not ending is the value \<open>None\<close>. \<open>all_ok\<close> is the result of such a
  loop over results that are already there: the first error wins.
\<close>

partial_function (option) act_drain ::
  "('i \<Rightarrow> ('s, 'i \<times> 'a option) act) \<Rightarrow> 'i \<Rightarrow> 'a list \<Rightarrow> 's \<Rightarrow> ('a list result \<times> 's) option" where
  "act_drain f it acc s =
     (case f it s of
        None \<Rightarrow> None
      | Some (Inl e, s') \<Rightarrow> Some (Inl e, s')
      | Some (Inr (it', None), s') \<Rightarrow> Some (Inr (rev acc), s')
      | Some (Inr (it', Some x), s') \<Rightarrow> act_drain f it' (x # acc) s')"

fun all_ok :: "'a result list \<Rightarrow> 'a list result" where
  "all_ok [] = Inr []"
| "all_ok (Inl e # xs) = Inl e"
| "all_ok (Inr x # xs) = rbind (all_ok xs) (\<lambda>ys. Inr (x # ys))"

lemma all_ok_map_Inr [simp]: "all_ok (map (\<lambda>x. Inr (f x)) xs) = Inr (map f xs)"
  by (induction xs) auto

named_theorems yields_intros

lemma yields_ret [yields_intros]: "yields R (act_ret x) (Inr x)"
  by (simp add: yields_def act_ret_def)

lemma yields_fail [yields_intros]: "yields R (act_fail e) (Inl e)"
  by (simp add: yields_def act_fail_def)

lemma yields_result [yields_intros]: "yields R (act_result r) r"
  by (simp add: yields_def act_result_def)

lemma yields_bind: "yields R m (Inr x) \<Longrightarrow> yields R (f x) r \<Longrightarrow> yields R (act_bind m f) r"
  by (fastforce simp: yields_def act_bind_def)

lemma yields_bind_fail: "yields R m (Inl e) \<Longrightarrow> yields R (act_bind m f) (Inl e)"
  by (fastforce simp: yields_def act_bind_def)

lemma yields_bind_ret: "yields R m (Inr x) \<Longrightarrow> yields R (act_bind m (\<lambda>x. act_ret (g x))) (Inr (g x))"
  by (rule yields_bind, assumption, rule yields_ret)

lemma yields_map:
  "(\<And>x. x \<in> set xs \<Longrightarrow> yields R (f x) (Inr (g x))) \<Longrightarrow> yields R (act_map f xs) (Inr (map g xs))"
  by (induction xs) (auto intro!: yields_intros yields_bind)

lemma yields_fold:
  assumes "\<And>b x. x \<in> set xs \<Longrightarrow> yields R (f b x) (Inr (g b x))"
  shows "yields R (act_fold f b xs) (Inr (foldl g b xs))"
  using assms by (induction xs arbitrary: b) (auto intro!: yields_intros yields_bind)

lemma yieldsD: "yields R m r \<Longrightarrow> R s \<Longrightarrow> \<exists>s'. m s = Some (r, s') \<and> R s'"
  by (simp add: yields_def)

text \<open>
  An iterator whose states \<open>H it xs\<close> still have the results \<open>xs\<close> to hand out is drained: the loop ends,
  and with the collected results.
\<close>

lemma act_drain_yields:
  assumes step: "\<And>it xs. H it xs \<Longrightarrow>
      (case xs of
         [] \<Rightarrow> \<exists>it'. yields R (f it) (Inr (it', None))
       | Inl e # _ \<Rightarrow> yields R (f it) (Inl e)
       | Inr x # ys \<Rightarrow> \<exists>it'. yields R (f it) (Inr (it', Some x)) \<and> H it' ys)"
    and "H it xs"
  shows "yields R (act_drain f it acc) (rbind (all_ok xs) (\<lambda>ys. Inr (rev acc @ ys)))"
  using assms(2)
proof (induction xs arbitrary: it acc)
  case Nil
  then obtain it' where "yields R (f it) (Inr (it', None))" using step [of it "[]"] by auto
  then show ?case unfolding yields_def act_drain.simps [of f it acc] by fastforce
next
  case (Cons r ys)
  show ?case
  proof (cases r)
    case (Inl e)
    then have "yields R (f it) (Inl e)" using step [OF Cons.prems] by simp
    then show ?thesis unfolding yields_def act_drain.simps [of f it acc] Inl by fastforce
  next
    case (Inr x)
    then obtain it' where it': "yields R (f it) (Inr (it', Some x))" "H it' ys" using step [OF Cons.prems] by auto
    have "rbind (all_ok (r # ys)) (\<lambda>ys. Inr (rev acc @ ys)) = rbind (all_ok ys) (\<lambda>ys. Inr (rev (x # acc) @ ys))"
      unfolding Inr by (cases "all_ok ys") auto
    then show ?thesis using it'(1) Cons.IH [OF it'(2), of "x # acc"]
      unfolding yields_def act_drain.simps [of f it acc] by fastforce
  qed
qed

lemma yields_drain:
  assumes "\<And>it xs. H it xs \<Longrightarrow>
      (case xs of
         [] \<Rightarrow> \<exists>it'. yields R (f it) (Inr (it', None))
       | Inl e # _ \<Rightarrow> yields R (f it) (Inl e)
       | Inr x # ys \<Rightarrow> \<exists>it'. yields R (f it) (Inr (it', Some x)) \<and> H it' ys)"
    and "H it xs"
  shows "yields R (act_drain f it []) (all_ok xs)"
proof -
  have "rbind (all_ok xs) (\<lambda>ys. Inr (rev [] @ ys)) = all_ok xs" by (cases "all_ok xs") auto
  with act_drain_yields [where f = f and R = R and H = H, OF assms, of "[]"] show ?thesis by simp
qed

end
