(* ===== verification/SSTable.thy ===== *)
theory SSTable
  imports Values Framed_Log Bloom Block_Cache Actions
begin

text \<open>
  \<^verbatim>\<open>dtdb_storage/src/sstable.rs\<close>: the writer and reader of the immutable sorted files.

  A file is the list of its bytes: data blocks, the index block, a 28-byte footer. The third-party
  code is gathered in the parameter \<open>cd\<close>: \<open>postcard\<close> on blocks and index blocks, \<open>lz4\<close>, the \<open>xxh32\<close>
  checksum, the key hashes of the Bloom filter and its two sizing formulas. The contract relied on,
  \<open>codec_ok\<close>, is that what was serialized or compressed comes back.

  The reader's block reads go through the shared block cache, the state of the actions of
  \<open>Actions\<close>; \<open>None\<close> is a store opened without a cache. Everything the reader does is reduced to
  the predicate \<open>reader_ok\<close> on the blocks the file holds, which the file a writer produced satisfies.
\<close>

section \<open>Data\<close>

record 'x index_entry =
  first_key :: "'x dbkey"
  ie_offset :: nat
  ie_size :: nat
  ie_checksum :: u32

record 'x stats_block =
  st_entries :: nat
  st_tombstones :: nat
  st_bytes :: nat
  st_min_key :: "'x dbkey option"
  st_max_key :: "'x dbkey option"

record 'x index_block =
  ib_entries :: "'x index_entry list"
  ib_compression :: compression_type
  ib_stats :: "'x stats_block"
  ib_bloom :: "bloom_filter option"
  ib_layout :: layout

record 'x sst_codec =
  cd_sum :: "byte list \<Rightarrow> u32"
  cd_ser_block :: "'x entry list \<Rightarrow> byte list option"
  cd_de_block :: "byte list \<Rightarrow> 'x entry list option"
  cd_ser_index :: "'x index_block \<Rightarrow> byte list option"
  cd_de_index :: "byte list \<Rightarrow> 'x index_block option"
  cd_compress :: "byte list \<Rightarrow> byte list"
  cd_decompress :: "byte list \<Rightarrow> byte list option"
  cd_hashes :: "'x dbkey \<Rightarrow> u64 \<times> u64"
  cd_opt_bits :: "nat \<Rightarrow> nat"
  cd_opt_hashes :: "nat \<Rightarrow> nat \<Rightarrow> nat"

definition codec_ok :: "'x sst_codec \<Rightarrow> bool" where
  "codec_ok cd \<longleftrightarrow>
     (\<forall>b raw. cd_ser_block cd b = Some raw \<longrightarrow> cd_de_block cd raw = Some b)
   \<and> (\<forall>ib raw. cd_ser_index cd ib = Some raw \<longrightarrow> cd_de_index cd raw = Some ib)
   \<and> (\<forall>raw. cd_decompress cd (cd_compress cd raw) = Some raw)"

definition MAGIC_NUMBER :: "byte list" where "MAGIC_NUMBER = map of_char ''DTDB_SST''"
definition FOOTER_SIZE :: nat where "FOOTER_SIZE = 28"

section \<open>Writer\<close>

record 'x sst_writer =
  w_file :: "byte list option"
  w_offset :: nat
  w_limit :: nat
  w_block :: "'x entry list"
  w_block_bytes :: nat
  w_index :: "'x index_entry list"
  w_compression :: compression_type
  w_entries :: nat
  w_tombstones :: nat
  w_total_bytes :: nat
  w_min_key :: "'x dbkey option"
  w_max_key :: "'x dbkey option"
  w_bloom :: "bloom_filter option"
  w_layout :: layout

definition sst_create :: "'x sst_codec \<Rightarrow> bool \<Rightarrow> nat \<Rightarrow> compression_type \<Rightarrow> nat \<Rightarrow> layout \<Rightarrow> 'x sst_writer result" where
  "sst_create cd created limit cmpr expected_entries lay =
     (if \<not> created then Inl Io else Inr
     \<lparr>w_file = Some [], w_offset = 0, w_limit = limit, w_block = [], w_block_bytes = 0, w_index = [],
      w_compression = cmpr, w_entries = 0, w_tombstones = 0, w_total_bytes = 0,
      w_min_key = None, w_max_key = None,
      w_bloom = (if 0 < expected_entries
                 then Some (bloom_new (cd_opt_bits cd) (cd_opt_hashes cd) expected_entries) else None),
      w_layout = lay\<rparr>)"

definition encode_block :: "'x sst_codec \<Rightarrow> compression_type \<Rightarrow> 'x entry list \<Rightarrow> byte list option" where
  "encode_block cd cmpr b =
     map_option (\<lambda>raw. case cmpr of Lz4 \<Rightarrow> cd_compress cd raw | Uncompressed \<Rightarrow> raw) (cd_ser_block cd b)"

definition set_last :: "('a \<Rightarrow> 'a) \<Rightarrow> 'a list \<Rightarrow> 'a list" where
  "set_last f xs = (if xs = [] then [] else butlast xs @ [f (last xs)])"

text \<open>
  \<open>flush_block\<close>. The handle is present until \<open>finish\<close> takes it (\<open>as_mut().unwrap()\<close>); a failed write
  leaves its torn bytes in the temporary file.
\<close>

definition flush_block :: "'x sst_codec \<Rightarrow> io \<Rightarrow> 'x sst_writer \<Rightarrow> ('x sst_writer \<times> unit result) option" where
  "flush_block cd io w =
     (if w_block w = [] then Some (w, Inr ())
      else let w1 = w\<lparr>w_max_key := Some (fst (last (w_block w)))\<rparr>
           in case encode_block cd (w_compression w1) (w_block w1) of
                None \<Rightarrow> Some (w1, Inl Serialization)
              | Some bytes \<Rightarrow>
                  (case w_file w1 of
                     None \<Rightarrow> None
                   | Some f \<Rightarrow>
                       (let (f', r) = write_all io f bytes; w2 = w1\<lparr>w_file := Some f'\<rparr>
                        in case r of
                             Inl e \<Rightarrow> Some (w2, Inl e)
                           | Inr _ \<Rightarrow>
                               Some (w2\<lparr>w_index := set_last (\<lambda>e. e\<lparr>ie_size := length bytes, ie_checksum := cd_sum cd bytes\<rparr>)
                                                    (w_index w2),
                                         w_offset := w_offset w2 + length bytes, w_block := [], w_block_bytes := 0\<rparr>,
                                     Inr ()))))"

definition sst_append ::
  "('x::linorder) sst_codec \<Rightarrow> io \<Rightarrow> 'x dbkey \<Rightarrow> 'x slot \<Rightarrow> 'x sst_writer \<Rightarrow> ('x sst_writer \<times> unit result) option" where
  "sst_append cd io key v w =
     (let sz = key_byte_size key + slot_byte_size v;
          w1 = w\<lparr>w_bloom := map_option (bloom_insert (cd_hashes cd) key) (w_bloom w),
                 w_entries := w_entries w + 1,
                 w_tombstones := w_tombstones w + (if v = None then 1 else 0),
                 w_total_bytes := w_total_bytes w + sz,
                 w_min_key := (if w_min_key w = None then Some key else w_min_key w)\<rparr>;
          w2 = (if w_block w1 = []
                then w1\<lparr>w_index := w_index w1 @ [\<lparr>first_key = key, ie_offset = w_offset w1, ie_size = 0, ie_checksum = 0\<rparr>]\<rparr>
                else w1);
          w3 = w2\<lparr>w_block := w_block w2 @ [(key, v)], w_block_bytes := w_block_bytes w2 + sz\<rparr>
      in if w_limit w3 \<le> w_block_bytes w3 then flush_block cd io w3 else Some (w3, Inr ()))"

text \<open>
  The faults of \<open>finish\<close>: besides the writes and the file's fsync, the rename, the fsync of the
  directory, and the removal of the temporary file after an error. The five writes of index block and
  footer are one write of their concatenation, torn anywhere.
\<close>

record sst_io = io +
  rn :: bool
  ds :: bool
  rm :: bool

definition index_block_of :: "'x sst_writer \<Rightarrow> 'x index_block" where
  "index_block_of w =
     \<lparr>ib_entries = w_index w, ib_compression = w_compression w,
      ib_stats = \<lparr>st_entries = w_entries w, st_tombstones = w_tombstones w, st_bytes = w_total_bytes w,
                  st_min_key = w_min_key w, st_max_key = w_max_key w\<rparr>,
      ib_bloom = w_bloom w, ib_layout = w_layout w\<rparr>"

definition footer :: "'x sst_codec \<Rightarrow> nat \<Rightarrow> byte list \<Rightarrow> byte list" where
  "footer cd index_offset index_bytes =
     le64 (of_nat index_offset) @ le64 (of_nat (length index_bytes)) @ le32 (cd_sum cd index_bytes) @ MAGIC_NUMBER"

text \<open>
  What \<open>finish_internal\<close> leaves: the final file, given the one that was there before (\<open>old\<close>), whether
  the temporary file is still there, and the outcome.
\<close>

definition finish_internal ::
  "'x sst_codec \<Rightarrow> sst_io \<Rightarrow> byte list option \<Rightarrow> 'x sst_writer \<Rightarrow> (byte list option \<times> bool \<times> unit result) option" where
  "finish_internal cd io old w =
     (case flush_block cd (io.truncate io) w of
        None \<Rightarrow> None
      | Some (w1, Inl e) \<Rightarrow> Some (old, True, Inl e)
      | Some (w1, Inr _) \<Rightarrow>
          (case w_file w1 of
             None \<Rightarrow> Some (old, True, Inl (Corruption ''SSTable writer already finished''))
           | Some f \<Rightarrow>
               (case cd_ser_index cd (index_block_of w1) of
                  None \<Rightarrow> Some (old, True, Inl Serialization)
                | Some index_bytes \<Rightarrow>
                    (let (f', r) = write_all (io.truncate io) f (index_bytes @ footer cd (w_offset w1) index_bytes)
                     in case r of
                          Inl e \<Rightarrow> Some (old, True, Inl e)
                        | Inr _ \<Rightarrow>
                            if \<not> sy io then Some (old, True, Inl Io)
                            else if \<not> rn io then Some (old, True, Inl Io)
                            else Some (Some f', False, if ds io then Inr () else Inl Io)))))"

definition sst_finish ::
  "'x sst_codec \<Rightarrow> sst_io \<Rightarrow> byte list option \<Rightarrow> 'x sst_writer \<Rightarrow> (byte list option \<times> bool \<times> unit result) option" where
  "sst_finish cd io old w =
     (case finish_internal cd io old w of
        None \<Rightarrow> None
      | Some (final, tmp, Inr u) \<Rightarrow> Some (final, tmp, Inr u)
      | Some (final, tmp, Inl e) \<Rightarrow> Some (final, tmp \<and> \<not> rm io, Inl e))"

section \<open>Reader\<close>

record 'x sst_reader =
  r_file :: "byte list"
  r_index :: "'x index_entry list"
  r_compression :: compression_type
  r_id :: u64
  r_level :: nat
  r_last_key :: "'x dbkey"
  r_stats :: "'x stats_block"
  r_bloom :: "bloom_filter option"
  r_file_size :: nat
  r_layout :: layout

definition sst_open :: "'x sst_codec \<Rightarrow> u64 \<Rightarrow> nat \<Rightarrow> byte list \<Rightarrow> 'x sst_reader result" where
  "sst_open cd sid level f =
     (let file_len = length f
      in if file_len < FOOTER_SIZE then Inl (Corruption ''SSTable file size too small to contain footer'')
         else let footer_start = file_len - FOOTER_SIZE; ft = drop footer_start f;
                  index_offset = unat (from_le64 (take 8 ft));
                  index_len = unat (from_le64 (take 8 (drop 8 ft)));
                  index_checksum = from_le32 (take 4 (drop 16 ft))
              in if drop 20 ft \<noteq> MAGIC_NUMBER then Inl (Corruption ''Invalid SSTable magic number'')
                 else if footer_start < index_offset \<or> footer_start - index_offset < index_len
                 then Inl (Corruption ''SSTable footer points outside file'')
                 else let index_bytes = take index_len (drop index_offset f)
                      in if cd_sum cd index_bytes \<noteq> index_checksum
                         then Inl (Corruption ''SSTable index block checksum mismatch'')
                         else rbind (ok_or Serialization (cd_de_index cd index_bytes)) (\<lambda>ib.
                                rbind (if ib_entries ib = [] then Inr (KInt 0)
                                       else ok_or (Corruption ''SSTable index is non-empty but stats.max_key is missing'')
                                              (st_max_key (ib_stats ib))) (\<lambda>last_key.
                                  Inr \<lparr>r_file = f, r_index = ib_entries ib, r_compression = ib_compression ib, r_id = sid,
                                       r_level = level, r_last_key = last_key, r_stats = ib_stats ib, r_bloom = ib_bloom ib,
                                       r_file_size = file_len, r_layout = ib_layout ib\<rparr>)))"

text \<open>The part of \<open>read_block\<close> below the cache; an index out of range panics (\<open>None\<close>).\<close>

definition load_block :: "'x sst_codec \<Rightarrow> 'x sst_reader \<Rightarrow> nat \<Rightarrow> 'x entry list result option" where
  "load_block cd r idx =
     (if idx < length (r_index r)
      then let e = r_index r ! idx
           in Some (if r_file_size r < ie_offset e \<or> r_file_size r - ie_offset e < ie_size e
                    then Inl (Corruption ''SSTable block extent outside file'')
                    else let block_bytes = take (ie_size e) (drop (ie_offset e) (r_file r))
                         in if ie_checksum e \<noteq> 0 \<and> cd_sum cd block_bytes \<noteq> ie_checksum e
                            then Inl (Corruption ''SSTable block checksum mismatch'')
                            else rbind (case r_compression r of
                                          Lz4 \<Rightarrow> ok_or (Compression ''lz4'') (cd_decompress cd block_bytes)
                                        | Uncompressed \<Rightarrow> Inr block_bytes)
                                   (\<lambda>raw. ok_or Serialization (cd_de_block cd raw)))
      else None)"

type_synonym 'x cache = "'x block_cache option"

definition cache_probe :: "cache_key \<Rightarrow> ('x::linorder) cache \<Rightarrow> 'x cache \<times> 'x entry list option" where
  "cache_probe key c =
     (case c of None \<Rightarrow> (None, None) | Some bc \<Rightarrow> let (bc', b) = bc_get key bc in (Some bc', b))"

definition read_block :: "('x::linorder) sst_codec \<Rightarrow> 'x sst_reader \<Rightarrow> nat \<Rightarrow> ('x cache, 'x entry list) act" where
  "read_block cd r idx c =
     (case cache_probe (r_id r, idx) c of
        (c', Some b) \<Rightarrow> Some (Inr b, c')
      | (c', None) \<Rightarrow>
          (case load_block cd r idx of
             None \<Rightarrow> None
           | Some (Inl e) \<Rightarrow> Some (Inl e, c')
           | Some (Inr b) \<Rightarrow>
               (case c' of
                  None \<Rightarrow> Some (Inr b, None)
                | Some bc \<Rightarrow>
                    (case bc_insert (r_id r, idx) b bc of None \<Rightarrow> None | Some bc' \<Rightarrow> Some (Inr b, Some bc')))))"

definition sst_get :: "('x::linorder) sst_codec \<Rightarrow> 'x sst_reader \<Rightarrow> 'x dbkey \<Rightarrow> ('x cache, 'x slot option) act" where
  "sst_get cd r key =
     (let look = (\<lambda>block_idx. act_bind (read_block cd r block_idx) (\<lambda>block.
                    act_ret (case binary_search_by (\<lambda>e. cmp (fst e) key) block of
                               Inr i \<Rightarrow> Some (snd (block ! i))
                             | Inl _ \<Rightarrow> None)))
      in if r_index r = [] then act_ret None
         else if (case r_bloom r of None \<Rightarrow> False | Some bl \<Rightarrow> \<not> bloom_contains (cd_hashes cd) key bl) then act_ret None
         else case binary_search_by (\<lambda>e. cmp (first_key e) key) (r_index r) of
                Inr idx \<Rightarrow> look idx
              | Inl idx \<Rightarrow> if idx = 0 then act_ret None else look (idx - 1))"

text \<open>The block a range starts in: the last one whose first key is not above the start, or the first.\<close>

definition start_block :: "('x::linorder) sst_reader \<Rightarrow> 'x dbkey \<Rightarrow> nat" where
  "start_block r start =
     (case binary_search_by (\<lambda>e. cmp (first_key e) start) (r_index r) of Inr idx \<Rightarrow> idx | Inl idx \<Rightarrow> idx - 1)"

fun scan_blocks :: "('x::linorder) sst_codec \<Rightarrow> 'x sst_reader \<Rightarrow> 'x dbkey \<Rightarrow> ('x entry list \<Rightarrow> 'r list) \<Rightarrow> nat list
    \<Rightarrow> 'r list \<Rightarrow> ('x cache, 'r list) act" where
  "scan_blocks cd r end collect [] results = act_ret results"
| "scan_blocks cd r end collect (i # is) results =
     (if end < first_key (r_index r ! i) then act_ret results
      else act_bind (read_block cd r i) (\<lambda>block. scan_blocks cd r end collect is (results @ collect block)))"

definition sst_scan :: "('x::linorder) sst_codec \<Rightarrow> 'x sst_reader \<Rightarrow> 'x dbkey \<Rightarrow> 'x dbkey \<Rightarrow> ('x dbkey \<Rightarrow> 'x dbvalue \<Rightarrow> bool)
    \<Rightarrow> ('x cache, ('x dbkey \<times> 'x dbvalue) list) act" where
  "sst_scan cd r start end filt =
     (if r_index r = [] then act_ret []
      else scan_blocks cd r end
             (\<lambda>block. List.map_filter (\<lambda>(k, v). case v of
                  Some x \<Rightarrow> if start \<le> k \<and> k \<le> end \<and> filt k x then Some (k, x) else None
                | None \<Rightarrow> None) block)
             [start_block r start..<length (r_index r)] [])"

definition sst_scan_raw :: "('x::linorder) sst_codec \<Rightarrow> 'x sst_reader \<Rightarrow> 'x dbkey \<Rightarrow> 'x dbkey \<Rightarrow> ('x cache, 'x entry list) act" where
  "sst_scan_raw cd r start end =
     (if r_index r = [] then act_ret []
      else scan_blocks cd r end (filter (in_range start end)) [start_block r start..<length (r_index r)] [])"

definition sst_first_key :: "'x sst_reader \<Rightarrow> 'x dbkey option" where
  "sst_first_key r = (case r_index r of [] \<Rightarrow> None | e # _ \<Rightarrow> Some (first_key e))"

section \<open>Reading what the blocks hold\<close>

text \<open>
  The file of a reader holds the non-empty blocks \<open>bs\<close>, sorted by key throughout; the index has their
  first keys, the filter (if any) their keys, and \<open>last_key\<close> is the last one.
\<close>

definition reader_ok :: "('x::linorder) sst_codec \<Rightarrow> 'x sst_reader \<Rightarrow> 'x entry list list \<Rightarrow> bool" where
  "reader_ok cd r bs \<longleftrightarrow>
     length (r_index r) = length bs
   \<and> (\<forall>i < length bs. bs ! i \<noteq> [] \<and> load_block cd r i = Some (Inr (bs ! i))
                     \<and> first_key (r_index r ! i) = fst (hd (bs ! i)))
   \<and> ksorted (concat bs)
   \<and> (\<forall>bl. r_bloom r = Some bl \<longrightarrow> (\<forall>k \<in> fst ` set (concat bs). bloom_contains (cd_hashes cd) k bl))
   \<and> (bs \<noteq> [] \<longrightarrow> r_last_key r = fst (last (concat bs)))"

text \<open>Coherence of the cache with the readers \<open>U\<close> that were ever opened, by id.\<close>

definition loaded :: "'x sst_codec \<Rightarrow> (u64 \<rightharpoonup> 'x sst_reader) \<Rightarrow> cache_key \<Rightarrow> 'x entry list option" where
  "loaded cd U key =
     (case U (fst key) of
        Some r \<Rightarrow> (case load_block cd r (snd key) of Some (Inr b) \<Rightarrow> Some b | _ \<Rightarrow> None)
      | None \<Rightarrow> None)"

definition coherent :: "('x::linorder) sst_codec \<Rightarrow> (u64 \<rightharpoonup> 'x sst_reader) \<Rightarrow> 'x cache \<Rightarrow> bool" where
  "coherent cd U c \<longleftrightarrow>
     (case c of None \<Rightarrow> True
      | Some bc \<Rightarrow> bc_inv bc \<and> (\<forall>key b. bc_lookup bc key = Some b \<longrightarrow> loaded cd U key = Some b))"

lemma coherent_mono:
  assumes "coherent cd U c" "\<And>i r. U i = Some r \<Longrightarrow> U' i = Some r"
  shows "coherent cd U' c"
proof -
  have "loaded cd U key = Some b \<Longrightarrow> loaded cd U' key = Some b" for key b
    using assms(2) by (auto simp: loaded_def split: option.splits)
  with assms(1) show ?thesis by (auto simp: coherent_def split: option.splits)
qed

lemma read_block_yields:
  assumes "U (r_id r) = Some r" "load_block cd r idx = Some res"
  shows "yields (coherent cd U) (read_block cd r idx) res"
  unfolding yields_def
proof (intro allI impI)
  fix c
  assume R: "coherent cd U c"
  let ?key = "(r_id r, idx)"
  have load: "loaded cd U ?key = (case res of Inr b \<Rightarrow> Some b | Inl _ \<Rightarrow> None)"
    using assms by (simp add: loaded_def split: sum.split)
  show "\<exists>c'. read_block cd r idx c = Some (res, c') \<and> coherent cd U c'"
  proof (cases c)
    case None
    then show ?thesis using assms R by (auto simp: read_block_def cache_probe_def coherent_def split: sum.split)
  next
    case (Some bc)
    have inv: "bc_inv bc" and kn: "\<forall>key b. bc_lookup bc key = Some b \<longrightarrow> loaded cd U key = Some b"
      using R Some by (auto simp: coherent_def)
    obtain bc' hit where g: "bc_get ?key bc = (bc', hit)" by fastforce
    have inv': "bc_inv bc'" and kn': "\<forall>key b. bc_lookup bc' key = Some b \<longrightarrow> loaded cd U key = Some b"
      using bc.get_inv [OF inv, of ?key] bc.get_keeps_coherence [OF inv kn, of ?key] by (simp_all add: g)
    show ?thesis
    proof (cases hit)
      case None
      show ?thesis
      proof (cases res)
        case (Inl e)
        then show ?thesis using Some g None assms(2) inv' kn'
          by (simp add: read_block_def cache_probe_def coherent_def)
      next
        case (Inr b)
        obtain bc2 where "bc_insert ?key b bc' = Some bc2" "bc_inv bc2"
          "\<forall>key b. bc_lookup bc2 key = Some b \<longrightarrow> loaded cd U key = Some b"
          using bc.put_keeps_coherence [OF inv' kn', of ?key b] load Inr by auto
        then show ?thesis using Some g None assms(2) Inr by (simp add: read_block_def cache_probe_def coherent_def)
      qed
    next
      case hit: (Some b)
      then have "loaded cd U ?key = Some b" using bc.hit_loads [OF inv kn, of ?key b] g by simp
      then have "res = Inr b" using load by (cases res) auto
      then show ?thesis using Some g hit inv' kn' by (simp add: read_block_def cache_probe_def coherent_def)
    qed
  qed
qed

subsection \<open>Locating a key\<close>

lemma block_search:
  assumes "ksorted b"
  shows "(case binary_search_by (\<lambda>e. cmp (fst e) k) b of Inr i \<Rightarrow> Some (snd (b ! i)) | Inl _ \<Rightarrow> None) = map_of b k"
proof -
  note s = bs_sorted_key [OF assms, of k]
  show ?thesis
  proof (cases "binary_search_by (\<lambda>e. cmp (fst e) k) b")
    case (Inr i)
    have "(k, snd (b ! i)) \<in> set b" using binary_search_by_Inr [OF s Inr] by (metis cmp_simps(2) nth_mem prod.collapse)
    with Inr show ?thesis using map_of_is_SomeI [OF ksorted_distinct [OF assms]] by fastforce
  next
    case (Inl i)
    have "k \<noteq> fst (b ! j)" if "j < length b" for j
    proof (cases "j < i")
      case True
      with binary_search_by_Inl [OF s Inl] show ?thesis by force
    next
      case False
      with binary_search_by_Inl [OF s Inl] that have "k < fst (b ! j)" by simp
      then show ?thesis by simp
    qed
    then have "map_of b k = None" unfolding map_of_eq_None_iff by (metis imageE in_set_conv_nth)
    with Inl show ?thesis by simp
  qed
qed

lemma concat_split: "i < length bs \<Longrightarrow> concat bs = concat (take i bs) @ bs ! i @ concat (drop (Suc i) bs)"
  by (metis concat.simps(2) concat_append id_take_nth_drop)

lemma in_concat_take: "e \<in> set (concat (take i bs)) \<longleftrightarrow> (\<exists>j < i. j < length bs \<and> e \<in> set (bs ! j))"
proof
  assume "e \<in> set (concat (take i bs))"
  then obtain b where "b \<in> set (take i bs)" "e \<in> set b" by auto
  then show "\<exists>j < i. j < length bs \<and> e \<in> set (bs ! j)" by (metis in_set_conv_nth length_take min_less_iff_conj nth_take)
next
  assume "\<exists>j < i. j < length bs \<and> e \<in> set (bs ! j)"
  then obtain j where "j < i" "j < length bs" "e \<in> set (bs ! j)" by blast
  moreover from this have "bs ! j \<in> set (take i bs)" by (metis in_set_conv_nth length_take min_less_iff_conj nth_take)
  ultimately show "e \<in> set (concat (take i bs))" by auto
qed

lemma in_concat_drop:
  assumes "e \<in> set (concat (drop i bs))"
  obtains j where "i \<le> j" "j < length bs" "e \<in> set (bs ! j)"
proof -
  obtain b where b: "b \<in> set (drop i bs)" "e \<in> set b" using assms by auto
  then obtain j where "j < length bs - i" "bs ! (i + j) = b" by (auto simp: in_set_conv_nth)
  with b(2) that [of "i + j"] show thesis by auto
qed

lemma ksorted_concat_parts:
  assumes "ksorted (concat bs)" "j < length bs"
  shows "ksorted (bs ! j)" "e \<in> set (concat (take j bs)) \<Longrightarrow> e' \<in> set (bs ! j) \<Longrightarrow> fst e < fst e'"
proof -
  have "ksorted (concat (take j bs) @ bs ! j @ concat (drop (Suc j) bs))"
    using assms concat_split [OF assms(2)] by simp
  then show "ksorted (bs ! j)" "e \<in> set (concat (take j bs)) \<Longrightarrow> e' \<in> set (bs ! j) \<Longrightarrow> fst e < fst e'"
    by (auto simp only: ksorted_append set_append)
qed

lemma block_order:
  assumes "ksorted (concat bs)" "\<forall>b \<in> set bs. b \<noteq> []" "i < j" "j < length bs" "e \<in> set (bs ! i)"
  shows "fst e < fst (hd (bs ! j))"
proof -
  have "e \<in> set (concat (take j bs))" using assms(3,4,5) by (auto simp only: in_concat_take)
  moreover have "hd (bs ! j) \<in> set (bs ! j)" using assms(2,4) by simp
  ultimately show ?thesis by (rule ksorted_concat_parts(2) [OF assms(1,4)])
qed

lemma first_le_block:
  assumes "ksorted (concat bs)" "j < length bs" "e \<in> set (bs ! j)"
  shows "fst (hd (bs ! j)) \<le> fst e"
proof -
  have "ksorted (bs ! j)" by (rule ksorted_concat_parts(1) [OF assms(1,2)])
  with assms(3) show ?thesis by (cases "bs ! j") auto
qed

lemma first_le_rest:
  assumes "ksorted (concat bs)" "\<forall>b \<in> set bs. b \<noteq> []" "i \<le> j" "j < length bs" "e \<in> set (bs ! j)"
  shows "fst (hd (bs ! i)) \<le> fst e"
proof (cases "i = j")
  case False
  with assms(3) have "i < j" by simp
  then have "fst (hd (bs ! i)) < fst (hd (bs ! j))"
    using block_order [OF assms(1,2) \<open>i < j\<close> assms(4)] assms(2,4) by simp
  with first_le_block [OF assms(1,4,5)] show ?thesis by simp
qed (use first_le_block [OF assms(1,4,5)] in simp)

lemma first_keys_sorted:
  assumes "ksorted (concat bs)" "\<forall>b \<in> set bs. b \<noteq> []"
  shows "sorted_wrt (<) (map (\<lambda>b. fst (hd b)) bs)"
  using block_order [OF assms] assms(2) by (simp add: sorted_wrt_iff_nth_less)

lemma block_locate:
  assumes "ksorted (concat bs)" "\<forall>b \<in> set bs. b \<noteq> []" "i < length bs" "fst (hd (bs ! i)) \<le> k"
    and "\<forall>j. i < j \<longrightarrow> j < length bs \<longrightarrow> k < fst (hd (bs ! j))"
  shows "map_of (concat bs) k = map_of (bs ! i) k"
proof -
  have "map_of (concat (take i bs)) k = None"
  proof -
    have "fst e \<noteq> k" if e: "e \<in> set (concat (take i bs))" for e
    proof -
      obtain j where "j < i" "e \<in> set (bs ! j)" using e by (auto simp only: in_concat_take)
      then have "fst e < fst (hd (bs ! i))" using block_order [OF assms(1,2) _ assms(3)] by blast
      with assms(4) show ?thesis by simp
    qed
    then show ?thesis by (auto simp: map_of_eq_None_iff)
  qed
  moreover have "map_of (concat (drop (Suc i) bs)) k = None"
  proof -
    have "fst e \<noteq> k" if e: "e \<in> set (concat (drop (Suc i) bs))" for e
    proof -
      obtain j where j: "Suc i \<le> j" "j < length bs" "e \<in> set (bs ! j)" by (rule in_concat_drop [OF e])
      then have "k < fst (hd (bs ! j))" using assms(5) by simp
      with first_le_block [OF assms(1) j(2,3)] show ?thesis by simp
    qed
    then show ?thesis by (auto simp: map_of_eq_None_iff)
  qed
  ultimately show ?thesis
    unfolding concat_split [OF assms(3)] by (auto simp: map_add_def split: option.split)
qed

lemma reader_okD:
  assumes "reader_ok cd r bs"
  shows "length (r_index r) = length bs" "\<forall>b \<in> set bs. b \<noteq> []" "ksorted (concat bs)"
    "i < length bs \<Longrightarrow> load_block cd r i = Some (Inr (bs ! i))"
    "i < length bs \<Longrightarrow> first_key (r_index r ! i) = fst (hd (bs ! i))"
    "map first_key (r_index r) = map (\<lambda>b. fst (hd b)) bs"
  using assms by (auto simp: reader_ok_def in_set_conv_nth intro!: nth_equalityI)

lemma index_search_sorted:
  assumes "reader_ok cd r bs"
  shows "bs_sorted (\<lambda>e. cmp (first_key e) k) (r_index r)"
  by (rule bs_sorted_key) (simp only: reader_okD(6) [OF assms] first_keys_sorted [OF reader_okD(3) [OF assms] reader_okD(2) [OF assms]])

lemma sst_get_yields:
  assumes "reader_ok cd r bs" "U (r_id r) = Some r"
  shows "yields (coherent cd U) (sst_get cd r k) (Inr (map_of (concat bs) k))"
proof -
  note D = reader_okD [OF assms(1)] and s = index_search_sorted [OF assms(1), of k]
  define look where "look = (\<lambda>i. act_bind (read_block cd r i) (\<lambda>block.
      act_ret (case binary_search_by (\<lambda>e. cmp (fst e) k) block of Inr i \<Rightarrow> Some (snd (block ! i)) | Inl _ \<Rightarrow> None)))"
  have look: "yields (coherent cd U) (look i) (Inr (map_of (bs ! i) k))" if "i < length bs" for i
    unfolding look_def
    using yields_bind_ret [OF read_block_yields [where U = U, OF assms(2) D(4) [OF that]],
        of "\<lambda>b. case binary_search_by (\<lambda>e. cmp (fst e) k) b of Inr i \<Rightarrow> Some (snd (b ! i)) | Inl _ \<Rightarrow> None"]
      block_search [OF ksorted_concat_parts(1) [OF D(3) that], of k]
    by simp
  have get: "sst_get cd r k =
      (if r_index r = [] then act_ret None
       else if (case r_bloom r of None \<Rightarrow> False | Some bl \<Rightarrow> \<not> bloom_contains (cd_hashes cd) k bl) then act_ret None
       else case binary_search_by (\<lambda>e. cmp (first_key e) k) (r_index r) of
              Inr idx \<Rightarrow> look idx | Inl idx \<Rightarrow> if idx = 0 then act_ret None else look (idx - 1))"
    by (simp only: sst_get_def look_def Let_def)
  consider (empty) "bs = []" | (bloom) bl where "bs \<noteq> []" "r_bloom r = Some bl" "\<not> bloom_contains (cd_hashes cd) k bl"
    | (search) "bs \<noteq> []" "\<not> (case r_bloom r of None \<Rightarrow> False | Some bl \<Rightarrow> \<not> bloom_contains (cd_hashes cd) k bl)"
    by (cases "bs = []"; cases "r_bloom r"; auto)
  then show ?thesis
  proof cases
    case empty
    with D(1) show ?thesis by (simp add: get yields_ret)
  next
    case bloom
    then have "map_of (concat bs) k = None"
      using assms(1) unfolding reader_ok_def map_of_eq_None_iff by blast
    with bloom D(1) show ?thesis by (simp add: get yields_ret)
  next
    case search
    then have ne: "r_index r \<noteq> []" using D(1) by auto
    show ?thesis
    proof (cases "binary_search_by (\<lambda>e. cmp (first_key e) k) (r_index r)")
      case (Inr i)
      then have i: "i < length bs" "fst (hd (bs ! i)) = k" using binary_search_by_Inr [OF s Inr] D by auto
      have "k < fst (hd (bs ! j))" if "i < j" "j < length bs" for j
        using block_order [OF D(3,2) that, of "hd (bs ! i)"] i D(2) by simp
      with i have "map_of (concat bs) k = map_of (bs ! i) k" by (intro block_locate [OF D(3,2)]) auto
      with look [OF i(1)] show ?thesis using search ne Inr by (simp add: get)
    next
      case (Inl i)
      note P = binary_search_by_Inl [OF s Inl]
      show ?thesis
      proof (cases "i = 0")
        case True
        have "fst e \<noteq> k" if e: "e \<in> set (concat bs)" for e
        proof -
          obtain j where j: "j < length bs" "e \<in> set (bs ! j)"
            using in_concat_drop [of e 0 bs] e by auto
          then have "k < fst (hd (bs ! j))" using P True D by auto
          with first_le_block [OF D(3) j] show ?thesis by simp
        qed
        then have "map_of (concat bs) k = None" unfolding map_of_eq_None_iff by blast
        with True search ne Inl show ?thesis by (simp add: get yields_ret)
      next
        case False
        have "i \<le> length bs" using P D(1) by simp
        then have i: "i - 1 < length bs" using False by linarith
        have "cmp (first_key (r_index r ! (i - 1))) k = Less" using P False by simp
        then have "fst (hd (bs ! (i - 1))) \<le> k" using D(5) [OF i] by simp
        moreover have "k < fst (hd (bs ! j))" if "i - 1 < j" "j < length bs" for j
        proof -
          have "cmp (first_key (r_index r ! j)) k = Greater" using P that D(1) by simp
          then show ?thesis using D(5) [OF that(2)] by simp
        qed
        ultimately have "map_of (concat bs) k = map_of (bs ! (i - 1)) k"
          by (intro block_locate [OF D(3,2) i]) auto
        with look [OF i] False show ?thesis using search ne Inl by (simp add: get)
      qed
    qed
  qed
qed

subsection \<open>Range scans\<close>

lemma scan_blocks_yields:
  assumes "reader_ok cd r bs" "U (r_id r) = Some r" "i \<le> length bs"
    and "\<And>b. (\<forall>e \<in> set b. end < fst e) \<Longrightarrow> collect b = []"
  shows "yields (coherent cd U) (scan_blocks cd r end collect [i..<length bs] res)
    (Inr (res @ concat (map collect (drop i bs))))"
  using assms(3)
proof (induction "length bs - i" arbitrary: i res)
  case 0
  then show ?case by (simp add: yields_ret)
next
  case (Suc n)
  note D = reader_okD [OF assms(1)]
  have i: "i < length bs" using Suc.hyps(2) by simp
  have up: "[i..<length bs] = i # [Suc i..<length bs]" using i by (rule upt_conv_Cons)
  have dr: "drop i bs = bs ! i # drop (Suc i) bs" using i by (rule Cons_nth_drop_Suc [symmetric])
  show ?case
  proof (cases "end < first_key (r_index r ! i)")
    case True
    have "collect b = []" if b: "b \<in> set (drop i bs)" for b
    proof -
      obtain m where "m < length bs - i" "drop i bs ! m = b" using b by (auto simp: in_set_conv_nth)
      then have m: "i + m < length bs" "b = bs ! (i + m)" using i by auto
      have "end < fst (hd (bs ! i))" using True D(5) [OF i] by simp
      moreover have "fst (hd (bs ! i)) \<le> fst e" if "e \<in> set b" for e
        using first_le_rest [OF D(3,2) le_add1 m(1)] that m(2) by blast
      ultimately have "\<forall>e \<in> set b. end < fst e" by (blast intro: less_le_trans)
      then show ?thesis by (rule assms(4))
    qed
    then have e: "concat (map collect (drop i bs)) = []" by simp
    show ?thesis unfolding e using True by (simp add: up yields_ret)
  next
    case False
    have "yields (coherent cd U) (scan_blocks cd r end collect [Suc i..<length bs] (res @ collect (bs ! i)))
      (Inr (res @ concat (map collect (drop i bs))))"
      using Suc.hyps(1) [of "Suc i" "res @ collect (bs ! i)"] Suc.hyps(2) i by (simp add: dr)
    then show ?thesis
      using yields_bind [OF read_block_yields [where U = U, OF assms(2) D(4) [OF i]]] False by (simp add: up)
  qed
qed

text \<open>No block before the start block has a key of the range.\<close>

lemma start_block_ok:
  assumes "reader_ok cd r bs"
  shows "start_block r start \<le> length bs" "j < start_block r start \<Longrightarrow> e \<in> set (bs ! j) \<Longrightarrow> fst e < start"
proof -
  note D = reader_okD [OF assms] and s = index_search_sorted [OF assms, of start]
  have "start_block r start \<le> length bs \<and>
    (0 < start_block r start \<longrightarrow> start_block r start < length bs \<and> fst (hd (bs ! start_block r start)) \<le> start)"
  proof (cases "binary_search_by (\<lambda>e. cmp (first_key e) start) (r_index r)")
    case (Inr i)
    with binary_search_by_Inr [OF s Inr] D(1,5) show ?thesis by (auto simp: start_block_def)
  next
    case (Inl i)
    note P = binary_search_by_Inl [OF s Inl]
    have "i \<le> length bs" using P D(1) by simp
    moreover have "fst (hd (bs ! (i - 1))) \<le> start" if "0 < i"
    proof -
      have "cmp (first_key (r_index r ! (i - 1))) start = Less" using P that by simp
      then show ?thesis using D(5) [of "i - 1"] that calculation by simp
    qed
    ultimately show ?thesis using Inl by (auto simp: start_block_def)
  qed
  then show "start_block r start \<le> length bs" "j < start_block r start \<Longrightarrow> e \<in> set (bs ! j) \<Longrightarrow> fst e < start"
    using block_order [OF D(3,2), of j "start_block r start" e] by (auto intro: less_le_trans)
qed

lemma scan_from_start:
  assumes "reader_ok cd r bs" "U (r_id r) = Some r"
    and none: "\<And>b. (\<forall>e \<in> set b. end < fst e \<or> fst e < start) \<Longrightarrow> collect b = []"
  shows "yields (coherent cd U) (scan_blocks cd r end collect [start_block r start..<length (r_index r)] [])
    (Inr (concat (map collect bs)))"
proof -
  let ?s = "start_block r start"
  have "collect b = []" if b: "b \<in> set (take ?s bs)" for b
  proof -
    obtain j where "j < ?s" "b = bs ! j" using b by (auto simp: in_set_conv_nth)
    with start_block_ok(2) [OF assms(1), of j start] show ?thesis by (intro none) blast
  qed
  then have "concat (map collect (take ?s bs)) = []" by simp
  then have "concat (map collect bs) = concat (map collect (drop ?s bs))"
    by (metis append_take_drop_id append_Nil concat_append map_append)
  moreover have "yields (coherent cd U) (scan_blocks cd r end collect [?s..<length bs] [])
    (Inr ([] @ concat (map collect (drop ?s bs))))"
    by (rule scan_blocks_yields [where U = U and i = ?s, OF assms(1,2) start_block_ok(1) [OF assms(1)]]) (simp add: none)
  ultimately show ?thesis by (simp add: reader_okD(1) [OF assms(1)])
qed

lemma sst_scan_raw_yields:
  assumes "reader_ok cd r bs" "U (r_id r) = Some r"
  shows "yields (coherent cd U) (sst_scan_raw cd r start end) (Inr (filter (in_range start end) (concat bs)))"
proof (cases "bs = []")
  case True
  then show ?thesis using reader_okD(1) [OF assms(1)] by (simp add: sst_scan_raw_def yields_ret)
next
  case False
  then have "r_index r \<noteq> []" using reader_okD(1) [OF assms(1)] by auto
  have "yields (coherent cd U) (scan_blocks cd r end (filter (in_range start end)) [start_block r start..<length (r_index r)] [])
    (Inr (concat (map (filter (in_range start end)) bs)))"
    by (rule scan_from_start [where U = U and bs = bs, OF assms]) (auto simp: filter_empty_conv in_range_def)
  with \<open>r_index r \<noteq> []\<close> show ?thesis by (simp add: sst_scan_raw_def filter_concat)
qed

section \<open>What a writer has written\<close>

text \<open>The index of the flushed blocks, given with their encodings.\<close>

fun index_from :: "'x sst_codec \<Rightarrow> nat \<Rightarrow> ('x entry list \<times> byte list) list \<Rightarrow> 'x index_entry list" where
  "index_from cd off [] = []"
| "index_from cd off ((b, bytes) # ws) =
     \<lparr>first_key = fst (hd b), ie_offset = off, ie_size = length bytes, ie_checksum = cd_sum cd bytes\<rparr>
     # index_from cd (off + length bytes) ws"

definition writer_inv ::
  "('x::linorder) sst_codec \<Rightarrow> compression_type \<Rightarrow> layout \<Rightarrow> bloom_filter option \<Rightarrow> 'x entry list
    \<Rightarrow> ('x entry list \<times> byte list) list \<Rightarrow> 'x sst_writer \<Rightarrow> bool" where
  "writer_inv cd cmpr lay bl es ws w \<longleftrightarrow>
     w_file w = Some (concat (map snd ws)) \<and> w_offset w = length (concat (map snd ws))
   \<and> (\<forall>(b, bytes) \<in> set ws. b \<noteq> [] \<and> encode_block cd cmpr b = Some bytes)
   \<and> es = concat (map fst ws) @ w_block w
   \<and> w_index w = index_from cd 0 ws @
       (if w_block w = [] then [] else [\<lparr>first_key = fst (hd (w_block w)), ie_offset = w_offset w, ie_size = 0, ie_checksum = 0\<rparr>])
   \<and> w_compression w = cmpr \<and> w_layout w = lay
   \<and> w_entries w = length es \<and> w_tombstones w = length (filter (\<lambda>e. snd e = None) es)
   \<and> w_total_bytes w = sum_list (map entry_byte_size es)
   \<and> w_min_key w = (if es = [] then None else Some (fst (hd es)))
   \<and> (w_block w = [] \<longrightarrow> w_max_key w = (if es = [] then None else Some (fst (last es))))
   \<and> w_bloom w = map_option (bloom_insert_all (cd_hashes cd) (map fst es)) bl"

lemma index_from_append:
  "index_from cd off (ws @ ws') = index_from cd off ws @ index_from cd (off + length (concat (map snd ws))) ws'"
  by (induction cd off ws rule: index_from.induct) (auto simp: add.assoc)

lemma length_index_from [simp]: "length (index_from cd off ws) = length ws"
  by (induction cd off ws rule: index_from.induct) auto

lemma index_from_nth:
  "i < length ws \<Longrightarrow> index_from cd off ws ! i =
     \<lparr>first_key = fst (hd (fst (ws ! i))), ie_offset = off + length (concat (map snd (take i ws))),
      ie_size = length (snd (ws ! i)), ie_checksum = cd_sum cd (snd (ws ! i))\<rparr>"
proof (induction cd off ws arbitrary: i rule: index_from.induct)
  case (2 cd off b bytes ws)
  then show ?case by (cases i) auto
qed simp

lemma set_last_snoc [simp]: "set_last f (xs @ [x]) = xs @ [f x]"
  by (simp add: set_last_def)

lemma sst_create_inv:
  assumes "sst_create cd True lim cmpr n lay = Inr w"
  shows "writer_inv cd cmpr lay (if 0 < n then Some (bloom_new (cd_opt_bits cd) (cd_opt_hashes cd) n) else None) [] [] w"
  using assms by (auto simp: sst_create_def writer_inv_def bloom_insert_all_def)

lemma flush_block_inv:
  assumes "writer_inv cd cmpr lay bl es ws w" "flush_block cd io w = Some (w', Inr ())"
  shows "\<exists>ws'. writer_inv cd cmpr lay bl es ws' w' \<and> w_block w' = []"
proof (cases "w_block w = []")
  case True
  then show ?thesis using assms by (auto simp: flush_block_def)
next
  case False
  have c: "w_compression w = cmpr" and f: "w_file w = Some (concat (map snd ws))" using assms(1) by (auto simp: writer_inv_def)
  obtain bytes where b: "encode_block cd cmpr (w_block w) = Some bytes"
    using assms(2) False c by (auto simp: flush_block_def Let_def split: option.splits)
  have w: "wr io = None" and w': "w' = w\<lparr>w_max_key := Some (fst (last (w_block w))), w_file := Some (concat (map snd ws) @ bytes),
      w_index := set_last (\<lambda>e. e\<lparr>ie_size := length bytes, ie_checksum := cd_sum cd bytes\<rparr>) (w_index w),
      w_offset := w_offset w + length bytes, w_block := [], w_block_bytes := 0\<rparr>"
    using assms(2) False c f b by (auto simp: flush_block_def Let_def write_all_def split: option.splits)
  have "writer_inv cd cmpr lay bl es (ws @ [(w_block w, bytes)]) w'"
    using assms(1) False b unfolding writer_inv_def w' by (auto simp: index_from_append)
  then show ?thesis by (auto simp: w')
qed

lemma bloom_option_snoc:
  "map_option (bloom_insert hs k) (map_option (bloom_insert_all hs ks) bl) = map_option (bloom_insert_all hs (ks @ [k])) bl"
  by (cases bl) (simp_all add: bloom_insert_all_def)

lemma sst_append_inv:
  assumes "writer_inv cd cmpr lay bl es ws w" "sst_append cd io k v w = Some (w', Inr ())"
  shows "\<exists>ws'. writer_inv cd cmpr lay bl (es @ [(k, v)]) ws' w'"
proof -
  define w3 where "w3 = w\<lparr>w_bloom := map_option (bloom_insert (cd_hashes cd) k) (w_bloom w), w_entries := w_entries w + 1,
      w_tombstones := w_tombstones w + (if v = None then 1 else 0),
      w_total_bytes := w_total_bytes w + (key_byte_size k + slot_byte_size v),
      w_min_key := (if w_min_key w = None then Some k else w_min_key w),
      w_index := (if w_block w = [] then w_index w @ [\<lparr>first_key = k, ie_offset = w_offset w, ie_size = 0, ie_checksum = 0\<rparr>] else w_index w),
      w_block := w_block w @ [(k, v)], w_block_bytes := w_block_bytes w + (key_byte_size k + slot_byte_size v)\<rparr>"
  have "sst_append cd io k v w = (if w_limit w3 \<le> w_block_bytes w3 then flush_block cd io w3 else Some (w3, Inr ()))"
    by (simp add: sst_append_def Let_def w3_def)
  moreover have "writer_inv cd cmpr lay bl (es @ [(k, v)]) ws w3"
  proof -
    have E: "es @ [(k, v)] = concat (map fst ws) @ (w_block w @ [(k, v)])" using assms(1) by (simp add: writer_inv_def)
    have "w_bloom w3 = map_option (bloom_insert_all (cd_hashes cd) (map fst (es @ [(k, v)]))) bl"
      using assms(1) by (simp only: writer_inv_def w3_def bloom_option_snoc map_append) simp
    moreover have "w_min_key w = (if es = [] then None else Some (fst (hd es)))"
      using assms(1) unfolding writer_inv_def by blast
    then have "w_min_key w3 = Some (fst (hd (es @ [(k, v)])))" by (cases es) (simp_all add: w3_def)
    moreover have "w_total_bytes w3 = sum_list (map entry_byte_size (es @ [(k, v)]))"
      "w_entries w3 = length (es @ [(k, v)])" "w_tombstones w3 = length (filter (\<lambda>e. snd e = None) (es @ [(k, v)]))"
      using assms(1) by (simp_all only: writer_inv_def w3_def) (simp_all add: entry_byte_size_def)
    moreover have "w_index w3 = index_from cd 0 ws
        @ [\<lparr>first_key = fst (hd (w_block w3)), ie_offset = w_offset w3, ie_size = 0, ie_checksum = 0\<rparr>]"
      using assms(1) by (cases "w_block w") (simp_all add: writer_inv_def w3_def)
    moreover have "w_block w3 = w_block w @ [(k, v)]" "w_offset w3 = w_offset w" "w_file w3 = w_file w"
      "w_compression w3 = w_compression w" "w_layout w3 = w_layout w"
      by (simp_all add: w3_def)
    ultimately show ?thesis using assms(1) E unfolding writer_inv_def by simp
  qed
  ultimately show ?thesis using flush_block_inv [of cd cmpr lay bl "es @ [(k, v)]" ws w3] assms(2) by (auto split: if_splits)
qed

fun sst_append_all ::
  "('x::linorder) sst_codec \<Rightarrow> (nat \<Rightarrow> io) \<Rightarrow> 'x entry list \<Rightarrow> 'x sst_writer \<Rightarrow> ('x sst_writer \<times> unit result) option" where
  "sst_append_all cd ios [] w = Some (w, Inr ())"
| "sst_append_all cd ios (e # es) w =
     (case sst_append cd (ios 0) (fst e) (snd e) w of
        None \<Rightarrow> None
      | Some (w', Inl err) \<Rightarrow> Some (w', Inl err)
      | Some (w', Inr _) \<Rightarrow> sst_append_all cd (\<lambda>i. ios (Suc i)) es w')"

lemma sst_append_all_inv:
  assumes "writer_inv cd cmpr lay bl es0 ws w" "sst_append_all cd ios es w = Some (w', Inr ())"
  shows "\<exists>ws'. writer_inv cd cmpr lay bl (es0 @ es) ws' w'"
  using assms
proof (induction cd ios es w arbitrary: es0 ws rule: sst_append_all.induct)
  case (2 cd ios e es w)
  obtain w1 where w1: "sst_append cd (ios 0) (fst e) (snd e) w = Some (w1, Inr ())"
    "sst_append_all cd (\<lambda>i. ios (Suc i)) es w1 = Some (w', Inr ())"
    using 2(3) by (auto split: option.splits sum.splits)
  obtain ws1 where "writer_inv cd cmpr lay bl (es0 @ [e]) ws1 w1"
    using sst_append_inv [OF 2(2) w1(1)] by auto
  from 2(1) [OF w1(1) refl _ this w1(2)] show ?case by simp
qed auto

section \<open>From the writer to the reader\<close>

lemma slice_concat:
  assumes "i < length ws"
  shows "take (length (snd (ws ! i))) (drop (length (concat (map snd (take i ws)))) (concat (map snd ws) @ rest)) = snd (ws ! i)"
    and "length (concat (map snd (take i ws))) + length (snd (ws ! i)) \<le> length (concat (map snd ws))"
proof -
  have "concat (map snd ws) = concat (map snd (take i ws)) @ snd (ws ! i) @ concat (map snd (drop (Suc i) ws))"
    using id_take_nth_drop [OF assms] by (metis (no_types, lifting) concat.simps(2) concat_append list.simps(9) map_append)
  then show "take (length (snd (ws ! i))) (drop (length (concat (map snd (take i ws)))) (concat (map snd ws) @ rest)) = snd (ws ! i)"
    "length (concat (map snd (take i ws))) + length (snd (ws ! i)) \<le> length (concat (map snd ws))"
    by simp_all
qed

lemma load_block_written:
  assumes "codec_ok cd" "i < length ws" "encode_block cd cmpr (fst (ws ! i)) = Some (snd (ws ! i))"
    and "r_file r = concat (map snd ws) @ rest" "r_file_size r = length (r_file r)"
    and "r_index r = index_from cd 0 ws" "r_compression r = cmpr"
  shows "load_block cd r i = Some (Inr (fst (ws ! i)))"
proof -
  obtain raw where raw: "cd_ser_block cd (fst (ws ! i)) = Some raw" "cd_de_block cd raw = Some (fst (ws ! i))"
    and bytes: "snd (ws ! i) = (case cmpr of Lz4 \<Rightarrow> cd_compress cd raw | Uncompressed \<Rightarrow> raw)"
    using assms(1,3) unfolding codec_ok_def by (auto simp: encode_block_def)
  note e = index_from_nth [OF assms(2), of cd 0] and S = slice_concat [OF assms(2)]
  have dec: "rbind (case cmpr of Lz4 \<Rightarrow> ok_or (Compression ''lz4'') (cd_decompress cd (snd (ws ! i))) | Uncompressed \<Rightarrow> Inr (snd (ws ! i)))
      (\<lambda>raw. ok_or Serialization (cd_de_block cd raw)) = Inr (fst (ws ! i))"
    using assms(1) raw bytes by (cases cmpr) (auto simp: codec_ok_def)
  have "\<not> (r_file_size r < length (concat (map snd (take i ws)))
      \<or> r_file_size r - length (concat (map snd (take i ws))) < length (snd (ws ! i)))"
    using S(2) assms(4,5) by auto
  then show ?thesis
    using assms(2,6,7) dec S(1) [of rest] by (simp add: load_block_def Let_def e assms(4))
qed

lemma length_footer: "length (footer cd off ib) = FOOTER_SIZE"
  by (simp add: footer_def MAGIC_NUMBER_def FOOTER_SIZE_def)

lemma unat_of_nat_u64: "n < 2 ^ 64 \<Longrightarrow> unat (of_nat n :: u64) = n"
  by (simp add: unsigned_of_nat take_bit_nat_eq_self)

lemma sst_open_footer:
  assumes "codec_ok cd" "cd_ser_index cd ib = Some bytes" "length (dat @ bytes @ footer cd (length dat) bytes) < 2 ^ 64"
  shows "sst_open cd sid level (dat @ bytes @ footer cd (length dat) bytes) =
     rbind (if ib_entries ib = [] then Inr (KInt 0)
            else ok_or (Corruption ''SSTable index is non-empty but stats.max_key is missing'') (st_max_key (ib_stats ib)))
       (\<lambda>last_key.
          Inr \<lparr>r_file = dat @ bytes @ footer cd (length dat) bytes, r_index = ib_entries ib, r_compression = ib_compression ib,
               r_id = sid, r_level = level, r_last_key = last_key, r_stats = ib_stats ib, r_bloom = ib_bloom ib,
               r_file_size = length (dat @ bytes @ footer cd (length dat) bytes), r_layout = ib_layout ib\<rparr>)"
proof -
  let ?ft = "footer cd (length dat) bytes" and ?f = "dat @ bytes @ footer cd (length dat) bytes"
  have d: "drop (length ?f - FOOTER_SIZE) ?f = ?ft" by (simp add: length_footer)
  have n: "unat (of_nat (length dat) :: u64) = length dat" "unat (of_nat (length bytes) :: u64) = length bytes"
    using assms(3) by (simp_all add: unat_of_nat_u64)
  have ft: "from_le64 (take 8 ?ft) = of_nat (length dat)" "from_le64 (take 8 (drop 8 ?ft)) = of_nat (length bytes)"
    "from_le32 (take 4 (drop 16 ?ft)) = cd_sum cd bytes" "drop 20 ?ft = MAGIC_NUMBER"
    by (simp_all add: footer_def)
  have de: "cd_de_index cd bytes = Some ib" using assms(1,2) by (simp add: codec_ok_def)
  have "take (length bytes) (drop (length dat) ?f) = bytes" by simp
  then show ?thesis unfolding sst_open_def Let_def d ft n using de by (simp add: length_footer)
qed

lemma sst_finish_file:
  assumes "sst_finish cd io old w = Some (Some f, tmp, Inr ())" "writer_inv cd cmpr lay bl es ws w"
  obtains w' ws' bytes where "writer_inv cd cmpr lay bl es ws' w'" "w_block w' = []"
    "cd_ser_index cd (index_block_of w') = Some bytes" "f = concat (map snd ws') @ bytes @ footer cd (length (concat (map snd ws'))) bytes"
proof -
  obtain w' where fl: "flush_block cd (io.truncate io) w = Some (w', Inr ())"
    using assms(1) by (auto simp: sst_finish_def finish_internal_def split: option.splits sum.splits)
  obtain ws' where W: "writer_inv cd cmpr lay bl es ws' w'" "w_block w' = []"
    using flush_block_inv [OF assms(2) fl] by blast
  then have "w_file w' = Some (concat (map snd ws'))" "w_offset w' = length (concat (map snd ws'))"
    by (auto simp: writer_inv_def)
  with assms(1) fl that [OF W] show thesis
    by (auto simp: sst_finish_def finish_internal_def write_all_def split: option.splits sum.splits if_splits)
qed

lemma written_reader_ok:
  assumes "codec_ok cd" "ksorted es" "writer_inv cd cmpr lay bl es ws w" "w_block w = []"
    and "cd_ser_index cd (index_block_of w) = Some bytes"
    and f: "f = concat (map snd ws) @ bytes @ footer cd (length (concat (map snd ws))) bytes" and len: "length f < 2 ^ 64"
    and bl: "\<And>b. bl = Some b \<Longrightarrow> bloom_bits b \<noteq> 0"
  shows "\<exists>r. sst_open cd sid level f = Inr r \<and> reader_ok cd r (map fst ws) \<and> concat (map fst ws) = es
    \<and> r_id r = sid \<and> r_level r = level \<and> r_layout r = lay \<and> r_file_size r = length f
    \<and> r_stats r = \<lparr>st_entries = length es, st_tombstones = length (filter (\<lambda>e. snd e = None) es),
        st_bytes = sum_list (map entry_byte_size es), st_min_key = (if es = [] then None else Some (fst (hd es))),
        st_max_key = (if es = [] then None else Some (fst (last es)))\<rparr>"
proof -
  have es: "concat (map fst ws) = es" and idx: "w_index w = index_from cd 0 ws"
    and blocks: "\<forall>(b, bytes) \<in> set ws. b \<noteq> [] \<and> encode_block cd cmpr b = Some bytes"
    and mx: "w_max_key w = (if es = [] then None else Some (fst (last es)))"
    and rest: "w_compression w = cmpr" "w_layout w = lay" "w_entries w = length es"
      "w_tombstones w = length (filter (\<lambda>e. snd e = None) es)" "w_total_bytes w = sum_list (map entry_byte_size es)"
      "w_min_key w = (if es = [] then None else Some (fst (hd es)))"
      "w_bloom w = map_option (bloom_insert_all (cd_hashes cd) (map fst es)) bl"
    using assms(3,4) by (simp_all add: writer_inv_def)
  have enc: "fst (ws ! i) \<noteq> [] \<and> encode_block cd cmpr (fst (ws ! i)) = Some (snd (ws ! i))" if "i < length ws" for i
    using bspec [OF blocks nth_mem [OF that]] by (simp add: split_beta)
  have ne: "es = [] \<longleftrightarrow> ws = []"
  proof
    assume "es = []"
    then have "\<forall>i < length ws. fst (ws ! i) = []" using es by (metis concat_eq_Nil_conv in_set_conv_nth length_map nth_map)
    then show "ws = []" using enc by (cases ws) auto
  qed (use es in auto)
  define lk where "lk = (if es = [] then KInt 0 else fst (last es))"
  define r where "r = \<lparr>r_file = f, r_index = index_from cd 0 ws, r_compression = cmpr, r_id = sid, r_level = level,
     r_last_key = lk, r_stats = ib_stats (index_block_of w), r_bloom = w_bloom w, r_file_size = length f, r_layout = lay\<rparr>"
  have "index_from cd 0 ws = [] \<longleftrightarrow> ws = []" by (metis length_index_from length_0_conv)
  then have "sst_open cd sid level f = Inr r"
    using sst_open_footer [OF assms(1,5), of "concat (map snd ws)" sid level] len ne
    unfolding f [symmetric] by (simp add: index_block_of_def r_def lk_def idx mx rest)
  moreover have "reader_ok cd r (map fst ws)"
  proof -
    have "load_block cd r i = Some (Inr (fst (ws ! i)))" if "i < length ws" for i
      using enc [OF that] by (intro load_block_written [OF assms(1) that, where rest = "bytes @ footer cd (length (concat (map snd ws))) bytes"])
        (simp_all add: r_def f)
    moreover have "bloom_contains (cd_hashes cd) k b" if rb: "r_bloom r = Some b" and k: "k \<in> fst ` set es" for k b
    proof -
      obtain z where z: "bl = Some z" "b = bloom_insert_all (cd_hashes cd) (map fst es) z" using rb by (auto simp: r_def rest)
      then show ?thesis using k by (simp add: bloom_contains_insert_all [OF bl])
    qed
    ultimately show ?thesis
      using enc assms(2) ne by (auto simp: reader_ok_def es r_def lk_def index_from_nth)
  qed
  ultimately show ?thesis
    using es by (intro exI [of _ r]) (simp add: r_def index_block_of_def rest mx)
qed

text \<open>With a serializer that succeeds and no I/O faults, the writer succeeds.\<close>

lemma flush_block_succeeds:
  assumes "\<And>b. cd_ser_block cd b \<noteq> None" "w_file w \<noteq> None" "wr io = None"
  shows "\<exists>w'. flush_block cd io w = Some (w', Inr ()) \<and> w_file w' \<noteq> None"
  using assms(2,3) assms(1) [of "w_block w"] by (auto simp: flush_block_def encode_block_def Let_def write_all_def)

lemma sst_append_all_succeeds:
  assumes "\<And>b. cd_ser_block cd b \<noteq> None" "w_file w \<noteq> None" "\<And>i. wr (ios i) = None"
  shows "\<exists>w'. sst_append_all cd ios es w = Some (w', Inr ()) \<and> w_file w' \<noteq> None"
  using assms(2,3)
proof (induction es arbitrary: w ios)
  case (Cons e es)
  have "\<exists>w1. sst_append cd (ios 0) (fst e) (snd e) w = Some (w1, Inr ()) \<and> w_file w1 \<noteq> None"
    using Cons.prems flush_block_succeeds [OF assms(1), where io = "ios 0"] by (auto simp: sst_append_def Let_def)
  then obtain w1 where "sst_append cd (ios 0) (fst e) (snd e) w = Some (w1, Inr ())" "w_file w1 \<noteq> None" by blast
  with Cons.IH [of w1 "\<lambda>i. ios (Suc i)"] Cons.prems show ?case by simp
qed auto

definition sst_io_ok :: sst_io where
  "sst_io_ok = \<lparr>wr = None, sy = True, tr = True, rn = True, ds = True, rm = True\<rparr>"

lemma sst_finish_succeeds:
  assumes "\<And>b. cd_ser_block cd b \<noteq> None" "\<And>ib. cd_ser_index cd ib \<noteq> None" "w_file w \<noteq> None"
  shows "\<exists>f. sst_finish cd sst_io_ok old w = Some (Some f, False, Inr ())"
proof -
  obtain w' where "flush_block cd (io.truncate sst_io_ok) w = Some (w', Inr ())" "w_file w' \<noteq> None"
    using flush_block_succeeds [OF assms(1,3), of "io.truncate sst_io_ok"] by (auto simp: sst_io_ok_def io.truncate_def)
  with assms(2) [of "index_block_of w'"] show ?thesis
    by (auto simp: sst_finish_def finish_internal_def write_all_def sst_io_ok_def io.truncate_def)
qed

section \<open>Properties\<close>

text \<open>
  C14: SSTable round trip. A file that a writer finished successfully, from entries appended in strictly
  increasing key order, opens; and through any coherent block cache, or none, a point lookup on it
  returns exactly what the entries say (a value, a tombstone, or absence), and a raw range scan returns
  exactly the entries of the range, in order. The statistics count the entries and tombstones and carry
  the extreme keys.
\<close>

theorem sstable_round_trip:
  assumes "codec_ok cd" "ksorted es" "max (cd_opt_bits cd n) 8 + 7 < 2 ^ 64"
    and "sst_create cd True lim cmpr n lay = Inr w0"
    and "sst_append_all cd ios es w0 = Some (w, Inr ())"
    and "sst_finish cd io old w = Some (Some f, tmp, Inr ())" "length f < 2 ^ 64"
  shows "\<exists>r. sst_open cd sid level f = Inr r
    \<and> (\<forall>k. yields (coherent cd [sid \<mapsto> r]) (sst_get cd r k) (Inr (map_of es k)))
    \<and> (\<forall>lo hi. yields (coherent cd [sid \<mapsto> r]) (sst_scan_raw cd r lo hi) (Inr (filter (in_range lo hi) es)))
    \<and> st_entries (r_stats r) = length es \<and> st_tombstones (r_stats r) = length (filter (\<lambda>e. snd e = None) es)
    \<and> (es \<noteq> [] \<longrightarrow> sst_first_key r = Some (fst (hd es)) \<and> r_last_key r = fst (last es))"
proof -
  let ?bl = "if 0 < n then Some (bloom_new (cd_opt_bits cd) (cd_opt_hashes cd) n) else None"
  obtain ws where "writer_inv cd cmpr lay ?bl ([] @ es) ws w"
    using sst_append_all_inv [OF sst_create_inv [OF assms(4)] assms(5)] by blast
  then have W: "writer_inv cd cmpr lay ?bl es ws w" by simp
  obtain w' ws' bytes where F: "writer_inv cd cmpr lay ?bl es ws' w'" "w_block w' = []"
    "cd_ser_index cd (index_block_of w') = Some bytes"
    "f = concat (map snd ws') @ bytes @ footer cd (length (concat (map snd ws'))) bytes"
    by (rule sst_finish_file [OF assms(6) W])
  have "bloom_bits b \<noteq> 0" if "?bl = Some b" for b
    using that bloom_new_bits [of n "cd_opt_bits cd" "cd_opt_hashes cd"] assms(3) by (auto split: if_splits)
  from written_reader_ok [OF assms(1,2) F assms(7) this, of sid level]
  obtain r where r: "sst_open cd sid level f = Inr r" "reader_ok cd r (map fst ws')" "concat (map fst ws') = es"
    "r_id r = sid" "st_entries (r_stats r) = length es" "st_tombstones (r_stats r) = length (filter (\<lambda>e. snd e = None) es)"
    by auto
  have U: "[sid \<mapsto> r] (r_id r) = Some r" using r(4) by simp
  have "sst_first_key r = Some (fst (hd es)) \<and> r_last_key r = fst (last es)" if "es \<noteq> []"
  proof -
    have "ws' \<noteq> []" using that r(3) by auto
    then obtain b bs where bs: "map fst ws' = b # bs" by (cases ws') auto
    then obtain e ix where ix: "r_index r = e # ix" using reader_okD(1) [OF r(2)] by (cases "r_index r") auto
    have "b \<noteq> []" "first_key e = fst (hd b)" using reader_okD(2,5) [OF r(2)] bs ix by fastforce+
    moreover have "hd es = hd b" using bs r(3) \<open>b \<noteq> []\<close> by auto
    moreover have "r_last_key r = fst (last es)" using r(2,3) \<open>ws' \<noteq> []\<close> by (auto simp: reader_ok_def)
    ultimately show ?thesis using ix by (simp add: sst_first_key_def)
  qed
  then show ?thesis
    using r sst_get_yields [where U = "[sid \<mapsto> r]", OF r(2) U] sst_scan_raw_yields [where U = "[sid \<mapsto> r]", OF r(2) U]
    by (intro exI [of _ r]) simp
qed

text \<open>A concrete codec for the witnesses: it knows the two blocks and the index block of one small file.\<close>

definition demo_rows :: "nat entry list" where
  "demo_rows = [(KInt 1, Some (VInt 5)), (KInt 2, None)]"

definition demo_index :: "nat index_block" where
  "demo_index =
     \<lparr>ib_entries = [\<lparr>first_key = KInt 1, ie_offset = 0, ie_size = 1, ie_checksum = 3\<rparr>,
                    \<lparr>first_key = KInt 2, ie_offset = 1, ie_size = 1, ie_checksum = 4\<rparr>],
      ib_compression = Lz4,
      ib_stats = \<lparr>st_entries = 2, st_tombstones = 1, st_bytes = 25, st_min_key = Some (KInt 1), st_max_key = Some (KInt 2)\<rparr>,
      ib_bloom = Some \<lparr>bit_vec = [1], num_hashes = 1, bits_count = 8\<rparr>, ib_layout = []\<rparr>"

definition demo_codec :: "nat sst_codec" where
  "demo_codec =
     \<lparr>cd_sum = demo_hash,
      cd_ser_block = (\<lambda>b. if b = take 1 demo_rows then Some [3] else if b = drop 1 demo_rows then Some [4] else None),
      cd_de_block = (\<lambda>bs. if bs = [3] then Some (take 1 demo_rows) else if bs = [4] then Some (drop 1 demo_rows) else None),
      cd_ser_index = (\<lambda>ib. if ib = demo_index then Some [9] else None),
      cd_de_index = (\<lambda>bs. if bs = [9] then Some demo_index else None),
      cd_compress = id, cd_decompress = Some, cd_hashes = (\<lambda>k. (0, 0)), cd_opt_bits = (\<lambda>n. 8), cd_opt_hashes = (\<lambda>m n. 1)\<rparr>"

lemma demo_codec_ok: "codec_ok demo_codec"
  by (auto simp: codec_ok_def demo_codec_def demo_rows_def split: if_splits)

definition demo_file :: "byte list" where
  "demo_file = [3, 4, 9] @ footer demo_codec 2 [9]"

lemma demo_hash_one: "demo_hash [b] = ucast b"
  by (simp add: demo_hash_def)

lemma demo_written:
  "\<exists>w0 w. sst_create demo_codec True 1 Lz4 2 [] = Inr w0 \<and> sst_append_all demo_codec (\<lambda>i. io_ok) demo_rows w0 = Some (w, Inr ())
    \<and> sst_finish demo_codec sst_io_ok None w = Some (Some demo_file, False, Inr ())"
proof -
  define w0 :: "nat sst_writer" where "w0 = \<lparr>w_file = Some [], w_offset = 0, w_limit = 1, w_block = [], w_block_bytes = 0, w_index = [],
      w_compression = Lz4, w_entries = 0, w_tombstones = 0, w_total_bytes = 0, w_min_key = None, w_max_key = None,
      w_bloom = Some \<lparr>bit_vec = [0], num_hashes = 1, bits_count = 8\<rparr>, w_layout = []\<rparr>"
  define w1 where "w1 = w0\<lparr>w_file := Some [3, 4], w_offset := 2, w_index := ib_entries demo_index, w_entries := 2, w_tombstones := 1,
      w_total_bytes := 25, w_min_key := Some (KInt 1), w_max_key := Some (KInt 2), w_bloom := ib_bloom demo_index\<rparr>"
  have bl: "bloom_insert (\<lambda>k. (0, 0)) k \<lparr>bit_vec = [b], num_hashes = Suc 0, bits_count = 8\<rparr> = \<lparr>bit_vec = [b OR 1], num_hashes = Suc 0, bits_count = 8\<rparr>"
    for b and k :: "nat dbkey"
    by (simp add: bloom_insert_def bloom_bits_def probe_def set_bit_vec_def MAX_NUM_HASHES_def)
  have "sst_create demo_codec True 1 Lz4 2 [] = Inr w0"
    by (simp add: sst_create_def demo_codec_def w0_def bloom_new_def MAX_NUM_HASHES_def Let_def)
  moreover have "sst_append_all demo_codec (\<lambda>i. io_ok) demo_rows w0 = Some (w1, Inr ())"
    by (simp add: sst_append_def flush_block_def encode_block_def write_all_def io_ok_def demo_codec_def demo_rows_def w0_def w1_def
        Let_def bl set_last_def demo_hash_one demo_index_def slot_byte_size_def)
  moreover have "sst_finish demo_codec sst_io_ok None w1 = Some (Some demo_file, False, Inr ())"
    by (simp add: sst_finish_def finish_internal_def flush_block_def write_all_def sst_io_ok_def io.truncate_def w1_def w0_def
        index_block_of_def demo_codec_def demo_index_def demo_file_def)
  ultimately show ?thesis by blast
qed

theorem sstable_round_trip_witness:
  "\<exists>r. sst_open demo_codec 7 0 demo_file = Inr r
    \<and> yields (coherent demo_codec [7 \<mapsto> r]) (sst_get demo_codec r (KInt 1)) (Inr (Some (Some (VInt 5))))
    \<and> yields (coherent demo_codec [7 \<mapsto> r]) (sst_get demo_codec r (KInt 2)) (Inr (Some None))
    \<and> yields (coherent demo_codec [7 \<mapsto> r]) (sst_get demo_codec r (KInt 3)) (Inr None)"
proof -
  obtain w0 w where w: "sst_create demo_codec True 1 Lz4 2 [] = Inr w0" "sst_append_all demo_codec (\<lambda>i. io_ok) demo_rows w0 = Some (w, Inr ())"
    "sst_finish demo_codec sst_io_ok None w = Some (Some demo_file, False, Inr ())"
    using demo_written by blast
  have "ksorted demo_rows" "max (cd_opt_bits demo_codec 2) 8 + 7 < (2::nat) ^ 64" "length demo_file < 2 ^ 64"
    by (simp_all add: demo_rows_def demo_codec_def demo_file_def length_footer FOOTER_SIZE_def)
  from sstable_round_trip [OF demo_codec_ok this(1,2) w this(3), of 7 0]
  obtain r where r: "sst_open demo_codec 7 0 demo_file = Inr r"
    "\<And>k. yields (coherent demo_codec [7 \<mapsto> r]) (sst_get demo_codec r k) (Inr (map_of demo_rows k))"
    by blast
  show ?thesis using r(1) r(2) [of "KInt 1"] r(2) [of "KInt 2"] r(2) [of "KInt 3"] by (auto simp: demo_rows_def)
qed

text \<open>
  C15: Publishing a file is atomic. Whatever fault interrupts \<open>finish\<close>, the file under the final name is
  the one that was there before, or exactly the file a fault-free \<open>finish\<close> of the same writer publishes;
  success implies the latter, and no temporary file is left when its removal succeeds.
\<close>

theorem sst_finish_atomic:
  assumes "sst_finish cd io old w = Some (final, tmp, res)"
  shows "(final = old \<and> res \<noteq> Inr () \<or> sst_finish cd sst_io_ok old w = Some (final, False, Inr ())) \<and> (rm io \<longrightarrow> \<not> tmp)"
proof (cases "flush_block cd (io.truncate io) w")
  case (Some p)
  obtain w1 r where p: "p = (w1, r)" by force
  show ?thesis
  proof (cases r)
    case (Inr u)
    have "flush_block cd (io.truncate sst_io_ok) w = Some (w1, Inr ())"
      using Some p Inr by (auto simp: flush_block_def write_all_def sst_io_ok_def io.truncate_def Let_def split: option.splits if_splits)
    then show ?thesis
      using assms Some p Inr
      by (auto simp: sst_finish_def finish_internal_def write_all_def sst_io_ok_def io.truncate_def split: option.splits sum.splits if_splits)
  qed (use assms Some p in \<open>auto simp: sst_finish_def finish_internal_def\<close>)
qed (use assms in \<open>simp add: sst_finish_def finish_internal_def\<close>)

definition demo_torn :: sst_io where
  "demo_torn = sst_io_ok\<lparr>wr := Some 5\<rparr>"

theorem sst_finish_atomic_witness:
  "\<exists>w :: nat sst_writer. sst_finish demo_codec demo_torn (Some [7]) w = Some (Some [7], False, Inl Io)
     \<and> sst_finish demo_codec sst_io_ok (Some [7]) w = Some (Some demo_file, False, Inr ())"
proof -
  let ?w = "\<lparr>w_file = Some [3, 4], w_offset = 2, w_limit = 1, w_block = [], w_block_bytes = 0, w_index = ib_entries demo_index,
      w_compression = Lz4, w_entries = 2, w_tombstones = 1, w_total_bytes = 25, w_min_key = Some (KInt 1), w_max_key = Some (KInt 2),
      w_bloom = ib_bloom demo_index, w_layout = []\<rparr>"
  have t: "sst_finish demo_codec demo_torn (Some [7]) ?w = Some (Some [7], False, Inl Io)"
    by (simp add: sst_finish_def finish_internal_def flush_block_def write_all_def demo_torn_def sst_io_ok_def io.truncate_def
        index_block_of_def demo_codec_def demo_index_def)
  have ok: "sst_finish demo_codec sst_io_ok (Some [7]) ?w = Some (Some demo_file, False, Inr ())"
    by (simp add: sst_finish_def finish_internal_def flush_block_def write_all_def sst_io_ok_def io.truncate_def
        index_block_of_def demo_codec_def demo_index_def demo_file_def)
  from sst_finish_atomic [OF t] t ok show ?thesis by blast
qed


definition demo_rotten :: "nat sst_reader" where
  "demo_rotten = \<lparr>r_file = [5, 4], r_index = ib_entries demo_index, r_compression = Lz4, r_id = 7, r_level = 0,
     r_last_key = KInt 2, r_stats = ib_stats demo_index, r_bloom = None, r_file_size = 2, r_layout = []\<rparr>"


end
