(* ===== verification/Iterators.thy ===== *)
theory Iterators
  imports SSTable
begin

text \<open>
  \<^verbatim>\<open>dtdb_storage/src/merge_iter.rs\<close> and \<^verbatim>\<open>dtdb_storage/src/scan_iter.rs\<close>: the lazy iterator over the
  blocks of one SSTable, the k-way merge compaction uses, and the merge of memtable entries with
  SSTables behind range scans.

  A \<open>BinaryHeap\<close> is the list of its elements; \<open>heap_pop\<close> takes the greatest one in the source's
  reversed order, that is, the one with the smallest key and, among equal keys, the smallest (newest)
  priority. Which of two equal elements pops first does not matter here: sources have distinct
  priorities.
\<close>

section \<open>The iterator over one SSTable\<close>

definition get_opt :: "'a list \<Rightarrow> nat \<Rightarrow> 'a option" where
  "get_opt xs i = (if i < length xs then Some (xs ! i) else None)"

record 'x block_iter =
  bi_reader :: "'x sst_reader"
  bi_block :: nat
  bi_entries :: "'x entry list"
  bi_idx :: nat
  bi_end :: "'x dbkey option"
  bi_exhausted :: bool
  bi_priority :: nat

definition check_end_bound :: "('x::linorder) block_iter \<Rightarrow> 'x block_iter" where
  "check_end_bound it =
     (if bi_exhausted it then it
      else case (bi_end it, get_opt (bi_entries it) (bi_idx it)) of
             (Some e, Some (k, _)) \<Rightarrow> if e < k then it\<lparr>bi_exhausted := True\<rparr> else it
           | _ \<Rightarrow> it)"

definition bi_peek :: "'x block_iter \<Rightarrow> 'x entry option" where
  "bi_peek it = (if bi_exhausted it then None else get_opt (bi_entries it) (bi_idx it))"

text \<open>The loop of \<open>advance\<close>: load blocks until one has an entry at the position.\<close>

function bi_load :: "('x::linorder) sst_codec \<Rightarrow> 'x block_iter \<Rightarrow> ('x cache, 'x block_iter) act" where
  "bi_load cd it =
     (if bi_idx it < length (bi_entries it) then act_ret (check_end_bound it)
      else let b = bi_block it + 1
           in if b < length (r_index (bi_reader it))
              then if (case bi_end it of Some e \<Rightarrow> e < first_key (r_index (bi_reader it) ! b) | None \<Rightarrow> False)
                   then act_ret (it\<lparr>bi_block := b, bi_exhausted := True\<rparr>)
                   else act_bind (read_block cd (bi_reader it) b)
                          (\<lambda>es. bi_load cd (it\<lparr>bi_block := b, bi_entries := es, bi_idx := 0\<rparr>))
              else act_ret (check_end_bound (it\<lparr>bi_block := b\<rparr>)))"
  by pat_completeness auto
termination
  by (relation "measure (\<lambda>(cd, it). length (r_index (bi_reader it)) - bi_block it)") auto

declare bi_load.simps [simp del]

definition bi_advance :: "('x::linorder) sst_codec \<Rightarrow> 'x block_iter \<Rightarrow> ('x cache, 'x block_iter) act" where
  "bi_advance cd it =
     (if bi_exhausted it then act_ret it else bi_load cd (it\<lparr>bi_idx := bi_idx it + 1\<rparr>))"

definition bi_new_with_end :: "('x::linorder) sst_codec \<Rightarrow> 'x sst_reader \<Rightarrow> 'x dbkey option \<Rightarrow> 'x dbkey option \<Rightarrow> nat
    \<Rightarrow> ('x cache, 'x block_iter) act" where
  "bi_new_with_end cd r start end priority =
     act_bind
       (if r_index r = [] then act_ret (0, [], 0)
        else case start of
               Some start_key \<Rightarrow>
                 (let b = start_block r start_key
                  in act_bind (read_block cd r b) (\<lambda>es.
                       act_ret (b, es, case binary_search_by (\<lambda>e. cmp (fst e) start_key) es of Inr i \<Rightarrow> i | Inl i \<Rightarrow> i)))
             | None \<Rightarrow> act_bind (read_block cd r 0) (\<lambda>es. act_ret (0, es, 0)))
       (\<lambda>(b, es, i).
          let it = \<lparr>bi_reader = r, bi_block = b, bi_entries = es, bi_idx = i, bi_end = end, bi_exhausted = False,
                    bi_priority = priority\<rparr>
          in act_bind (if r_index r \<noteq> [] \<and> length es \<le> i then bi_advance cd it else act_ret it)
               (\<lambda>it. act_ret (check_end_bound it)))"

definition bi_new :: "('x::linorder) sst_codec \<Rightarrow> 'x sst_reader \<Rightarrow> 'x dbkey option \<Rightarrow> nat \<Rightarrow> ('x cache, 'x block_iter) act" where
  "bi_new cd r start priority = bi_new_with_end cd r start None priority"

section \<open>The merge iterator\<close>

record 'x heap_entry =
  he_key :: "'x dbkey"
  he_value :: "'x slot"
  he_src :: nat
  he_prio :: nat

text \<open>\<open>cmp\<close> of two heap entries, and \<open>pop\<close>: an entry no other entry is greater than.\<close>

definition he_cmp :: "('x::linorder) heap_entry \<Rightarrow> 'x heap_entry \<Rightarrow> ordering" where
  "he_cmp a b = (case cmp (he_key b) (he_key a) of Equal \<Rightarrow> cmp (he_prio b) (he_prio a) | c \<Rightarrow> c)"

fun heap_max :: "('x::linorder) heap_entry \<Rightarrow> 'x heap_entry list \<Rightarrow> 'x heap_entry" where
  "heap_max m [] = m"
| "heap_max m (e # es) = heap_max (if he_cmp e m = Greater then e else m) es"

definition heap_pop :: "('x::linorder) heap_entry list \<Rightarrow> ('x heap_entry \<times> 'x heap_entry list) option" where
  "heap_pop h = (case h of [] \<Rightarrow> None | e # es \<Rightarrow> let m = heap_max e es in Some (m, remove1 m h))"

record 'x merge_iter =
  mi_sources :: "'x block_iter list"
  mi_heap :: "'x heap_entry list"
  mi_last :: "'x dbkey option"

definition heap_item :: "nat \<Rightarrow> 'x block_iter \<Rightarrow> 'x heap_entry option" where
  "heap_item i it =
     map_option (\<lambda>(k, v). \<lparr>he_key = k, he_value = v, he_src = i, he_prio = bi_priority it\<rparr>) (bi_peek it)"

definition heap_push :: "'x heap_entry option \<Rightarrow> 'x heap_entry list \<Rightarrow> 'x heap_entry list" where
  "heap_push e h = (case e of Some x \<Rightarrow> x # h | None \<Rightarrow> h)"

definition initial_heap :: "'x block_iter list \<Rightarrow> 'x heap_entry list" where
  "initial_heap its = foldl (\<lambda>h (i, it). heap_push (heap_item i it) h) [] (enumerate 0 its)"

definition merge_new :: "'x block_iter list \<Rightarrow> 'x merge_iter" where
  "merge_new its = \<lparr>mi_sources = its, mi_heap = initial_heap its, mi_last = None\<rparr>"

partial_function (option) merge_next ::
  "('x::linorder) sst_codec \<Rightarrow> 'x merge_iter \<Rightarrow> 'x cache
    \<Rightarrow> (('x merge_iter \<times> ('x dbkey \<times> 'x slot \<times> nat) option) result \<times> 'x cache) option" where
  "merge_next cd it c =
     (case heap_pop (mi_heap it) of
        None \<Rightarrow> Some (Inr (it, None), c)
      | Some (e, h) \<Rightarrow>
          (case bi_advance cd (mi_sources it ! he_src e) c of
             None \<Rightarrow> None
           | Some (Inl err, c') \<Rightarrow> Some (Inl err, c')
           | Some (Inr src, c') \<Rightarrow>
               (let it' = it\<lparr>mi_sources := (mi_sources it)[he_src e := src], mi_heap := heap_push (heap_item (he_src e) src) h\<rparr>
                in if mi_last it = Some (he_key e) then merge_next cd it' c'
                   else Some (Inr (it'\<lparr>mi_last := Some (he_key e)\<rparr>, Some (he_key e, he_value e, he_src e)), c'))))"

section \<open>The scan iterator\<close>

record 'x scan_iter =
  si_mem :: "'x entry list"
  si_mem_idx :: nat
  si_iters :: "'x block_iter list"
  si_heap :: "'x heap_entry list"
  si_last :: "'x dbkey option"
  si_end :: "'x dbkey"
  si_layout :: layout

definition scan_new :: "'x entry list \<Rightarrow> 'x block_iter list \<Rightarrow> 'x dbkey \<Rightarrow> layout \<Rightarrow> 'x scan_iter" where
  "scan_new mem its end lay =
     \<lparr>si_mem = mem, si_mem_idx = 0, si_iters = its, si_heap = initial_heap its, si_last = None, si_end = end,
      si_layout = lay\<rparr>"

definition rewrite_from :: "'x rewriter \<Rightarrow> layout \<Rightarrow> layout \<Rightarrow> 'x dbvalue \<Rightarrow> 'x dbvalue result" where
  "rewrite_from rw src_layout target_layout val =
     (if src_layout \<noteq> target_layout then rw src_layout target_layout val else Inr val)"

definition choose_mem :: "('x::linorder) scan_iter \<Rightarrow> bool" where
  "choose_mem it =
     (let has_mem = si_mem_idx it < length (si_mem it)
      in case heap_pop (si_heap it) of
           Some (e, _) \<Rightarrow> has_mem \<and> fst (si_mem it ! si_mem_idx it) \<le> he_key e
         | None \<Rightarrow> has_mem)"

partial_function (option) scan_next ::
  "('x::linorder) sst_codec \<Rightarrow> 'x rewriter \<Rightarrow> 'x scan_iter \<Rightarrow> 'x cache
    \<Rightarrow> (('x scan_iter \<times> ('x dbkey \<times> 'x dbvalue) option) result \<times> 'x cache) option" where
  "scan_next cd rw it c =
     (if choose_mem it then
        (let (k, v) = si_mem it ! si_mem_idx it; it1 = it\<lparr>si_mem_idx := si_mem_idx it + 1\<rparr>
         in if si_end it < k then Some (Inr (it1, None), c)
            else if si_last it \<noteq> Some k
            then (case v of
                    Some val \<Rightarrow> Some (Inr (it1\<lparr>si_last := Some k\<rparr>, Some (k, val)), c)
                  | None \<Rightarrow> scan_next cd rw (it1\<lparr>si_last := Some k\<rparr>) c)
            else scan_next cd rw it1 c)
      else
        (case heap_pop (si_heap it) of
           None \<Rightarrow> Some (Inr (it, None), c)
         | Some (e, h) \<Rightarrow>
             if si_end it < he_key e then scan_next cd rw (it\<lparr>si_heap := h\<rparr>) c
             else
               (case bi_advance cd (si_iters it ! he_src e) c of
                  None \<Rightarrow> None
                | Some (Inl err, c') \<Rightarrow> Some (Inl err, c')
                | Some (Inr src, c') \<Rightarrow>
                    (let it1 = it\<lparr>si_iters := (si_iters it)[he_src e := src], si_heap := heap_push (heap_item (he_src e) src) h\<rparr>
                     in if si_last it \<noteq> Some (he_key e)
                        then (case he_value e of
                                Some val \<Rightarrow>
                                  (case rewrite_from rw (r_layout (bi_reader src)) (si_layout it) val of
                                     Inl err \<Rightarrow> Some (Inl err, c')
                                   | Inr val' \<Rightarrow> Some (Inr (it1\<lparr>si_last := Some (he_key e)\<rparr>, Some (he_key e, val')), c'))
                              | None \<Rightarrow> scan_next cd rw (it1\<lparr>si_last := Some (he_key e)\<rparr>) c')
                        else scan_next cd rw it1 c'))))"

section \<open>What a block iterator still has to yield\<close>

definition within :: "'x dbkey option \<Rightarrow> ('x::linorder) entry \<Rightarrow> bool" where
  "within hi e = (case hi of None \<Rightarrow> True | Some h \<Rightarrow> fst e \<le> h)"

definition bi_tail :: "'x block_iter \<Rightarrow> 'x entry list list \<Rightarrow> 'x entry list" where
  "bi_tail it bs = drop (bi_idx it) (bi_entries it) @ concat (drop (Suc (bi_block it)) bs)"

definition bi_holds :: "('x::linorder) sst_codec \<Rightarrow> (u64 \<rightharpoonup> 'x sst_reader) \<Rightarrow> 'x block_iter \<Rightarrow> 'x entry list list
    \<Rightarrow> 'x entry list \<Rightarrow> bool" where
  "bi_holds cd U it bs rest \<longleftrightarrow>
     reader_ok cd (bi_reader it) bs \<and> U (r_id (bi_reader it)) = Some (bi_reader it)
   \<and> (if bi_exhausted it then rest = []
      else rest = filter (within (bi_end it)) (bi_tail it bs) \<and> ksorted (bi_tail it bs)
         \<and> (length (bi_entries it) \<le> bi_idx it \<longrightarrow> bi_tail it bs = [])
         \<and> (bi_idx it < length (bi_entries it) \<longrightarrow> within (bi_end it) (bi_entries it ! bi_idx it)))"

lemma within_sorted:
  assumes "ksorted (e # es)" "\<not> within hi e"
  shows "filter (within hi) (e # es) = []"
proof -
  have "\<not> within hi x" if "x \<in> set es" for x
  proof -
    obtain h where h: "hi = Some h" "h < fst e" using assms(2) by (auto simp: within_def split: option.splits)
    moreover have "fst e < fst x" using assms(1) that by simp
    ultimately show ?thesis by (simp add: within_def not_le less_trans [OF h(2)])
  qed
  with assms(2) show ?thesis by (simp add: filter_empty_conv)
qed

lemma bi_tail_Cons:
  "bi_idx it < length (bi_entries it) \<Longrightarrow>
    bi_tail it bs = bi_entries it ! bi_idx it # drop (Suc (bi_idx it)) (bi_entries it) @ concat (drop (Suc (bi_block it)) bs)"
  by (simp add: bi_tail_def Cons_nth_drop_Suc [symmetric])

lemma bi_holds_sorted: "bi_holds cd U it bs rest \<Longrightarrow> ksorted rest"
  by (auto simp: bi_holds_def split: if_splits)

lemma bi_peek_holds:
  assumes "bi_holds cd U it bs rest"
  shows "bi_peek it = (case rest of [] \<Rightarrow> None | e # _ \<Rightarrow> Some e)"
proof (cases "bi_exhausted it")
  case False
  show ?thesis
  proof (cases "bi_idx it < length (bi_entries it)")
    case True
    with assms False show ?thesis by (auto simp: bi_holds_def bi_peek_def get_opt_def bi_tail_Cons)
  next
    case idx: False
    with assms False show ?thesis by (auto simp: bi_holds_def bi_peek_def get_opt_def)
  qed
qed (use assms in \<open>auto simp: bi_holds_def bi_peek_def\<close>)

lemma check_end_same [simp]:
  "bi_reader (check_end_bound it) = bi_reader it" "bi_priority (check_end_bound it) = bi_priority it"
  by (auto simp: check_end_bound_def split: option.split)

lemma check_end_exhausted [simp]: "bi_exhausted it \<Longrightarrow> check_end_bound it = it"
  by (simp add: check_end_bound_def)

lemma check_end_holds:
  assumes "reader_ok cd (bi_reader it) bs" "U (r_id (bi_reader it)) = Some (bi_reader it)" "\<not> bi_exhausted it"
    "ksorted (bi_tail it bs)" "length (bi_entries it) \<le> bi_idx it \<Longrightarrow> bi_tail it bs = []"
  shows "bi_holds cd U (check_end_bound it) bs (filter (within (bi_end it)) (bi_tail it bs))"
proof (cases "bi_idx it < length (bi_entries it)")
  case True
  let ?e = "bi_entries it ! bi_idx it"
  show ?thesis
  proof (cases "within (bi_end it) ?e")
    case w: True
    then have "check_end_bound it = it"
      using True by (auto simp: check_end_bound_def get_opt_def within_def split_beta split: option.splits)
    then show ?thesis using assms True w by (simp add: bi_holds_def)
  next
    case False
    then have "check_end_bound it = it\<lparr>bi_exhausted := True\<rparr>"
      using True assms(3) by (auto simp: check_end_bound_def get_opt_def within_def split_beta split: option.splits)
    moreover have "filter (within (bi_end it)) (bi_tail it bs) = []"
      using within_sorted [of ?e _ "bi_end it"] assms(4) False unfolding bi_tail_Cons [OF True] by blast
    ultimately show ?thesis using assms(1,2) by (simp add: bi_holds_def)
  qed
next
  case False
  then have "check_end_bound it = it" by (auto simp: check_end_bound_def get_opt_def split: option.splits)
  then show ?thesis using assms False by (auto simp: bi_holds_def)
qed

lemma bi_load_yields:
  assumes "reader_ok cd (bi_reader it) bs" "U (r_id (bi_reader it)) = Some (bi_reader it)" "\<not> bi_exhausted it"
    "ksorted (bi_tail it bs)"
  shows "\<exists>it'. yields (coherent cd U) (bi_load cd it) (Inr it') \<and> bi_reader it' = bi_reader it
    \<and> bi_priority it' = bi_priority it \<and> bi_holds cd U it' bs (filter (within (bi_end it)) (bi_tail it bs))"
  using assms
proof (induction "length bs - bi_block it" arbitrary: it rule: less_induct)
  case less
  note D = reader_okD [OF less.prems(1)]
  let ?b = "Suc (bi_block it)"
  show ?case
  proof (cases "bi_idx it < length (bi_entries it)")
    case True
    then show ?thesis using check_end_holds [where U = U, OF less.prems] yields_ret
      by (subst bi_load.simps) (auto intro!: exI [of _ "check_end_bound it"])
  next
    case False
    then have tail: "bi_tail it bs = concat (drop ?b bs)" by (simp add: bi_tail_def)
    show ?thesis
    proof (cases "?b < length bs")
      case b: True
      then have tail': "bi_tail it bs = bs ! ?b @ concat (drop (Suc ?b) bs)"
        using tail by (simp add: Cons_nth_drop_Suc [symmetric])
      show ?thesis
      proof (cases "case bi_end it of Some e \<Rightarrow> e < first_key (r_index (bi_reader it) ! ?b) | None \<Rightarrow> False")
        case True
        obtain e es where be: "bs ! ?b = e # es" using D(2) b by (cases "bs ! ?b") auto
        then have "\<not> within (bi_end it) e" using True D(5) [OF b] by (auto simp: within_def split: option.splits)
        with within_sorted [of e _ "bi_end it"] less.prems(4)
        have "filter (within (bi_end it)) (bi_tail it bs) = []" unfolding tail' be append_Cons by blast
        then have "bi_holds cd U (it\<lparr>bi_block := ?b, bi_exhausted := True\<rparr>) bs (filter (within (bi_end it)) (bi_tail it bs))"
          using less.prems(1,2) by (simp add: bi_holds_def)
        moreover have "bi_load cd it = act_ret (it\<lparr>bi_block := ?b, bi_exhausted := True\<rparr>)"
          using False b True D(1) by (subst bi_load.simps) simp
        ultimately show ?thesis by (intro exI [of _ "it\<lparr>bi_block := ?b, bi_exhausted := True\<rparr>"]) (simp add: yields_ret)
      next
        case ne: False
        let ?it = "it\<lparr>bi_block := ?b, bi_entries := bs ! ?b, bi_idx := 0\<rparr>"
        have t: "bi_tail ?it bs = bi_tail it bs" unfolding tail' by (simp add: bi_tail_def)
        obtain it' where it': "yields (coherent cd U) (bi_load cd ?it) (Inr it')" "bi_reader it' = bi_reader it"
          "bi_priority it' = bi_priority it" "bi_holds cd U it' bs (filter (within (bi_end it)) (bi_tail it bs))"
        proof -
          have "length bs - bi_block ?it < length bs - bi_block it" using b by simp
          from less.hyps [OF this] less.prems t show thesis using that by auto
        qed
        have "bi_load cd it = act_bind (read_block cd (bi_reader it) ?b)
            (\<lambda>es. bi_load cd (it\<lparr>bi_block := ?b, bi_entries := es, bi_idx := 0\<rparr>))"
          using False b ne D(1) by (subst bi_load.simps) simp
        moreover have "yields (coherent cd U) \<dots> (Inr it')"
          by (rule yields_bind [OF read_block_yields [where U = U, OF less.prems(2) D(4) [OF b]]]) (rule it'(1))
        ultimately show ?thesis using it'(2-) by auto
      qed
    next
      case b: False
      then have t: "bi_tail it bs = []" using tail by simp
      let ?it = "it\<lparr>bi_block := ?b\<rparr>"
      have t': "bi_tail ?it bs = []" using t b False by (simp add: bi_tail_def)
      have "bi_load cd it = act_ret (check_end_bound ?it)"
        using False b D(1) by (subst bi_load.simps) simp
      moreover have "bi_holds cd U (check_end_bound ?it) bs (filter (within (bi_end ?it)) (bi_tail ?it bs))"
        using less.prems t' by (intro check_end_holds) simp_all
      ultimately show ?thesis using t t' by (intro exI [of _ "check_end_bound ?it"]) (simp add: yields_ret)
    qed
  qed
qed

lemma bi_advance_yields:
  assumes "bi_holds cd U it bs rest"
  shows "\<exists>it'. yields (coherent cd U) (bi_advance cd it) (Inr it') \<and> bi_reader it' = bi_reader it
    \<and> bi_priority it' = bi_priority it \<and> bi_holds cd U it' bs (tl rest)"
proof (cases "bi_exhausted it")
  case True
  then have "bi_holds cd U it bs (tl rest)" using assms by (simp add: bi_holds_def)
  then show ?thesis using True by (intro exI [of _ it]) (simp add: bi_advance_def yields_ret)
next
  case False
  let ?it = "it\<lparr>bi_idx := bi_idx it + 1\<rparr>"
  have H: "reader_ok cd (bi_reader it) bs" "U (r_id (bi_reader it)) = Some (bi_reader it)"
    "rest = filter (within (bi_end it)) (bi_tail it bs)" "ksorted (bi_tail it bs)"
    using assms False by (auto simp: bi_holds_def)
  have "bi_tail ?it bs = tl (bi_tail it bs) \<and> tl rest = filter (within (bi_end it)) (tl (bi_tail it bs))"
  proof (cases "bi_idx it < length (bi_entries it)")
    case True
    with assms False show ?thesis by (simp add: bi_holds_def bi_tail_Cons) (simp add: bi_tail_def)
  next
    case idx: False
    then have "bi_tail it bs = []" using assms False by (simp add: bi_holds_def)
    moreover have "bi_tail ?it bs = bi_tail it bs" using idx by (simp add: bi_tail_def)
    ultimately show ?thesis using H(3) by simp
  qed
  moreover have "ksorted (tl (bi_tail it bs))" using H(4) by (cases "bi_tail it bs") auto
  ultimately show ?thesis using bi_load_yields [of cd ?it bs U] H(1,2) False by (simp add: bi_advance_def)
qed

lemma check_end_holds_id: "bi_holds cd U it bs rest \<Longrightarrow> check_end_bound it = it"
  by (cases "bi_exhausted it")
    (auto simp: bi_holds_def check_end_bound_def get_opt_def within_def split_beta split: option.splits)

text \<open>The position a search finds splits a block at the start key.\<close>

lemma search_position:
  assumes "ksorted b" "i = (case binary_search_by (\<lambda>e. cmp (fst e) s) b of Inr i \<Rightarrow> i | Inl i \<Rightarrow> i)"
  shows "filter (\<lambda>e. s \<le> fst e) b = drop i b"
proof -
  note srt = bs_sorted_key [OF assms(1), of s]
  have "(\<forall>j < i. j < length b \<longrightarrow> fst (b ! j) < s) \<and> (\<forall>j. i \<le> j \<longrightarrow> j < length b \<longrightarrow> s \<le> fst (b ! j))"
  proof (cases "binary_search_by (\<lambda>e. cmp (fst e) s) b")
    case (Inr m)
    then have m: "m < length b" "fst (b ! m) = s" "i = m" using binary_search_by_Inr [OF srt Inr] assms(2) by auto
    have lt: "fst (b ! j) < fst (b ! j')" if "j < j'" "j' < length b" for j j'
      using assms(1) that by (simp add: sorted_wrt_iff_nth_less)
    show ?thesis using m lt [of _ m] lt [of m] by (metis le_neq_implies_less less_imp_le order_refl)
  next
    case (Inl m)
    then have "i = m" using assms(2) by simp
    with binary_search_by_Inl [OF srt Inl] show ?thesis by (simp add: less_imp_le)
  qed
  then have "\<forall>e \<in> set (take i b). \<not> s \<le> fst e" "\<forall>e \<in> set (drop i b). s \<le> fst e"
    unfolding all_set_conv_all_nth by (simp_all add: not_le)
  then have "filter (\<lambda>e. s \<le> fst e) (take i b) = []" "filter (\<lambda>e. s \<le> fst e) (drop i b) = drop i b"
    by (simp_all add: filter_empty_conv)
  then show ?thesis by (metis append_Nil append_take_drop_id filter_append)
qed

definition from_start :: "'x dbkey option \<Rightarrow> ('x::linorder) entry \<Rightarrow> bool" where
  "from_start start e = (case start of None \<Rightarrow> True | Some s \<Rightarrow> s \<le> fst e)"

lemma start_tail:
  assumes "reader_ok cd r bs" "bs \<noteq> []" "b = start_block r s" "ksorted (concat bs)"
    and "i = (case binary_search_by (\<lambda>e. cmp (fst e) s) (bs ! b) of Inr i \<Rightarrow> i | Inl i \<Rightarrow> i)"
  shows "b < length bs" "filter (\<lambda>e. s \<le> fst e) (concat bs) = drop i (bs ! b) @ concat (drop (Suc b) bs)"
proof -
  note D = reader_okD [OF assms(1)] and srt = index_search_sorted [OF assms(1), of s]
  show b: "b < length bs"
  proof (cases "binary_search_by (\<lambda>e. cmp (first_key e) s) (r_index r)")
    case (Inr j)
    then show ?thesis using binary_search_by_Inr [OF srt Inr] D(1) assms(3) by (simp add: start_block_def)
  next
    case (Inl j)
    then have "j \<le> length bs" using binary_search_by_Inl [OF srt Inl] D(1) by simp
    moreover have "0 < length bs" using assms(2) by simp
    ultimately have "j - 1 < length bs" by linarith
    then show ?thesis using Inl assms(3) by (simp add: start_block_def)
  qed
  have before: "\<not> s \<le> fst e" if "e \<in> set (concat (take b bs))" for e
    using that start_block_ok(2) [OF assms(1), of _ s e] assms(3) unfolding in_concat_take by (auto simp: not_le)
  have after: "s \<le> fst e" if e: "e \<in> set (concat (drop (Suc b) bs))" for e
  proof -
    obtain j where j: "Suc b \<le> j" "j < length bs" "e \<in> set (bs ! j)" by (rule in_concat_drop [OF e])
    have "s \<le> fst (hd (bs ! j))"
    proof (cases "binary_search_by (\<lambda>e. cmp (first_key e) s) (r_index r)")
      case (Inr m)
      have "m = b" using Inr assms(3) by (simp add: start_block_def)
      then have "fst (hd (bs ! b)) = s" using binary_search_by_Inr [OF srt Inr] D(5) [OF b] by simp
      moreover have "hd (bs ! b) \<in> set (bs ! b)" using D(2) b by simp
      ultimately show ?thesis using block_order [OF D(3,2) _ j(2), of b "hd (bs ! b)"] j(1) by simp
    next
      case (Inl m)
      then have "b = m - 1" using assms(3) by (simp add: start_block_def)
      then have "m \<le> j" using j(1) by simp
      then have "cmp (first_key (r_index r ! j)) s = Greater" using binary_search_by_Inl [OF srt Inl] j(2) D(1) by simp
      then show ?thesis using D(5) [OF j(2)] by simp
    qed
    with first_le_block [OF D(3) j(2,3)] show ?thesis by simp
  qed
  have "filter (\<lambda>e. s \<le> fst e) (concat (take b bs)) = []" using before by (simp only: filter_empty_conv) blast
  moreover have "filter (\<lambda>e. s \<le> fst e) (concat (drop (Suc b) bs)) = concat (drop (Suc b) bs)"
    using after by (simp only: filter_id_conv) blast
  moreover have "filter (\<lambda>e. s \<le> fst e) (bs ! b) = drop i (bs ! b)"
    by (rule search_position [OF ksorted_concat_parts(1) [OF D(3) b] assms(5)])
  ultimately show "filter (\<lambda>e. s \<le> fst e) (concat bs) = drop i (bs ! b) @ concat (drop (Suc b) bs)"
    unfolding concat_split [OF b] filter_append by simp
qed

text \<open>A new iterator yields the entries of the file between its bounds.\<close>

lemma bi_new_yields:
  assumes "reader_ok cd r bs" "U (r_id r) = Some r"
  shows "\<exists>it. yields (coherent cd U) (bi_new_with_end cd r start end prio) (Inr it) \<and> bi_reader it = r \<and> bi_priority it = prio
    \<and> bi_holds cd U it bs (filter (within end) (filter (from_start start) (concat bs)))"
proof -
  note D = reader_okD [OF assms(1)]
  define first where "first = (if r_index r = [] then act_ret (0, [], 0)
        else case start of
               Some start_key \<Rightarrow>
                 (let b = start_block r start_key
                  in act_bind (read_block cd r b) (\<lambda>es.
                       act_ret (b, es, case binary_search_by (\<lambda>e. cmp (fst e) start_key) es of Inr i \<Rightarrow> i | Inl i \<Rightarrow> i)))
             | None \<Rightarrow> act_bind (read_block cd r 0) (\<lambda>es. act_ret (0, es, 0)))"
  let ?it = "\<lambda>b es i. \<lparr>bi_reader = r, bi_block = b, bi_entries = es, bi_idx = i, bi_end = end, bi_exhausted = False, bi_priority = prio\<rparr>"
  obtain b es i where first: "yields (coherent cd U) first (Inr (b, es, i))"
    and tail: "bi_tail (?it b es i) bs = filter (from_start start) (concat bs)"
  proof (cases "bs = []")
    case True
    then show thesis using that [of 0 "[]" 0] D(1) by (simp add: first_def yields_ret bi_tail_def)
  next
    case False
    then have ne: "r_index r \<noteq> []" "0 < length bs" using D(1) by auto
    show thesis
    proof (cases start)
      case None
      have "yields (coherent cd U) first (Inr (0, bs ! 0, 0))"
        using yields_bind_ret [OF read_block_yields [where U = U, OF assms(2) D(4) [OF ne(2)]]] ne(1)
        by (simp add: first_def None)
      moreover have "bi_tail (?it 0 (bs ! 0) 0) bs = filter (from_start start) (concat bs)"
        using concat_split [OF ne(2)] by (simp add: bi_tail_def None from_start_def)
      ultimately show thesis by (rule that)
    next
      case (Some s)
      let ?b = "start_block r s"
      let ?i = "case binary_search_by (\<lambda>e. cmp (fst e) s) (bs ! ?b) of Inr i \<Rightarrow> i | Inl i \<Rightarrow> i"
      note S = start_tail [OF assms(1) False refl D(3) refl, of s]
      have "yields (coherent cd U) first (Inr (?b, bs ! ?b, ?i))"
        using yields_bind_ret [OF read_block_yields [where U = U, OF assms(2) D(4) [OF S(1)]],
            of "\<lambda>es. (?b, es, case binary_search_by (\<lambda>e. cmp (fst e) s) es of Inr i \<Rightarrow> i | Inl i \<Rightarrow> i)"] ne(1)
        by (simp add: first_def Some Let_def)
      moreover have "bi_tail (?it ?b (bs ! ?b) ?i) bs = filter (from_start start) (concat bs)"
        using S(2) by (simp add: bi_tail_def Some from_start_def [abs_def])
      ultimately show thesis by (rule that)
    qed
  qed
  let ?i0 = "?it b es i"
  let ?rest = "filter (within end) (filter (from_start start) (concat bs))"
  define second where "second = (if r_index r \<noteq> [] \<and> length es \<le> i then bi_advance cd ?i0 else act_ret ?i0)"
  have srt: "ksorted (filter (from_start start) (concat bs))" using D(3) by simp
  have "\<exists>it. yields (coherent cd U) second (Inr it) \<and> bi_reader it = r \<and> bi_priority it = prio
    \<and> bi_holds cd U (check_end_bound it) bs ?rest"
  proof (cases "r_index r \<noteq> [] \<and> length es \<le> i")
    case True
    let ?i1 = "?it b es (Suc i)"
    have t1: "bi_tail ?i1 bs = filter (from_start start) (concat bs)" using tail True by (simp add: bi_tail_def)
    have "second = bi_load cd ?i1" using True by (simp add: second_def bi_advance_def)
    moreover obtain it where "yields (coherent cd U) (bi_load cd ?i1) (Inr it)" "bi_reader it = r" "bi_priority it = prio"
      "bi_holds cd U it bs ?rest"
      using bi_load_yields [of cd ?i1 bs U] assms srt t1 by auto
    ultimately show ?thesis using check_end_holds_id by (metis (no_types, lifting))
  next
    case False
    then have "second = act_ret ?i0" unfolding second_def by (rule if_not_P)
    moreover have "bi_holds cd U (check_end_bound ?i0) bs (filter (within (bi_end ?i0)) (bi_tail ?i0 bs))"
    proof (rule check_end_holds)
      show "bi_tail ?i0 bs = []" if "length (bi_entries ?i0) \<le> bi_idx ?i0"
      proof -
        have "bs = []" using False that D(1) by auto
        then show ?thesis using that by (simp add: bi_tail_def)
      qed
    qed (use assms srt tail in simp_all)
    ultimately show ?thesis using tail by (intro exI [of _ ?i0]) (simp add: yields_ret)
  qed
  then obtain it where it: "yields (coherent cd U) second (Inr it)" "bi_reader it = r" "bi_priority it = prio"
    "bi_holds cd U (check_end_bound it) bs ?rest" by blast
  have "yields (coherent cd U) (bi_new_with_end cd r start end prio) (Inr (check_end_bound it))"
    unfolding bi_new_with_end_def first_def [symmetric]
    by (rule yields_bind [OF first]) (simp add: second_def [symmetric] yields_bind_ret [OF it(1)])
  with it(2-) show ?thesis by (intro exI [of _ "check_end_bound it"]) simp
qed

section \<open>Merging sorted lists by key and priority\<close>

text \<open>
  The specification of a merge: every key of any list once, in order, with the value and the position
  of the list of smallest priority number that has it.
\<close>

definition holders :: "('k \<times> 'v) list list \<Rightarrow> 'k \<Rightarrow> nat list" where
  "holders ls k = filter (\<lambda>i. map_of (ls ! i) k \<noteq> None) [0..<length ls]"

definition owner :: "nat list \<Rightarrow> ('k \<times> 'v) list list \<Rightarrow> 'k \<Rightarrow> nat" where
  "owner prios ls k = hd (sort_key (\<lambda>i. prios ! i) (holders ls k))"

definition all_keys :: "('k::linorder \<times> 'v) list list \<Rightarrow> 'k list" where
  "all_keys ls = sorted_list_of_set (fst ` set (concat ls))"

definition pick :: "nat list \<Rightarrow> ('k \<times> 'v) list list \<Rightarrow> 'k \<Rightarrow> 'k \<times> 'v \<times> nat" where
  "pick prios ls k = (k, the (map_of (ls ! owner prios ls k) k), owner prios ls k)"

definition merged :: "nat list \<Rightarrow> ('k::linorder \<times> 'v) list list \<Rightarrow> ('k \<times> 'v \<times> nat) list" where
  "merged prios ls = map (pick prios ls) (all_keys ls)"

definition skip_key :: "'k \<Rightarrow> ('k \<times> 'v) list \<Rightarrow> ('k \<times> 'v) list" where
  "skip_key k l = (case l of [] \<Rightarrow> [] | e # t \<Rightarrow> if fst e = k then t else l)"

lemma set_holders: "set (holders ls k) = {i. i < length ls \<and> map_of (ls ! i) k \<noteq> None}"
  by (auto simp: holders_def)

lemma owner_least:
  assumes "holders ls k \<noteq> []"
  shows "owner prios ls k < length ls" "map_of (ls ! owner prios ls k) k \<noteq> None"
    "j < length ls \<Longrightarrow> map_of (ls ! j) k \<noteq> None \<Longrightarrow> prios ! owner prios ls k \<le> prios ! j"
proof -
  let ?xs = "sort_key (\<lambda>i. prios ! i) (holders ls k)"
  have ne: "?xs \<noteq> []" using assms by (metis length_0_conv length_sort)
  then have "hd ?xs \<in> set (holders ls k)" by (metis list.set_sel(1) set_sort)
  then show "owner prios ls k < length ls" "map_of (ls ! owner prios ls k) k \<noteq> None"
    by (simp_all add: owner_def set_holders)
  assume "j < length ls" "map_of (ls ! j) k \<noteq> None"
  then have j: "j \<in> set ?xs" by (simp add: set_holders)
  obtain x xs where xs: "?xs = x # xs" using ne by (cases ?xs) auto
  have "sorted (map (\<lambda>i. prios ! i) ?xs)" by simp
  then show "prios ! owner prios ls k \<le> prios ! j" using j by (auto simp: owner_def xs)
qed

lemma owner_eqI:
  assumes "distinct prios" "length prios = length ls" "i < length ls" "map_of (ls ! i) k \<noteq> None"
    and "\<And>j. j < length ls \<Longrightarrow> map_of (ls ! j) k \<noteq> None \<Longrightarrow> prios ! i \<le> prios ! j"
  shows "owner prios ls k = i"
proof -
  have "i \<in> set (holders ls k)" using assms(3,4) by (simp add: set_holders)
  then have ne: "holders ls k \<noteq> []" by auto
  note O = owner_least [OF ne, where prios = prios]
  have "prios ! owner prios ls k = prios ! i"
    using O(3) [OF assms(3,4)] assms(5) [OF O(1,2)] by simp
  then show ?thesis using assms(1,2,3) O(1) by (simp add: nth_eq_iff_index_eq)
qed

lemma owner_cong:
  assumes "length ls' = length ls" "\<And>i. i < length ls \<Longrightarrow> map_of (ls' ! i) k = map_of (ls ! i) k"
  shows "owner prios ls' k = owner prios ls k"
proof -
  have "holders ls' k = holders ls k" using assms by (auto simp: holders_def intro!: filter_cong)
  then show ?thesis by (simp add: owner_def)
qed

lemma map_of_skip_key:
  assumes "ksorted l" "\<forall>e \<in> set l. k \<le> fst e"
  shows "map_of (skip_key k l) = (map_of l)(k := None)"
proof (cases l)
  case (Cons e t)
  have "map_of t k = None" if "fst e = k" using assms(1) Cons that by (auto simp: map_of_eq_None_iff)
  moreover have "map_of l k = None" if "fst e \<noteq> k"
  proof -
    have "k < fst e" using assms(2) Cons that by (simp add: less_le)
    then show ?thesis using assms(1) Cons by (force simp: map_of_eq_None_iff)
  qed
  ultimately show ?thesis by (auto simp: Cons skip_key_def fun_eq_iff)
qed (simp add: skip_key_def)

lemma set_all_keys: "set (all_keys ls) = fst ` set (concat ls)"
  by (simp add: all_keys_def)

lemma holders_nonempty: "holders ls k \<noteq> [] \<longleftrightarrow> (\<exists>i < length ls. map_of (ls ! i) k \<noteq> None)"
proof -
  have "holders ls k \<noteq> [] \<longleftrightarrow> set (holders ls k) \<noteq> {}" by simp
  also have "\<dots> \<longleftrightarrow> (\<exists>i < length ls. map_of (ls ! i) k \<noteq> None)" unfolding set_holders by blast
  finally show ?thesis .
qed

lemma in_all_keys: "k \<in> fst ` set (concat ls) \<longleftrightarrow> holders ls k \<noteq> []"
proof -
  have "k \<in> fst ` set (concat ls) \<longleftrightarrow> (\<exists>l \<in> set ls. map_of l k \<noteq> None)"
    by (auto simp: map_of_eq_None_iff)
  also have "\<dots> \<longleftrightarrow> (\<exists>i < length ls. map_of (ls ! i) k \<noteq> None)" by (metis in_set_conv_nth)
  finally show ?thesis by (simp only: holders_nonempty)
qed

text \<open>Taking the smallest key off all lists takes the first element off the merge.\<close>

lemma merged_step:
  assumes "\<forall>l \<in> set ls. ksorted l" "k \<in> fst ` set (concat ls)" "\<forall>l \<in> set ls. \<forall>e \<in> set l. k \<le> fst e"
  shows "merged prios ls = pick prios ls k # merged prios (map (skip_key k) ls)"
proof -
  let ?K = "fst ` set (concat ls)" and ?ls = "map (skip_key k) ls"
  have mo: "map_of (?ls ! i) = (map_of (ls ! i))(k := None)" if "i < length ls" for i
    using map_of_skip_key [OF bspec [OF assms(1) nth_mem [OF that]] bspec [OF assms(3) nth_mem [OF that]]] that by simp
  have mo': "map_of (?ls ! i) x \<noteq> None \<longleftrightarrow> x \<noteq> k \<and> map_of (ls ! i) x \<noteq> None" if "i < length ls" for i x
    unfolding mo [OF that] by simp
  have fin: "finite ?K" by simp
  have "Min ?K = k"
  proof (rule Min_eqI [OF fin _ assms(2)])
    show "k \<le> y" if "y \<in> ?K" for y using that assms(3) by auto
  qed
  moreover have ne: "?K \<noteq> {}" using assms(2) by (metis empty_iff)
  ultimately have keys: "all_keys ls = k # sorted_list_of_set (?K - {k})"
    using sorted_list_of_set_nonempty [OF fin ne] by (simp only: all_keys_def)
  have "fst ` set (concat ?ls) = ?K - {k}"
  proof -
    have "x \<in> fst ` set (concat ?ls) \<longleftrightarrow> x \<in> ?K - {k}" for x
    proof -
      have "x \<in> fst ` set (concat ?ls) \<longleftrightarrow> (\<exists>i < length ls. map_of (?ls ! i) x \<noteq> None)"
        unfolding in_all_keys holders_nonempty by simp
      also have "\<dots> \<longleftrightarrow> (\<exists>i < length ls. x \<noteq> k \<and> map_of (ls ! i) x \<noteq> None)" using mo' by blast
      also have "\<dots> \<longleftrightarrow> x \<in> ?K - {k}" unfolding Diff_iff in_all_keys holders_nonempty by auto
      finally show ?thesis .
    qed
    then show ?thesis by blast
  qed
  then have keys': "all_keys ?ls = sorted_list_of_set (?K - {k})" by (simp only: all_keys_def)
  have "pick prios ?ls x = pick prios ls x" if "x \<in> set (all_keys ?ls)" for x
  proof -
    have "x \<in> ?K - {k}" using that fin unfolding keys' by (simp only: set_sorted_list_of_set finite_Diff)
    then have x: "x \<noteq> k" "x \<in> ?K" by blast+
    have same: "map_of (?ls ! i) x = map_of (ls ! i) x" if "i < length ls" for i
      unfolding mo [OF that] using x(1) by simp
    have o: "owner prios ?ls x = owner prios ls x" by (rule owner_cong) (simp, rule same)
    have "owner prios ls x < length ls" by (rule owner_least(1) [OF iffD1 [OF in_all_keys x(2)]])
    from same [OF this] show ?thesis unfolding pick_def o by simp
  qed
  then have "map (pick prios ?ls) (all_keys ?ls) = map (pick prios ls) (all_keys ?ls)" by (rule map_cong [OF refl])
  then show ?thesis unfolding merged_def keys list.map(2) keys' by (simp only:)
qed

lemma merged_Nil: "\<forall>l \<in> set ls. l = [] \<Longrightarrow> merged prios ls = []"
  by (simp add: merged_def all_keys_def)

section \<open>The heap\<close>

definition he_le :: "('x::linorder) heap_entry \<Rightarrow> 'x heap_entry \<Rightarrow> bool" where
  "he_le a b \<longleftrightarrow> he_key a < he_key b \<or> he_key a = he_key b \<and> he_prio a \<le> he_prio b"

lemma he_cmp_Greater: "he_cmp a b = Greater \<longleftrightarrow> \<not> he_le b a"
  unfolding he_cmp_def he_le_def cmp_def by auto

lemma he_le_refl: "he_le a a" and he_le_trans: "he_le a b \<Longrightarrow> he_le b c \<Longrightarrow> he_le a c"
  and he_le_linear: "he_le a b \<or> he_le b a"
  by (auto simp: he_le_def)

lemma heap_max_least: "heap_max m es \<in> set (m # es) \<and> (\<forall>x \<in> set (m # es). he_le (heap_max m es) x)"
proof (induction m es rule: heap_max.induct)
  case (2 m e es)
  let ?m = "if he_cmp e m = Greater then e else m"
  have "he_le ?m e" "he_le ?m m" using he_le_refl he_le_linear by (auto simp: he_cmp_Greater)
  with 2 he_le_trans show ?case by (auto split: if_splits)
qed (simp add: he_le_refl)

lemma heap_pop_Nil [simp]: "heap_pop [] = None"
  by (simp add: heap_pop_def)

lemma heap_pop_None [simp]: "heap_pop h = None \<longleftrightarrow> h = []"
  by (cases h) (simp_all add: heap_pop_def Let_def)

lemma heap_pop_Some:
  assumes "heap_pop h = Some (e, h')"
  shows "e \<in> set h" "\<forall>x \<in> set h. he_le e x" "h' = remove1 e h"
  using assms heap_max_least by (cases h; auto simp: heap_pop_def Let_def; fail)+

definition heads :: "nat list \<Rightarrow> 'x entry list list \<Rightarrow> 'x heap_entry set" where
  "heads prios rests =
     {\<lparr>he_key = k, he_value = v, he_src = i, he_prio = prios ! i\<rparr> | k v i. i < length rests \<and> (\<exists>t. rests ! i = (k, v) # t)}"

lemma heads_iff:
  "e \<in> heads prios rests \<longleftrightarrow>
     he_src e < length rests \<and> he_prio e = prios ! he_src e \<and> (\<exists>t. rests ! he_src e = (he_key e, he_value e) # t)"
  by (cases e) (auto simp: heads_def)

text \<open>Replacing the entry a source had in the heap by its next one.\<close>

lemma heads_update:
  assumes "distinct h" "set h = heads prios rests" "e \<in> set h" "i = he_src e"
    and "bi_peek src = (case tl (rests ! i) of [] \<Rightarrow> None | x # _ \<Rightarrow> Some x)" "bi_priority src = prios ! i"
  shows "distinct (heap_push (heap_item i src) (remove1 e h))"
    "set (heap_push (heap_item i src) (remove1 e h)) = heads prios (rests[i := tl (rests ! i)])"
proof -
  have i: "i < length rests" using assms(2-4) by (auto simp: heads_iff)
  have rm: "set (remove1 e h) = {x \<in> heads prios rests. he_src x \<noteq> i}"
  proof -
    have "x = e" if "x \<in> heads prios rests" "he_src x = he_src e" for x
      using that assms(2,3) by (cases x; cases e) (auto simp: heads_iff)
    then show ?thesis using assms(1-4) by auto
  qed
  have hp: "set (heap_push (heap_item i src) (remove1 e h)) = set (remove1 e h) \<union> (case heap_item i src of None \<Rightarrow> {} | Some x \<Rightarrow> {x})"
    by (auto simp: heap_push_def split: option.split)
  have "distinct (remove1 e h)" using assms(1) by simp
  moreover have "heap_item i src = Some x \<Longrightarrow> he_src x = i" for x by (auto simp: heap_item_def)
  ultimately show "distinct (heap_push (heap_item i src) (remove1 e h))"
    using rm by (auto simp: heap_push_def split: option.split)
  show "set (heap_push (heap_item i src) (remove1 e h)) = heads prios (rests[i := tl (rests ! i)])"
  proof (intro set_eqI)
    fix x
    show "x \<in> set (heap_push (heap_item i src) (remove1 e h)) \<longleftrightarrow> x \<in> heads prios (rests[i := tl (rests ! i)])"
    proof (cases "he_src x = i")
      case True
      then show ?thesis
        using i assms(5,6) unfolding hp rm
        by (cases x) (auto simp: heads_iff heap_item_def split: list.splits)
    next
      case False
      then show ?thesis unfolding hp rm by (auto simp: heads_iff heap_item_def split: option.splits)
    qed
  qed
qed

lemma heap_pop_least:
  assumes "set h = heads prios rests" "\<forall>r \<in> set rests. ksorted r" "heap_pop h = Some (e, h')" "i = he_src e"
  shows "i < length rests" "\<exists>t. rests ! i = (he_key e, he_value e) # t"
    "\<And>j x. j < length rests \<Longrightarrow> x \<in> set (rests ! j) \<Longrightarrow> he_key e \<le> fst x"
    "\<And>j. j < length rests \<Longrightarrow> map_of (rests ! j) (he_key e) \<noteq> None \<Longrightarrow> prios ! i \<le> prios ! j"
proof -
  note P = heap_pop_Some [OF assms(3)]
  have e: "e \<in> heads prios rests" using P(1) assms(1) by simp
  then show "i < length rests" "\<exists>t. rests ! i = (he_key e, he_value e) # t" by (auto simp: heads_iff assms(4))
  have least: "he_key e < k \<or> he_key e = k \<and> prios ! i \<le> prios ! j" if "j < length rests" "rests ! j = (k, v) # t" for j k v t
  proof -
    have "\<lparr>he_key = k, he_value = v, he_src = j, he_prio = prios ! j\<rparr> \<in> heads prios rests" using that by (simp add: heads_iff)
    with P(2) assms(1) have "he_le e \<lparr>he_key = k, he_value = v, he_src = j, he_prio = prios ! j\<rparr>" by blast
    then show ?thesis using e by (auto simp: he_le_def heads_iff assms(4))
  qed
  show le: "he_key e \<le> fst x" if j: "j < length rests" "x \<in> set (rests ! j)" for j x
  proof -
    obtain k v t where r: "rests ! j = (k, v) # t" using j(2) by (cases "rests ! j") auto
    moreover have "ksorted (rests ! j)" using assms(2) j(1) by simp
    ultimately have "k \<le> fst x" using j(2) by auto
    with least [OF j(1) r] show ?thesis by auto
  qed
  show "prios ! i \<le> prios ! j" if j: "j < length rests" "map_of (rests ! j) (he_key e) \<noteq> None" for j
  proof -
    obtain k v t where r: "rests ! j = (k, v) # t" using j(2) by (cases "rests ! j") auto
    have "ksorted (rests ! j)" using assms(2) j(1) by simp
    moreover have "he_key e \<in> fst ` set (rests ! j)" using j(2) by (simp add: map_of_eq_None_iff)
    ultimately have "k \<le> he_key e" using r by auto
    with least [OF j(1) r] show ?thesis by auto
  qed
qed

section \<open>The merge iterator yields the merge\<close>

definition live :: "'x dbkey option \<Rightarrow> ('x::linorder) entry list list \<Rightarrow> 'x entry list list" where
  "live lk rests = (case lk of None \<Rightarrow> rests | Some l \<Rightarrow> map (skip_key l) rests)"

text \<open>
  The state both merge iterators share: sources, the entries each has left, a heap of their heads, and
  the last key consumed, below which nothing is left.
\<close>

definition sources_inv :: "('x::linorder) sst_codec \<Rightarrow> (u64 \<rightharpoonup> 'x sst_reader) \<Rightarrow> 'x block_iter list \<Rightarrow> 'x heap_entry list
    \<Rightarrow> 'x dbkey option \<Rightarrow> 'x entry list list list \<Rightarrow> 'x entry list list \<Rightarrow> bool" where
  "sources_inv cd U its h lk bss rests \<longleftrightarrow>
     length rests = length its \<and> length bss = length its
   \<and> (\<forall>i < length its. bi_holds cd U (its ! i) (bss ! i) (rests ! i))
   \<and> distinct (map bi_priority its) \<and> distinct h \<and> set h = heads (map bi_priority its) rests
   \<and> (\<forall>l. lk = Some l \<longrightarrow> (\<forall>r \<in> set rests. \<forall>e \<in> set r. l \<le> fst e))"

lemma sources_inv_sorted: "sources_inv cd U its h lk bss rests \<Longrightarrow> \<forall>r \<in> set rests. ksorted r"
  unfolding sources_inv_def by (metis bi_holds_sorted in_set_conv_nth)

lemma initial_heap_heads:
  assumes "length rests = length its"
    "\<forall>i < length its. bi_peek (its ! i) = (case rests ! i of [] \<Rightarrow> None | e # _ \<Rightarrow> Some e)"
  shows "distinct (initial_heap its)" "set (initial_heap its) = heads (map bi_priority its) rests"
proof -
  let ?f = "\<lambda>h (i, it). heap_push (heap_item i it) h"
  have gen: "distinct (foldl ?f h (enumerate n js)) \<and> set (foldl ?f h (enumerate n js)) =
      set h \<union> {x. \<exists>i < length js. heap_item (n + i) (js ! i) = Some x}"
    if "distinct h" "\<forall>x \<in> set h. he_src x < n" for h n and js :: "'a block_iter list"
    using that
  proof (induction js arbitrary: h n)
    case (Cons j js)
    let ?h = "heap_push (heap_item n j) h"
    have src: "heap_item n j = Some x \<Longrightarrow> he_src x = n" for x by (auto simp: heap_item_def)
    have "distinct ?h" "\<forall>x \<in> set ?h. he_src x < Suc n"
      using Cons.prems src by (auto simp: heap_push_def split: option.split)
    note IH = Cons.IH [OF this]
    have "{x. \<exists>i < length (j # js). heap_item (n + i) ((j # js) ! i) = Some x} =
        {x. heap_item n j = Some x} \<union> {x. \<exists>i < length js. heap_item (Suc n + i) (js ! i) = Some x}"
      by (auto simp: less_Suc_eq_0_disj)
    moreover have "set ?h = set h \<union> {x. heap_item n j = Some x}" by (auto simp: heap_push_def split: option.split)
    ultimately show ?case using IH by auto
  qed simp
  have "distinct (initial_heap its) \<and> set (initial_heap its) = {x. \<exists>i < length its. heap_item i (its ! i) = Some x}"
    using gen [of "[]" 0 its] by (simp add: initial_heap_def)
  moreover have "heap_item i (its ! i) = Some x \<longleftrightarrow>
      he_src x = i \<and> he_prio x = bi_priority (its ! i) \<and> (\<exists>t. rests ! i = (he_key x, he_value x) # t)"
    if i: "i < length its" for i x
  proof -
    have "bi_peek (its ! i) = (case rests ! i of [] \<Rightarrow> None | e # _ \<Rightarrow> Some e)" using assms(2) i by blast
    then show ?thesis by (cases x; cases "rests ! i") (auto simp: heap_item_def)
  qed
  then have "{x. \<exists>i < length its. heap_item i (its ! i) = Some x} = heads (map bi_priority its) rests"
    using assms(1) by (auto simp: heads_iff)
  ultimately show "distinct (initial_heap its)" "set (initial_heap its) = heads (map bi_priority its) rests" by auto
qed

lemma sources_inv_init:
  assumes "length bss = length its" "length rests = length its" "distinct (map bi_priority its)"
    "\<forall>i < length its. bi_holds cd U (its ! i) (bss ! i) (rests ! i)"
  shows "sources_inv cd U its (initial_heap its) None bss rests"
  using assms initial_heap_heads [OF assms(2)] bi_peek_holds by (fastforce simp: sources_inv_def)

text \<open>One pop: the source advances, and the invariant holds of what is left.\<close>

lemma sources_pop:
  assumes inv: "sources_inv cd U its h lk bss rests" and pop: "heap_pop h = Some (e, h')" and i: "i = he_src e"
  obtains src t where "i < length its" "rests ! i = (he_key e, he_value e) # t"
    "yields (coherent cd U) (bi_advance cd (its ! i)) (Inr src)"
    "bi_reader src = bi_reader (its ! i)" "map bi_priority (its[i := src]) = map bi_priority its"
    "sources_inv cd U (its[i := src]) (heap_push (heap_item i src) h') lk bss (rests[i := t])"
    "sources_inv cd U (its[i := src]) (heap_push (heap_item i src) h') (Some (he_key e)) bss (rests[i := t])"
proof -
  let ?p = "map bi_priority its"
  have I: "length rests = length its" "length bss = length its" "\<And>j. j < length its \<Longrightarrow> bi_holds cd U (its ! j) (bss ! j) (rests ! j)"
    "distinct ?p" "distinct h" "set h = heads ?p rests" "\<forall>l. lk = Some l \<longrightarrow> (\<forall>r \<in> set rests. \<forall>e \<in> set r. l \<le> fst e)"
    using inv by (auto simp: sources_inv_def)
  note P = heap_pop_Some [OF pop] and L = heap_pop_least [OF I(6) sources_inv_sorted [OF inv] pop i]
  have il: "i < length its" using L(1) I(1) by simp
  obtain t where t: "rests ! i = (he_key e, he_value e) # t" using L(2) by blast
  obtain src where src: "yields (coherent cd U) (bi_advance cd (its ! i)) (Inr src)" "bi_reader src = bi_reader (its ! i)"
    "bi_priority src = bi_priority (its ! i)" "bi_holds cd U src (bss ! i) t"
    using bi_advance_yields [OF I(3) [OF il]] t by auto
  have pr: "map bi_priority (its[i := src]) = ?p" using src(3) il by (simp add: map_update list_update_same_conv)
  have hd: "distinct (heap_push (heap_item i src) h')" "set (heap_push (heap_item i src) h') = heads ?p (rests[i := t])"
    using heads_update [OF I(5,6) P(1) i, of src] bi_peek_holds [OF src(4)] src(3) t il P(3) by simp_all
  have rs: "bi_holds cd U (its[i := src] ! j) (bss ! j) (rests[i := t] ! j)" if "j < length its" for j
    using that src(4) I(1,3) il by (cases "j = i") simp_all
  have sub: "x \<in> set r \<Longrightarrow> r \<in> set (rests[i := t]) \<Longrightarrow> \<exists>r' \<in> set rests. x \<in> set r'" for r x
    using t il I(1) by (metis in_set_conv_nth length_list_update list.set_intros(2) nth_list_update_eq nth_list_update_neq)
  have ge: "\<forall>r \<in> set (rests[i := t]). \<forall>x \<in> set r. he_key e \<le> fst x"
    using sub L(3) by (metis in_set_conv_nth)
  have lst: "\<forall>l. lk = Some l \<longrightarrow> (\<forall>r \<in> set (rests[i := t]). \<forall>x \<in> set r. l \<le> fst x)"
    using sub I(7) by metis
  show thesis
    by (rule that [OF il t src(1,2) pr])
      (use I(1,2,4) pr hd rs ge lst in \<open>simp_all add: sources_inv_def\<close>)
qed

lemma sum_lengths_update:
  assumes "i < length xss" "xss ! i = x # t"
  shows "sum_list (map length (xss[i := t])) < sum_list (map length xss)"
  using assms
proof (induction xss arbitrary: i)
  case (Cons xs xss)
  then show ?case by (cases i) auto
qed simp

text \<open>A key that is popped again right after it was yielded changes nothing of what is left to yield.\<close>

lemma live_duplicate:
  assumes "i < length rests" "rests ! i = (k, v) # t" "ksorted (rests ! i)"
  shows "live (Some k) (rests[i := t]) = live (Some k) rests"
proof -
  have "skip_key k t = t" using assms(2,3) by (cases t) (auto simp: skip_key_def)
  moreover have "skip_key k (rests ! i) = t" using assms(2) by (simp add: skip_key_def)
  ultimately show ?thesis using assms(1) by (simp add: live_def map_update list_update_same_conv)
qed

text \<open>A fresh key is the next one of the merge, and its list owns it.\<close>

lemma merged_pop:
  assumes S: "\<forall>l \<in> set ls. ksorted l" and d: "distinct prios" "length prios = length ls"
    and i: "i < length ls" "ls ! i = (k, v) # t"
    and le: "\<forall>r \<in> set ls. \<forall>x \<in> set r. k \<le> fst x"
    and own: "\<forall>j. j < length ls \<longrightarrow> map_of (ls ! j) k \<noteq> None \<longrightarrow> prios ! i \<le> prios ! j"
    and fresh: "lk \<noteq> Some k" and ge: "\<forall>l. lk = Some l \<longrightarrow> (\<forall>r \<in> set ls. \<forall>e \<in> set r. l \<le> fst e)"
  shows "live lk ls = ls" "merged prios ls = (k, v, i) # merged prios (live (Some k) (ls[i := t]))"
proof -
  show "live lk ls = ls"
  proof (cases lk)
    case (Some l)
    have "ls ! i \<in> set ls" using i(1) by simp
    then have "l \<le> k" using ge Some i(2) by fastforce
    then have "l < k" using fresh Some by simp
    have "skip_key l r = r" if r: "r \<in> set ls" for r
    proof (cases r)
      case (Cons x xs)
      then have "k \<le> fst x" using le r by simp
      with \<open>l < k\<close> have "fst x \<noteq> l" by simp
      with Cons show ?thesis by (simp add: skip_key_def)
    qed (simp add: skip_key_def)
    then show ?thesis by (simp add: live_def Some map_idI)
  qed (simp add: live_def)
  have k: "k \<in> fst ` set (concat ls)" unfolding in_all_keys holders_nonempty using i by force
  have o: "owner prios ls k = i" using d i own by (intro owner_eqI) simp_all
  have "live (Some k) (ls[i := t]) = map (skip_key k) ls"
    using live_duplicate [OF i] S i(1) by (simp add: live_def)
  then show "merged prios ls = (k, v, i) # merged prios (live (Some k) (ls[i := t]))"
    using merged_step [OF S k le, of prios] i(2) by (simp add: pick_def o)
qed

lemma live_fresh:
  assumes inv: "sources_inv cd U its h lk bss rests" and pop: "heap_pop h = Some (e, h')" and i: "i = he_src e"
    and fresh: "lk \<noteq> Some (he_key e)" and t: "rests ! i = (he_key e, he_value e) # t"
  shows "live lk rests = rests"
    "merged (map bi_priority its) rests =
       (he_key e, he_value e, i) # merged (map bi_priority its) (live (Some (he_key e)) (rests[i := t]))"
proof -
  have I: "length rests = length its" "distinct (map bi_priority its)" "set h = heads (map bi_priority its) rests"
    and ge: "\<forall>l. lk = Some l \<longrightarrow> (\<forall>r \<in> set rests. \<forall>e \<in> set r. l \<le> fst e)"
    using inv by (auto simp: sources_inv_def)
  note S = sources_inv_sorted [OF inv]
  note L = heap_pop_least [OF I(3) S pop i]
  have le: "\<forall>r \<in> set rests. \<forall>x \<in> set r. he_key e \<le> fst x" using L(3) by (metis in_set_conv_nth)
  have own: "\<forall>j. j < length rests \<longrightarrow> map_of (rests ! j) (he_key e) \<noteq> None \<longrightarrow> map bi_priority its ! i \<le> map bi_priority its ! j"
    using L(4) by blast
  note P = merged_pop [OF S I(2) _ L(1) t le own fresh ge]
  show "live lk rests = rests" using P(1) I(1) by simp
  show "merged (map bi_priority its) rests =
       (he_key e, he_value e, i) # merged (map bi_priority its) (live (Some (he_key e)) (rests[i := t]))"
    using P(2) I(1) by simp
qed

lemma live_empty:
  assumes "sources_inv cd U its [] lk bss rests"
  shows "merged prios (live lk rests) = []"
proof -
  have "rests ! i = []" if "i < length rests" for i
  proof (rule ccontr)
    assume "rests ! i \<noteq> []"
    then obtain k v t where "rests ! i = (k, v) # t" by (cases "rests ! i") auto
    then have "\<lparr>he_key = k, he_value = v, he_src = i, he_prio = map bi_priority its ! i\<rparr> \<in> heads (map bi_priority its) rests"
      using that by (simp add: heads_iff)
    with assms show False by (simp add: sources_inv_def)
  qed
  then have "\<forall>r \<in> set rests. r = []" by (metis in_set_conv_nth)
  moreover from this have "skip_key l r = []" if "r \<in> set rests" for l r using that by (metis list.simps(4) skip_key_def)
  ultimately show ?thesis by (cases lk) (auto simp: live_def intro!: merged_Nil)
qed

definition merge_holds :: "('x::linorder) sst_codec \<Rightarrow> (u64 \<rightharpoonup> 'x sst_reader) \<Rightarrow> 'x merge_iter
    \<Rightarrow> ('x dbkey \<times> 'x slot \<times> nat) list \<Rightarrow> bool" where
  "merge_holds cd U it out \<longleftrightarrow>
     (\<exists>bss rests. sources_inv cd U (mi_sources it) (mi_heap it) (mi_last it) bss rests
        \<and> out = merged (map bi_priority (mi_sources it)) (live (mi_last it) rests))"

lemma merge_next_yields:
  assumes "merge_holds cd U it out"
  shows "\<exists>it'. yields (coherent cd U) (merge_next cd it) (Inr (it', case out of [] \<Rightarrow> None | x # _ \<Rightarrow> Some x))
    \<and> merge_holds cd U it' (tl out) \<and> map bi_reader (mi_sources it') = map bi_reader (mi_sources it)"
proof -
  obtain bss rests where "sources_inv cd U (mi_sources it) (mi_heap it) (mi_last it) bss rests"
    "out = merged (map bi_priority (mi_sources it)) (live (mi_last it) rests)"
    using assms by (auto simp: merge_holds_def)
  then show ?thesis
  proof (induction "sum_list (map length rests)" arbitrary: it rests rule: less_induct)
    case less
    note inv = less.prems(1)
    show ?case
    proof (cases "heap_pop (mi_heap it)")
      case None
      then have "mi_heap it = []" by simp
      then have "out = []" using inv live_empty less.prems(2) by metis
      moreover have "merge_next cd it = act_ret (it, None)"
        using None by (intro ext) (simp add: merge_next.simps [of cd it] act_ret_def)
      moreover have "merge_holds cd U it out" using less.prems by (auto simp: merge_holds_def)
      ultimately show ?thesis by (intro exI [of _ it]) (simp add: yields_ret)
    next
      case (Some eh)
      obtain e h where pop: "heap_pop (mi_heap it) = Some (e, h)" using Some by (cases eh) auto
      let ?i = "he_src e" and ?k = "he_key e"
      obtain src t where A: "?i < length (mi_sources it)" "rests ! ?i = (?k, he_value e) # t"
        "yields (coherent cd U) (bi_advance cd (mi_sources it ! ?i)) (Inr src)"
        "bi_reader src = bi_reader (mi_sources it ! ?i)"
        "map bi_priority ((mi_sources it)[?i := src]) = map bi_priority (mi_sources it)"
        "sources_inv cd U ((mi_sources it)[?i := src]) (heap_push (heap_item ?i src) h) (mi_last it) bss (rests[?i := t])"
        "sources_inv cd U ((mi_sources it)[?i := src]) (heap_push (heap_item ?i src) h) (Some ?k) bss (rests[?i := t])"
        by (rule sources_pop [OF inv pop refl])
      define it1 where "it1 = it\<lparr>mi_sources := (mi_sources it)[?i := src], mi_heap := heap_push (heap_item ?i src) h\<rparr>"
      have rd: "map bi_reader (mi_sources it1) = map bi_reader (mi_sources it)"
        using A(1,4) by (simp add: it1_def map_update list_update_same_conv)
      have il: "?i < length rests" using A(1) inv by (simp add: sources_inv_def)
      have step: "merge_next cd it = act_bind (bi_advance cd (mi_sources it ! ?i)) (\<lambda>src.
          let it' = it\<lparr>mi_sources := (mi_sources it)[?i := src], mi_heap := heap_push (heap_item ?i src) h\<rparr>
          in if mi_last it = Some ?k then merge_next cd it'
             else act_ret (it'\<lparr>mi_last := Some ?k\<rparr>, Some (?k, he_value e, ?i)))"
      proof
        fix c
        show "merge_next cd it c = act_bind (bi_advance cd (mi_sources it ! ?i)) (\<lambda>src.
          let it' = it\<lparr>mi_sources := (mi_sources it)[?i := src], mi_heap := heap_push (heap_item ?i src) h\<rparr>
          in if mi_last it = Some ?k then merge_next cd it'
             else act_ret (it'\<lparr>mi_last := Some ?k\<rparr>, Some (?k, he_value e, ?i))) c"
          unfolding merge_next.simps [of cd it] act_bind_def pop
          by (auto simp: Let_def act_ret_def split: option.split sum.split)
      qed
      show ?thesis
      proof (cases "mi_last it = Some ?k")
        case True
        have "out = merged (map bi_priority (mi_sources it1)) (live (mi_last it1) (rests[?i := t]))"
          using less.prems(2) live_duplicate [OF il A(2)] sources_inv_sorted [OF inv] il True A(5) by (simp add: it1_def)
        moreover have "sources_inv cd U (mi_sources it1) (mi_heap it1) (mi_last it1) bss (rests[?i := t])"
          using A(6) by (simp add: it1_def)
        ultimately obtain it' where it': "yields (coherent cd U) (merge_next cd it1) (Inr (it', case out of [] \<Rightarrow> None | x # _ \<Rightarrow> Some x))"
          "merge_holds cd U it' (tl out)" "map bi_reader (mi_sources it') = map bi_reader (mi_sources it1)"
          using less.hyps [OF sum_lengths_update [OF il A(2)]] by blast
        have "yields (coherent cd U) (merge_next cd it) (Inr (it', case out of [] \<Rightarrow> None | x # _ \<Rightarrow> Some x))"
          unfolding step by (rule yields_bind [OF A(3)]) (use True it'(1) in \<open>simp add: it1_def\<close>)
        with it' rd show ?thesis by auto
      next
        case False
        let ?it2 = "it1\<lparr>mi_last := Some ?k\<rparr>"
        note F = live_fresh [OF inv pop refl False A(2)]
        have out: "out = (?k, he_value e, ?i) # merged (map bi_priority (mi_sources it)) (live (Some ?k) (rests[?i := t]))"
          using less.prems(2) F by simp
        have "merge_holds cd U ?it2 (tl out)"
          unfolding merge_holds_def using A(5,7) by (intro exI [of _ bss] exI [of _ "rests[?i := t]"]) (simp add: it1_def out)
        moreover have "yields (coherent cd U) (merge_next cd it) (Inr (?it2, case out of [] \<Rightarrow> None | x # _ \<Rightarrow> Some x))"
          unfolding step by (rule yields_bind [OF A(3)]) (use False in \<open>simp add: it1_def out yields_ret\<close>)
        ultimately show ?thesis using rd by (intro exI [of _ ?it2]) simp
      qed
    qed
  qed
qed

section \<open>The scan iterator yields the live values of the merge\<close>

text \<open>The memtable entries are one more list, newer than every file.\<close>

definition scan_prios :: "'x block_iter list \<Rightarrow> nat list" where
  "scan_prios its = 0 # map (\<lambda>it. Suc (bi_priority it)) its"

definition scan_state :: "('x::linorder) sst_codec \<Rightarrow> (u64 \<rightharpoonup> 'x sst_reader) \<Rightarrow> 'x scan_iter
    \<Rightarrow> 'x entry list list list \<Rightarrow> 'x entry list list \<Rightarrow> ('x dbkey \<times> 'x slot \<times> nat) list \<Rightarrow> bool" where
  "scan_state cd U it bss rests out \<longleftrightarrow>
     sources_inv cd U (si_iters it) (si_heap it) (si_last it) bss rests
     \<and> ksorted (drop (si_mem_idx it) (si_mem it))
     \<and> (\<forall>l. si_last it = Some l \<longrightarrow> (\<forall>e \<in> set (drop (si_mem_idx it) (si_mem it)). l \<le> fst e))
     \<and> (\<forall>r \<in> set (drop (si_mem_idx it) (si_mem it) # rests). \<forall>e \<in> set r. fst e \<le> si_end it)
     \<and> out = merged (scan_prios (si_iters it)) (live (si_last it) (drop (si_mem_idx it) (si_mem it) # rests))"

definition scan_holds :: "('x::linorder) sst_codec \<Rightarrow> (u64 \<rightharpoonup> 'x sst_reader) \<Rightarrow> 'x scan_iter
    \<Rightarrow> ('x dbkey \<times> 'x slot \<times> nat) list \<Rightarrow> bool" where
  "scan_holds cd U it out \<longleftrightarrow> (\<exists>bss rests. scan_state cd U it bss rests out)"

definition scan_todo :: "('x::linorder) scan_iter \<Rightarrow> 'x entry list list \<Rightarrow> nat" where
  "scan_todo it rests = length (drop (si_mem_idx it) (si_mem it)) + sum_list (map length rests)"

definition scan_value :: "'x rewriter \<Rightarrow> layout \<Rightarrow> 'x sst_reader list \<Rightarrow> nat \<Rightarrow> 'x dbvalue \<Rightarrow> 'x dbvalue result" where
  "scan_value rw lay rs i v = (case i of 0 \<Rightarrow> Inr v | Suc j \<Rightarrow> rewrite_from rw (r_layout (rs ! j)) lay v)"

definition tombstone :: "'k \<times> 'v option \<times> nat \<Rightarrow> bool" where
  "tombstone e \<longleftrightarrow> fst (snd e) = None"

lemma scan_prios_distinct: "distinct (map bi_priority its) \<Longrightarrow> distinct (scan_prios its)"
proof -
  assume "distinct (map bi_priority its)"
  then have "distinct (map Suc (map bi_priority its))" by (simp only: distinct_map inj_on_def) simp
  then show ?thesis by (auto simp: scan_prios_def comp_def)
qed

lemma choose_mem_True:
  assumes "sources_inv cd U its h lk bss rests" "h = si_heap it" "choose_mem it"
  shows "si_mem_idx it < length (si_mem it)"
    "\<And>r x. r \<in> set rests \<Longrightarrow> x \<in> set r \<Longrightarrow> fst (si_mem it ! si_mem_idx it) \<le> fst x"
proof -
  show "si_mem_idx it < length (si_mem it)"
    using assms(3) by (auto simp: choose_mem_def Let_def split: option.splits)
  fix r x
  assume r: "r \<in> set rests" "x \<in> set r"
  then obtain j where j: "j < length rests" "rests ! j = r" by (auto simp: in_set_conv_nth)
  show "fst (si_mem it ! si_mem_idx it) \<le> fst x"
  proof (cases "heap_pop h")
    case None
    then have "h = []" by simp
    moreover obtain k v t where "rests ! j = (k, v) # t" using r j by (cases "rests ! j") auto
    then have "\<lparr>he_key = k, he_value = v, he_src = j, he_prio = map bi_priority its ! j\<rparr> \<in> heads (map bi_priority its) rests"
      using j by (simp add: heads_iff)
    ultimately show ?thesis using assms(1) by (simp add: sources_inv_def)
  next
    case (Some eh)
    then obtain e h' where e: "heap_pop h = Some (e, h')" by (cases eh) auto
    have "fst (si_mem it ! si_mem_idx it) \<le> he_key e"
      using assms(2,3) e by (auto simp: choose_mem_def Let_def split: option.splits)
    also have "\<dots> \<le> fst x"
      using heap_pop_least(3) [OF _ sources_inv_sorted [OF assms(1)] e refl j(1)] assms(1) r j by (auto simp: sources_inv_def)
    finally show ?thesis .
  qed
qed

lemma choose_mem_False:
  assumes "\<not> choose_mem it" "heap_pop (si_heap it) = Some (e, h)" "ksorted (drop (si_mem_idx it) (si_mem it))"
    "x \<in> set (drop (si_mem_idx it) (si_mem it))"
  shows "he_key e < fst x"
proof -
  have i: "si_mem_idx it < length (si_mem it)" using assms(4) by (cases "si_mem_idx it < length (si_mem it)") auto
  then have "he_key e < fst (si_mem it ! si_mem_idx it)" using assms(1,2) by (auto simp: choose_mem_def)
  also have "\<dots> \<le> fst x" using assms(3,4) Cons_nth_drop_Suc [OF i, symmetric] by auto
  finally show ?thesis .
qed

text \<open>A step that takes the memtable's next entry.\<close>

lemma scan_mem_step:
  assumes inv: "sources_inv cd U its h lk bss rests" and srt: "ksorted ((k, v) # M)"
    and ge: "\<forall>l. lk = Some l \<longrightarrow> (\<forall>e \<in> set ((k, v) # M). l \<le> fst e)"
    and le: "\<forall>r \<in> set rests. \<forall>x \<in> set r. k \<le> fst x"
  shows "lk = Some k \<Longrightarrow> live lk (M # rests) = live lk (((k, v) # M) # rests)"
    "lk \<noteq> Some k \<Longrightarrow> merged (scan_prios its) (live lk (((k, v) # M) # rests)) =
       (k, v, 0) # merged (scan_prios its) (live (Some k) (M # rests))"
    "sources_inv cd U its h (Some k) bss rests"
    "\<forall>l. lk = Some l \<longrightarrow> (\<forall>e \<in> set M. l \<le> fst e)" "\<forall>e \<in> set M. k \<le> fst e"
proof -
  let ?ls = "((k, v) # M) # rests"
  show "lk = Some k \<Longrightarrow> live lk (M # rests) = live lk ?ls"
    using live_duplicate [of 0 ?ls k v M] srt by simp
  have S: "\<forall>l \<in> set ?ls. ksorted l" using srt sources_inv_sorted [OF inv] by simp
  have M: "\<forall>e \<in> set M. k \<le> fst e" using srt by auto
  then have L: "\<forall>r \<in> set ?ls. \<forall>x \<in> set r. k \<le> fst x" using le by auto
  have I: "distinct (map bi_priority its)" "length rests = length its" and G: "\<forall>l. lk = Some l \<longrightarrow> (\<forall>r \<in> set ?ls. \<forall>e \<in> set r. l \<le> fst e)"
    using inv ge by (auto simp: sources_inv_def)
  note P = merged_pop [OF S scan_prios_distinct [OF I(1)] _ _ _ L _ _ G, of 0 v M]
  show "merged (scan_prios its) (live lk ?ls) = (k, v, 0) # merged (scan_prios its) (live (Some k) (M # rests))" if "lk \<noteq> Some k"
    using P that I(2) by (simp add: scan_prios_def)
  show "sources_inv cd U its h (Some k) bss rests" using inv le by (simp add: sources_inv_def)
  show "\<forall>e \<in> set M. k \<le> fst e" by (rule M)
  show "\<forall>l. lk = Some l \<longrightarrow> (\<forall>e \<in> set M. l \<le> fst e)" using ge by simp
qed

text \<open>A step that pops the heap.\<close>

lemma scan_heap_step:
  assumes inv: "sources_inv cd U its h lk bss rests" and pop: "heap_pop h = Some (e, h')" and i: "i = he_src e"
    and srt: "ksorted M" and lt: "\<forall>x \<in> set M. he_key e < fst x"
    and ge: "\<forall>l. lk = Some l \<longrightarrow> (\<forall>e \<in> set M. l \<le> fst e)" and t: "rests ! i = (he_key e, he_value e) # t"
  shows "lk = Some (he_key e) \<Longrightarrow> live lk (M # rests[i := t]) = live lk (M # rests)"
    "lk \<noteq> Some (he_key e) \<Longrightarrow> merged (scan_prios its) (live lk (M # rests)) =
       (he_key e, he_value e, Suc i) # merged (scan_prios its) (live (Some (he_key e)) (M # rests[i := t]))"
proof -
  let ?ls = "M # rests" and ?k = "he_key e"
  have I: "length rests = length its" "distinct (map bi_priority its)" "set h = heads (map bi_priority its) rests"
    using inv by (auto simp: sources_inv_def)
  note R = sources_inv_sorted [OF inv]
  note L = heap_pop_least [OF I(3) R pop i]
  have S: "\<forall>l \<in> set ?ls. ksorted l" using srt R by simp
  have upd: "?ls[Suc i := t] = M # rests[i := t]" by simp
  show "lk = Some ?k \<Longrightarrow> live lk (M # rests[i := t]) = live lk ?ls"
  proof -
    have "ksorted (?ls ! Suc i)" using R L(1) by simp
    then show "lk = Some ?k \<Longrightarrow> live lk (M # rests[i := t]) = live lk ?ls"
      using live_duplicate [of "Suc i" ?ls ?k "he_value e" t] L(1) t by simp
  qed
  have le: "\<forall>r \<in> set ?ls. \<forall>x \<in> set r. ?k \<le> fst x"
  proof
    fix r
    assume "r \<in> set ?ls"
    then consider "r = M" | j where "j < length rests" "r = rests ! j" by (auto simp: in_set_conv_nth)
    then show "\<forall>x \<in> set r. ?k \<le> fst x" using lt L(3) by cases (auto simp: less_imp_le)
  qed
  have own: "scan_prios its ! Suc i \<le> scan_prios its ! j" if j: "j < length ?ls" "map_of (?ls ! j) ?k \<noteq> None" for j
  proof (cases j)
    case 0
    then have "map_of M ?k \<noteq> None" using j(2) by simp
    then have "?k \<in> fst ` set M" by (simp add: map_of_eq_None_iff)
    then show ?thesis using lt by auto
  next
    case (Suc n)
    then show ?thesis using L(4) [of n] j L(1) I(1) by (simp add: scan_prios_def)
  qed
  then have own': "\<forall>j. j < length ?ls \<longrightarrow> map_of (?ls ! j) ?k \<noteq> None \<longrightarrow> scan_prios its ! Suc i \<le> scan_prios its ! j" by blast
  have G: "\<forall>l. lk = Some l \<longrightarrow> (\<forall>r \<in> set ?ls. \<forall>e \<in> set r. l \<le> fst e)" using inv ge by (auto simp: sources_inv_def)
  show "merged (scan_prios its) (live lk ?ls) = (?k, he_value e, Suc i) # merged (scan_prios its) (live (Some ?k) (M # rests[i := t]))"
    if f: "lk \<noteq> Some ?k"
    using merged_pop [OF S scan_prios_distinct [OF I(2)] _ _ _ le own' f G, of "he_value e" t] L(1) t I(1)
    by (simp add: scan_prios_def)
qed

lemma scan_next_mem:
  assumes "choose_mem it" "si_mem it ! si_mem_idx it = (k, v)" "k \<le> si_end it"
  shows "scan_next cd rw it =
    (let it1 = it\<lparr>si_mem_idx := si_mem_idx it + 1\<rparr>
     in if si_last it \<noteq> Some k
        then (case v of Some val \<Rightarrow> act_ret (it1\<lparr>si_last := Some k\<rparr>, Some (k, val))
              | None \<Rightarrow> scan_next cd rw (it1\<lparr>si_last := Some k\<rparr>))
        else scan_next cd rw it1)"
proof
  fix c
  show "scan_next cd rw it c = (let it1 = it\<lparr>si_mem_idx := si_mem_idx it + 1\<rparr>
     in if si_last it \<noteq> Some k
        then (case v of Some val \<Rightarrow> act_ret (it1\<lparr>si_last := Some k\<rparr>, Some (k, val))
              | None \<Rightarrow> scan_next cd rw (it1\<lparr>si_last := Some k\<rparr>))
        else scan_next cd rw it1) c"
    unfolding scan_next.simps [of cd rw it c] using assms(1,2) leD [OF assms(3)]
    by (cases v) (simp_all add: act_ret_def Let_def)
qed

lemma scan_next_heap:
  assumes "\<not> choose_mem it" "heap_pop (si_heap it) = Some (e, h)" "he_key e \<le> si_end it"
  shows "scan_next cd rw it =
    act_bind (bi_advance cd (si_iters it ! he_src e)) (\<lambda>src.
      let it1 = it\<lparr>si_iters := (si_iters it)[he_src e := src], si_heap := heap_push (heap_item (he_src e) src) h\<rparr>
      in if si_last it \<noteq> Some (he_key e)
         then (case he_value e of
                 Some val \<Rightarrow> act_bind (act_result (rewrite_from rw (r_layout (bi_reader src)) (si_layout it) val))
                   (\<lambda>val'. act_ret (it1\<lparr>si_last := Some (he_key e)\<rparr>, Some (he_key e, val')))
               | None \<Rightarrow> scan_next cd rw (it1\<lparr>si_last := Some (he_key e)\<rparr>))
         else scan_next cd rw it1)" (is "_ = ?r")
proof
  fix c
  show "scan_next cd rw it c = ?r c"
    unfolding scan_next.simps [of cd rw it c] act_bind_def using assms(1,2) leD [OF assms(3)]
    by (cases "he_value e") (auto simp: act_ret_def act_result_def Let_def split: option.split sum.split)
qed

text \<open>
  What one call of \<open>next\<close> answers for the entries that are still to come: tombstones are passed over,
  the first live entry is handed out with its value rewritten to the requested layout, and the
  iterator that is left holds the rest.
\<close>

definition scan_answer :: "('x::linorder) sst_codec \<Rightarrow> (u64 \<rightharpoonup> 'x sst_reader) \<Rightarrow> 'x rewriter \<Rightarrow> layout \<Rightarrow> 'x sst_reader list
    \<Rightarrow> ('x cache, 'x scan_iter \<times> ('x dbkey \<times> 'x dbvalue) option) act
    \<Rightarrow> ('x dbkey \<times> 'x slot \<times> nat) list \<Rightarrow> bool" where
  "scan_answer cd U rw lay rs m out \<longleftrightarrow>
     (case dropWhile tombstone out of
        [] \<Rightarrow> \<exists>it'. yields (coherent cd U) m (Inr (it', None))
      | (k, v, i) # rest \<Rightarrow>
          (case scan_value rw lay rs i (the v) of
             Inl err \<Rightarrow> yields (coherent cd U) m (Inl err)
           | Inr val \<Rightarrow>
               \<exists>it'. yields (coherent cd U) m (Inr (it', Some (k, val))) \<and> scan_holds cd U it' rest
                 \<and> si_layout it' = lay \<and> map bi_reader (si_iters it') = rs))"

lemma scan_answer_lift:
  assumes "scan_answer cd U rw lay rs m out"
    and "\<And>r. yields (coherent cd U) m r \<Longrightarrow> yields (coherent cd U) m' r"
  shows "scan_answer cd U rw lay rs m' out"
proof (cases "dropWhile tombstone out")
  case Nil
  show ?thesis using assms unfolding scan_answer_def Nil by auto
next
  case (Cons e rest)
  obtain k v i where e: "e = (k, v, i)" by (cases e)
  show ?thesis
    using assms Cons by (cases "scan_value rw lay rs i (the v)") (auto simp: scan_answer_def e)
qed

lemma scan_answer_tombstone [simp]: "scan_answer cd U rw lay rs m ((k, None, i) # out) = scan_answer cd U rw lay rs m out"
  by (simp add: scan_answer_def tombstone_def)

lemma scan_answer_value:
  "scan_answer cd U rw lay rs m ((k, Some v, i) # rest) \<longleftrightarrow>
     (case scan_value rw lay rs i v of
        Inl err \<Rightarrow> yields (coherent cd U) m (Inl err)
      | Inr val \<Rightarrow>
          \<exists>it'. yields (coherent cd U) m (Inr (it', Some (k, val))) \<and> scan_holds cd U it' rest
            \<and> si_layout it' = lay \<and> map bi_reader (si_iters it') = rs)"
  by (simp add: scan_answer_def tombstone_def)

lemma scan_next_mem_case:
  assumes st: "scan_state cd U it bss rests out" and ch: "choose_mem it"
    and IH: "\<And>it' rests' out'. scan_state cd U it' bss rests' out' \<Longrightarrow> scan_todo it' rests' < scan_todo it rests
      \<Longrightarrow> scan_answer cd U rw (si_layout it') (map bi_reader (si_iters it')) (scan_next cd rw it') out'"
  shows "scan_answer cd U rw (si_layout it) (map bi_reader (si_iters it)) (scan_next cd rw it) out"
proof -
  let ?M = "drop (si_mem_idx it) (si_mem it)" and ?its = "si_iters it" and ?M' = "drop (Suc (si_mem_idx it)) (si_mem it)"
  have inv: "sources_inv cd U ?its (si_heap it) (si_last it) bss rests" and srt0: "ksorted ?M"
    and ge0: "\<forall>l. si_last it = Some l \<longrightarrow> (\<forall>e \<in> set ?M. l \<le> fst e)"
    and bnd0: "\<forall>r \<in> set (?M # rests). \<forall>e \<in> set r. fst e \<le> si_end it"
    and out0: "out = merged (scan_prios ?its) (live (si_last it) (?M # rests))"
    using st by (simp_all add: scan_state_def)
  note C = choose_mem_True [OF inv refl ch]
  obtain k v where kv: "si_mem it ! si_mem_idx it = (k, v)" by force
  have M: "?M = (k, v) # ?M'" using Cons_nth_drop_Suc [OF C(1)] kv by simp
  have le: "\<forall>r \<in> set rests. \<forall>x \<in> set r. k \<le> fst x" using C(2) kv by simp
  have ke: "k \<le> si_end it" using bnd0 M by simp
  note N = scan_next_mem [OF ch kv ke, of cd rw]
  have srt: "ksorted ((k, v) # ?M')" and ge: "\<forall>l. si_last it = Some l \<longrightarrow> (\<forall>e \<in> set ((k, v) # ?M'). l \<le> fst e)"
    using srt0 ge0 M by simp_all
  note St = scan_mem_step [OF inv srt ge le]
  have bnd: "\<forall>r \<in> set (?M' # rests). \<forall>e \<in> set r. fst e \<le> si_end it" using bnd0 M by simp
  have lm: "length ?M' < length ?M" using M by simp
  show ?thesis
  proof (cases "si_last it = Some k")
    case dup: True
    define it1 where "it1 = it\<lparr>si_mem_idx := Suc (si_mem_idx it)\<rparr>"
    have "scan_next cd rw it = scan_next cd rw it1" using N dup by (simp add: it1_def)
    moreover have "scan_state cd U it1 bss rests out"
      using inv srt St(4) bnd out0 St(1) [OF dup] M by (simp add: scan_state_def it1_def)
    ultimately show ?thesis using IH [of it1 rests out] lm by (simp add: it1_def scan_todo_def)
  next
    case fresh: False
    define it1 where "it1 = it\<lparr>si_mem_idx := Suc (si_mem_idx it), si_last := Some k\<rparr>"
    define out1 where "out1 = merged (scan_prios ?its) (live (Some k) (?M' # rests))"
    have out: "out = (k, v, 0) # out1" using out0 St(2) [OF fresh] M by (simp add: out1_def)
    have st1: "scan_state cd U it1 bss rests out1"
      using St(3,5) srt bnd by (simp add: scan_state_def it1_def out1_def)
    show ?thesis
    proof (cases v)
      case None
      have "scan_next cd rw it = scan_next cd rw it1" using N fresh None by (simp add: it1_def)
      then show ?thesis using IH [OF st1] lm by (simp add: out None it1_def scan_todo_def)
    next
      case (Some val)
      have "scan_next cd rw it = act_ret (it1, Some (k, val))" using N fresh Some by (simp add: it1_def)
      then have "yields (coherent cd U) (scan_next cd rw it) (Inr (it1, Some (k, val)))" by (simp add: yields_ret)
      moreover have "scan_holds cd U it1 out1" "si_layout it1 = si_layout it" "si_iters it1 = ?its"
        using st1 by (auto simp: scan_holds_def it1_def)
      ultimately show ?thesis by (auto simp: out Some scan_answer_value scan_value_def)
    qed
  qed
qed

lemma scan_next_end_case:
  assumes st: "scan_state cd U it bss rests out" and ch: "\<not> choose_mem it" and pop: "heap_pop (si_heap it) = None"
  shows "out = []" "scan_next cd rw it = act_ret (it, None)"
proof -
  have inv: "sources_inv cd U (si_iters it) (si_heap it) (si_last it) bss rests" using st by (simp add: scan_state_def)
  have nil: "\<forall>r \<in> set rests. r = []"
  proof (rule ccontr)
    assume "\<not> ?thesis"
    then obtain j k v t where "j < length rests" "rests ! j = (k, v) # t"
      by (metis in_set_conv_nth neq_Nil_conv surj_pair)
    then have "\<lparr>he_key = k, he_value = v, he_src = j, he_prio = map bi_priority (si_iters it) ! j\<rparr>
        \<in> heads (map bi_priority (si_iters it)) rests"
      by (simp add: heads_iff)
    then show False using inv pop by (simp add: sources_inv_def)
  qed
  then have "skip_key l r = []" if "r \<in> set rests" for l r using that by (metis list.simps(4) skip_key_def)
  with nil have "merged prios (live (si_last it) ([] # rests)) = []" for prios
    by (cases "si_last it") (auto simp: live_def skip_key_def [of _ "[]"] intro!: merged_Nil)
  moreover have "drop (si_mem_idx it) (si_mem it) = []" using ch pop by (auto simp: choose_mem_def Let_def)
  ultimately show "out = []" using st by (simp add: scan_state_def)
  show "scan_next cd rw it = act_ret (it, None)"
    using ch pop by (intro ext) (simp add: scan_next.simps [of cd rw it] act_ret_def)
qed

lemma scan_next_heap_case:
  assumes st: "scan_state cd U it bss rests out" and ch: "\<not> choose_mem it" and pop: "heap_pop (si_heap it) = Some (e, h)"
    and IH: "\<And>it' rests' out'. scan_state cd U it' bss rests' out' \<Longrightarrow> scan_todo it' rests' < scan_todo it rests
      \<Longrightarrow> scan_answer cd U rw (si_layout it') (map bi_reader (si_iters it')) (scan_next cd rw it') out'"
  shows "scan_answer cd U rw (si_layout it) (map bi_reader (si_iters it)) (scan_next cd rw it) out"
proof -
  let ?M = "drop (si_mem_idx it) (si_mem it)" and ?its = "si_iters it" and ?i = "he_src e" and ?k = "he_key e"
  have inv: "sources_inv cd U ?its (si_heap it) (si_last it) bss rests" and srt: "ksorted ?M"
    and ge: "\<forall>l. si_last it = Some l \<longrightarrow> (\<forall>e \<in> set ?M. l \<le> fst e)"
    and bnd0: "\<forall>r \<in> set (?M # rests). \<forall>e \<in> set r. fst e \<le> si_end it"
    and out0: "out = merged (scan_prios ?its) (live (si_last it) (?M # rests))"
    using st by (simp_all add: scan_state_def)
  obtain src t where A: "?i < length ?its" "rests ! ?i = (?k, he_value e) # t"
    "yields (coherent cd U) (bi_advance cd (?its ! ?i)) (Inr src)" "bi_reader src = bi_reader (?its ! ?i)"
    "map bi_priority (?its[?i := src]) = map bi_priority ?its"
    "sources_inv cd U (?its[?i := src]) (heap_push (heap_item ?i src) h) (si_last it) bss (rests[?i := t])"
    "sources_inv cd U (?its[?i := src]) (heap_push (heap_item ?i src) h) (Some ?k) bss (rests[?i := t])"
    by (rule sources_pop [OF inv pop refl])
  define it1 where "it1 = it\<lparr>si_iters := ?its[?i := src], si_heap := heap_push (heap_item ?i src) h\<rparr>"
  have il: "?i < length rests" using A(1) inv by (simp add: sources_inv_def)
  have lt: "\<forall>x \<in> set ?M. ?k < fst x" using choose_mem_False [OF ch pop srt] by blast
  have ke: "?k \<le> si_end it" using bnd0 A(2) nth_mem [OF il] by fastforce
  note N = scan_next_heap [OF ch pop ke, of cd rw]
  note St = scan_heap_step [OF inv pop refl srt lt ge A(2)]
  have rd: "map bi_reader (?its[?i := src]) = map bi_reader ?its"
    using A(1,4) by (simp add: map_update list_update_same_conv)
  have pr: "scan_prios (?its[?i := src]) = scan_prios ?its"
    using A(5) by (simp add: scan_prios_def) (metis (mono_tags, lifting) comp_apply map_eq_conv map_map)
  have bnd: "\<forall>r \<in> set (?M # rests[?i := t]). \<forall>x \<in> set r. fst x \<le> si_end it"
  proof -
    have "\<forall>x \<in> set t. fst x \<le> si_end it" using bnd0 A(2) nth_mem [OF il] by fastforce
    then show ?thesis using bnd0 set_update_subset_insert [of rests ?i t] by (auto dest!: subsetD)
  qed
  have sm: "sum_list (map length (rests[?i := t])) < sum_list (map length rests)"
    using sum_lengths_update [OF il A(2)] by simp
  show ?thesis
  proof (cases "si_last it = Some ?k")
    case dup: True
    have "scan_state cd U it1 bss (rests[?i := t]) out"
      using A(6) srt ge bnd out0 St(1) [OF dup] pr by (simp add: it1_def scan_state_def)
    then have ans: "scan_answer cd U rw (si_layout it) (map bi_reader ?its) (scan_next cd rw it1) out"
      using IH [of it1] sm rd by (simp add: it1_def scan_todo_def)
    show ?thesis
      by (rule scan_answer_lift [OF ans], unfold N, rule yields_bind [OF A(3)]) (use dup in \<open>simp add: it1_def\<close>)
  next
    case fresh: False
    define it2 where "it2 = it1\<lparr>si_last := Some ?k\<rparr>"
    define out1 where "out1 = merged (scan_prios ?its) (live (Some ?k) (?M # rests[?i := t]))"
    have out: "out = (?k, he_value e, Suc ?i) # out1" using out0 St(2) [OF fresh] by (simp add: out1_def)
    have le: "\<forall>x \<in> set ?M. ?k \<le> fst x" using lt by (simp add: less_imp_le)
    have st2: "scan_state cd U it2 bss (rests[?i := t]) out1"
      using A(7) srt le bnd pr by (simp add: it2_def it1_def scan_state_def out1_def)
    show ?thesis
    proof (cases "he_value e")
      case None
      have ans: "scan_answer cd U rw (si_layout it) (map bi_reader ?its) (scan_next cd rw it2) out1"
        using IH [OF st2] sm rd by (simp add: it2_def it1_def scan_todo_def)
      have "scan_answer cd U rw (si_layout it) (map bi_reader ?its) (scan_next cd rw it) out1"
        by (rule scan_answer_lift [OF ans], unfold N, rule yields_bind [OF A(3)])
          (use fresh None in \<open>simp add: it1_def it2_def\<close>)
      then show ?thesis by (simp add: out None)
    next
      case (Some val)
      have sv: "scan_value rw (si_layout it) (map bi_reader ?its) (Suc ?i) val = rewrite_from rw (r_layout (bi_reader src)) (si_layout it) val"
        using A(1,4) by (simp add: scan_value_def)
      show ?thesis
      proof (cases "rewrite_from rw (r_layout (bi_reader src)) (si_layout it) val")
        case (Inl err)
        have "yields (coherent cd U) (scan_next cd rw it) (Inl err)"
          unfolding N by (rule yields_bind [OF A(3)])
            (use fresh Some Inl yields_bind_fail [OF yields_result] in \<open>simp add: Let_def\<close>)
        then show ?thesis by (simp add: out Some scan_answer_value sv Inl)
      next
        case (Inr val')
        have "yields (coherent cd U) (scan_next cd rw it) (Inr (it2, Some (?k, val')))"
          unfolding N by (rule yields_bind [OF A(3)])
            (use fresh Some Inr yields_bind_ret [OF yields_result] in \<open>simp add: Let_def it1_def it2_def\<close>)
        moreover have "scan_holds cd U it2 out1" using st2 by (auto simp: scan_holds_def)
        moreover have "si_layout it2 = si_layout it" "map bi_reader (si_iters it2) = map bi_reader ?its"
          using rd by (simp_all add: it2_def it1_def)
        ultimately show ?thesis by (auto simp: out Some scan_answer_value sv Inr)
      qed
    qed
  qed
qed

lemma scan_next_yields:
  assumes "scan_holds cd U it out"
  shows "scan_answer cd U rw (si_layout it) (map bi_reader (si_iters it)) (scan_next cd rw it) out"
proof -
  obtain bss rests where "scan_state cd U it bss rests out" using assms by (auto simp: scan_holds_def)
  then show ?thesis
  proof (induction "scan_todo it rests" arbitrary: it rests out rule: less_induct)
    case less
    show ?case
    proof (cases "choose_mem it")
      case True
      show ?thesis by (rule scan_next_mem_case [OF less.prems True]) (rule less.hyps)
    next
      case nm: False
      show ?thesis
      proof (cases "heap_pop (si_heap it)")
        case None
        show ?thesis using scan_next_end_case [OF less.prems nm None]
          by (auto simp: scan_answer_def yields_ret intro!: exI [of _ it])
      next
        case (Some eh)
        then obtain e h where "heap_pop (si_heap it) = Some (e, h)" by (cases eh) auto
        then show ?thesis by (rule scan_next_heap_case [OF less.prems nm]) (rule less.hyps)
      qed
    qed
  qed
qed

section \<open>Draining the iterators\<close>

definition key_range :: "'x dbkey option \<Rightarrow> 'x dbkey option \<Rightarrow> ('x::linorder) entry \<Rightarrow> bool" where
  "key_range lo hi e \<longleftrightarrow> from_start lo e \<and> within hi e"

lemma filter_key_range: "filter (within hi) (filter (from_start lo) es) = filter (key_range lo hi) es"
  by (simp add: key_range_def [abs_def])

text \<open>The files behind an iterator, with the priorities they are merged under.\<close>

definition tables_ok :: "('x::linorder) sst_codec \<Rightarrow> (u64 \<rightharpoonup> 'x sst_reader) \<Rightarrow> ('x sst_reader \<times> nat) list
    \<Rightarrow> 'x entry list list list \<Rightarrow> bool" where
  "tables_ok cd U rps bss \<longleftrightarrow> list_all2 (\<lambda>rp bs. reader_ok cd (fst rp) bs \<and> U (r_id (fst rp)) = Some (fst rp)) rps bss"

definition iters_hold :: "('x::linorder) sst_codec \<Rightarrow> (u64 \<rightharpoonup> 'x sst_reader) \<Rightarrow> 'x dbkey option \<Rightarrow> 'x dbkey option
    \<Rightarrow> 'x block_iter list \<Rightarrow> ('x sst_reader \<times> nat) list \<Rightarrow> 'x entry list list list \<Rightarrow> bool" where
  "iters_hold cd U lo hi its rps bss \<longleftrightarrow>
     map bi_reader its = map fst rps \<and> map bi_priority its = map snd rps
   \<and> list_all2 (\<lambda>it bs. bi_holds cd U it bs (filter (key_range lo hi) (concat bs))) its bss"

lemma iters_hold_Nil [simp]: "iters_hold cd U lo hi [] [] []"
  by (simp add: iters_hold_def)

lemma iters_hold_append:
  "iters_hold cd U lo hi its rps bss \<Longrightarrow> iters_hold cd U lo hi its' rps' bss' \<Longrightarrow>
    iters_hold cd U lo hi (its @ its') (rps @ rps') (bss @ bss')"
  by (auto simp: iters_hold_def intro: list_all2_appendI)

lemma bi_new_hold:
  assumes "reader_ok cd r bs" "U (r_id r) = Some r"
  shows "\<exists>it. yields (coherent cd U) (bi_new_with_end cd r lo hi p) (Inr it) \<and> iters_hold cd U lo hi [it] [(r, p)] [bs]"
  using bi_new_yields [of cd r bs U lo hi p] assms by (auto simp: iters_hold_def filter_key_range simp del: filter_filter)

lemma bi_new_all:
  assumes "tables_ok cd U rps bss"
  shows "\<exists>its. yields (coherent cd U) (act_map (\<lambda>(r, p). bi_new_with_end cd r lo hi p) rps) (Inr its)
    \<and> iters_hold cd U lo hi its rps bss"
  using assms unfolding tables_ok_def
proof (induction rps bss rule: list_all2_induct)
  case Nil
  then show ?case by (auto intro: yields_ret)
next
  case (Cons rp rps bs bss)
  obtain r p where rp: "rp = (r, p)" by (cases rp)
  obtain it where it: "yields (coherent cd U) (bi_new_with_end cd r lo hi p) (Inr it)" "iters_hold cd U lo hi [it] [(r, p)] [bs]"
    using bi_new_hold [of cd r bs U lo hi p] Cons.hyps(1) by (auto simp: rp)
  obtain its where its: "yields (coherent cd U) (act_map (\<lambda>(r, p). bi_new_with_end cd r lo hi p) rps) (Inr its)"
    "iters_hold cd U lo hi its rps bss"
    using Cons.IH by blast
  have "yields (coherent cd U) (act_map (\<lambda>(r, p). bi_new_with_end cd r lo hi p) (rp # rps)) (Inr (it # its))"
    unfolding act_map.simps rp prod.case
    by (rule yields_bind [OF it(1)], rule yields_bind [OF its(1)], rule yields_ret)
  then show ?case using iters_hold_append [OF it(2) its(2)] rp by auto
qed

lemma iters_hold_sources:
  assumes "iters_hold cd U lo hi its rps bss" "distinct (map snd rps)"
  shows "sources_inv cd U its (initial_heap its) None bss (map (\<lambda>bs. filter (key_range lo hi) (concat bs)) bss)"
proof (rule sources_inv_init)
  show "length bss = length its" "length (map (\<lambda>bs. filter (key_range lo hi) (concat bs)) bss) = length its"
    using assms(1) list_all2_lengthD by (fastforce simp: iters_hold_def)+
  show "distinct (map bi_priority its)" using assms by (simp add: iters_hold_def)
  show "\<forall>i < length its. bi_holds cd U (its ! i) (bss ! i) (map (\<lambda>bs. filter (key_range lo hi) (concat bs)) bss ! i)"
    using assms(1) by (auto simp: iters_hold_def list_all2_conv_all_nth)
qed

lemma merge_drain_iters:
  assumes its: "iters_hold cd U lo hi its rps bss" and d: "distinct (map snd rps)"
  shows "yields (coherent cd U) (act_drain (merge_next cd) (merge_new its) [])
    (Inr (merged (map snd rps) (map (\<lambda>bs. filter (key_range lo hi) (concat bs)) bss)))"
proof -
  let ?ls = "map (\<lambda>bs. filter (key_range lo hi) (concat bs)) bss"
  have h: "merge_holds cd U (merge_new its) (merged (map snd rps) ?ls)"
    unfolding merge_holds_def using iters_hold_sources [OF its d] its
    by (intro exI [of _ bss] exI [of _ ?ls]) (simp add: merge_new_def live_def iters_hold_def)
  have "yields (coherent cd U) (act_drain (merge_next cd) (merge_new its) []) (all_ok (map Inr (merged (map snd rps) ?ls)))"
  proof (rule yields_drain [where H = "\<lambda>it xs. \<exists>out. merge_holds cd U it out \<and> xs = map Inr out"])
    fix it and xs :: "('a dbkey \<times> 'a slot \<times> nat) result list"
    assume "\<exists>out. merge_holds cd U it out \<and> xs = map Inr out"
    then obtain out where out: "merge_holds cd U it out" "xs = map Inr out" by blast
    show "case xs of [] \<Rightarrow> \<exists>it'. yields (coherent cd U) (merge_next cd it) (Inr (it', None))
        | Inl e # _ \<Rightarrow> yields (coherent cd U) (merge_next cd it) (Inl e)
        | Inr x # ys \<Rightarrow> \<exists>it'. yields (coherent cd U) (merge_next cd it) (Inr (it', Some x))
            \<and> (\<exists>out. merge_holds cd U it' out \<and> ys = map Inr out)"
      using merge_next_yields [OF out(1)] out(2) by (cases out) auto
  qed (use h in blast)
  moreover have "all_ok (map Inr zs) = Inr zs" for zs :: "('a dbkey \<times> 'a slot \<times> nat) list" by (induction zs) auto
  ultimately show ?thesis by simp
qed

lemma merge_drain_yields:
  assumes ok: "tables_ok cd U rps bss" and d: "distinct (map snd rps)"
  shows "yields (coherent cd U)
    (act_bind (act_map (\<lambda>(r, p). bi_new_with_end cd r lo hi p) rps) (\<lambda>its. act_drain (merge_next cd) (merge_new its) []))
    (Inr (merged (map snd rps) (map (\<lambda>bs. filter (key_range lo hi) (concat bs)) bss)))"
  using bi_new_all [OF ok, of lo hi] merge_drain_iters [OF _ d] by (auto intro: yields_bind)

definition scan_results :: "'x rewriter \<Rightarrow> layout \<Rightarrow> 'x sst_reader list \<Rightarrow> ('x dbkey \<times> 'x slot \<times> nat) list
    \<Rightarrow> ('x dbkey \<times> 'x dbvalue) result list" where
  "scan_results rw lay rs out =
     map (\<lambda>(k, v, i). rbind (scan_value rw lay rs i (the v)) (\<lambda>w. Inr (k, w))) (filter (\<lambda>e. \<not> tombstone e) out)"

lemma scan_results_dropWhile: "scan_results rw lay rs (dropWhile tombstone out) = scan_results rw lay rs out"
  by (induction out) (auto simp: scan_results_def)

lemma scan_drain_iters:
  assumes hold: "iters_hold cd U (Some lo) (Some hi) its rps bss" and d: "distinct (map snd rps)"
    and mem: "ksorted mem" "\<forall>e \<in> set mem. fst e \<le> hi"
  shows "yields (coherent cd U) (act_drain (scan_next cd rw) (scan_new mem its hi lay) [])
    (all_ok (scan_results rw lay (map fst rps)
       (merged (0 # map (\<lambda>rp. Suc (snd rp)) rps)
          (mem # map (\<lambda>bs. filter (key_range (Some lo) (Some hi)) (concat bs)) bss))))"
proof -
  let ?ls = "map (\<lambda>bs. filter (key_range (Some lo) (Some hi)) (concat bs)) bss"
  have its: "map bi_reader its = map fst rps" "map bi_priority its = map snd rps" using hold by (simp_all add: iters_hold_def)
  note inv = iters_hold_sources [OF hold d]
  let ?out = "merged (0 # map (\<lambda>rp. Suc (snd rp)) rps) (mem # ?ls)"
  have "map (\<lambda>it. Suc (bi_priority it)) its = map (\<lambda>rp. Suc (snd rp)) rps"
    using its(2) by (metis (mono_tags, lifting) comp_apply map_eq_conv map_map)
  then have "scan_state cd U (scan_new mem its hi lay) bss ?ls ?out"
    using inv mem by (auto simp: scan_state_def scan_new_def live_def scan_prios_def key_range_def within_def)
  then have h: "scan_holds cd U (scan_new mem its hi lay) ?out \<and> si_layout (scan_new mem its hi lay) = lay
      \<and> map bi_reader (si_iters (scan_new mem its hi lay)) = map fst rps"
    using its(1) by (auto simp: scan_holds_def scan_new_def)
  let ?H = "\<lambda>it xs. \<exists>out. (scan_holds cd U it out \<and> si_layout it = lay \<and> map bi_reader (si_iters it) = map fst rps)
    \<and> xs = scan_results rw lay (map fst rps) out"
  have "yields (coherent cd U) (act_drain (scan_next cd rw) (scan_new mem its hi lay) []) (all_ok (scan_results rw lay (map fst rps) ?out))"
  proof (rule yields_drain [where H = ?H])
    fix it xs
    assume "?H it xs"
    then obtain out where out: "scan_holds cd U it out" "si_layout it = lay" "map bi_reader (si_iters it) = map fst rps"
      "xs = scan_results rw lay (map fst rps) out"
      by blast
    have A: "scan_answer cd U rw lay (map fst rps) (scan_next cd rw it) out" using scan_next_yields [OF out(1)] out(2,3) by simp
    have xs: "xs = scan_results rw lay (map fst rps) (dropWhile tombstone out)" using out(4) by (simp add: scan_results_dropWhile)
    show "case xs of [] \<Rightarrow> \<exists>it'. yields (coherent cd U) (scan_next cd rw it) (Inr (it', None))
        | Inl e # _ \<Rightarrow> yields (coherent cd U) (scan_next cd rw it) (Inl e)
        | Inr x # ys \<Rightarrow> \<exists>it'. yields (coherent cd U) (scan_next cd rw it) (Inr (it', Some x)) \<and> ?H it' ys"
    proof (cases "dropWhile tombstone out")
      case Nil
      then show ?thesis using A xs unfolding scan_answer_def Nil by (simp add: scan_results_def)
    next
      case (Cons e rest)
      obtain k v i where e: "e = (k, v, i)" by (cases e)
      have "\<not> tombstone e" using Cons by (metis hd_dropWhile list.distinct(1) list.sel(1))
      then have xs: "xs = rbind (scan_value rw lay (map fst rps) i (the v)) (\<lambda>w. Inr (k, w)) # scan_results rw lay (map fst rps) rest"
        using xs by (simp add: scan_results_def Cons e)
      show ?thesis
        using A xs unfolding scan_answer_def Cons e by (cases "scan_value rw lay (map fst rps) i (the v)") auto
    qed
  qed (use h in blast)
  then show ?thesis .
qed

lemma scan_drain_yields:
  assumes ok: "tables_ok cd U rps bss" and d: "distinct (map snd rps)"
    and mem: "ksorted mem" "\<forall>e \<in> set mem. fst e \<le> hi"
  shows "yields (coherent cd U)
    (act_bind (act_map (\<lambda>(r, p). bi_new_with_end cd r (Some lo) (Some hi) p) rps)
       (\<lambda>its. act_drain (scan_next cd rw) (scan_new mem its hi lay) []))
    (all_ok (scan_results rw lay (map fst rps)
       (merged (0 # map (\<lambda>rp. Suc (snd rp)) rps)
          (mem # map (\<lambda>bs. filter (key_range (Some lo) (Some hi)) (concat bs)) bss))))"
  using bi_new_all [OF ok, of "Some lo" "Some hi"] scan_drain_iters [OF _ d mem] by (auto intro: yields_bind)

section \<open>Newest first\<close>

text \<open>What a stack of tables, newest first, says about a key.\<close>

fun newest :: "('k \<times> 'v) list list \<Rightarrow> 'k \<Rightarrow> 'v option" where
  "newest [] k = None"
| "newest (l # ls) k = (case map_of l k of Some v \<Rightarrow> Some v | None \<Rightarrow> newest ls k)"

lemma newest_hit:
  "newest ls k = Some v \<longleftrightarrow> (\<exists>i < length ls. map_of (ls ! i) k = Some v \<and> (\<forall>j < i. map_of (ls ! j) k = None))"
proof (induction ls)
  case (Cons l ls)
  show ?case
  proof (cases "map_of l k")
    case None
    then show ?thesis using Cons by (auto simp: Ex_less_Suc2 All_less_Suc2)
  next
    case (Some w)
    then show ?thesis by (fastforce simp: Ex_less_Suc2 All_less_Suc2)
  qed
qed simp

lemma newest_None: "newest ls k = None \<longleftrightarrow> (\<forall>l \<in> set ls. map_of l k = None)"
  by (induction ls) (auto split: option.split)

lemma newest_append: "newest (xs @ ys) k = (case newest xs k of Some v \<Rightarrow> Some v | None \<Rightarrow> newest ys k)"
  by (induction xs) (auto split: option.split)

lemma map_of_filter_key: "map_of (filter (\<lambda>e. P (fst e)) l) k = (if P k then map_of l k else None)"
  by (induction l) auto

lemma newest_filter_key: "newest (map (filter (\<lambda>e. P (fst e))) ls) k = (if P k then newest ls k else None)"
  by (induction ls) (auto simp: map_of_filter_key split: option.split)

lemma owner_newest:
  assumes "sorted_wrt (<) prios" "length prios = length ls" "i < length ls" "map_of (ls ! i) k \<noteq> None"
    "\<forall>j < i. map_of (ls ! j) k = None"
  shows "owner prios ls k = i"
proof (rule owner_eqI [OF _ assms(2-4)])
  show "distinct prios" using assms(1) strict_sorted_iff by blast
  show "prios ! i \<le> prios ! j" if "j < length ls" "map_of (ls ! j) k \<noteq> None" for j
  proof -
    have "i \<le> j" using assms(5) that(2) by (meson not_le)
    then show ?thesis using assms(1,2) that(1) by (metis le_less sorted_wrt_nth_less)
  qed
qed

lemma map_of_tabulate: "map_of (map (\<lambda>k. (k, f k)) ks) k = (if k \<in> set ks then Some (f k) else None)"
  by (induction ks) auto

lemma merged_keys: "map fst (merged prios ls) = all_keys ls"
  by (simp add: merged_def pick_def comp_def)

lemma merged_ascending: "sorted_wrt (<) (map fst (merged prios ls))"
  unfolding merged_keys all_keys_def by simp

lemma merged_newest:
  assumes "sorted_wrt (<) prios" "length prios = length ls"
  shows "map_of (map (\<lambda>(k, v, i). (k, v)) (merged prios ls)) k = newest ls k"
proof -
  have eq: "map (\<lambda>(k, v, i). (k, v)) (merged prios ls) = map (\<lambda>k. (k, the (map_of (ls ! owner prios ls k) k))) (all_keys ls)"
    by (simp add: merged_def pick_def comp_def)
  show ?thesis
  proof (cases "newest ls k")
    case None
    then have "k \<notin> set (all_keys ls)" by (auto simp: set_all_keys newest_None map_of_eq_None_iff)
    then show ?thesis unfolding eq map_of_tabulate None by simp
  next
    case (Some v)
    then obtain i where i: "i < length ls" "map_of (ls ! i) k = Some v" "\<forall>j < i. map_of (ls ! j) k = None"
      unfolding newest_hit by blast
    then have "owner prios ls k = i" by (intro owner_newest [OF assms]) auto
    moreover have "k \<in> set (all_keys ls)" unfolding set_all_keys in_all_keys holders_nonempty using i by auto
    ultimately show ?thesis unfolding eq map_of_tabulate Some using i(2) by simp
  qed
qed

lemma merged_source:
  assumes "sorted_wrt (<) prios" "length prios = length ls" "(k, v, i) \<in> set (merged prios ls)"
  shows "i < length ls \<and> map_of (ls ! i) k = Some v \<and> (\<forall>j < i. map_of (ls ! j) k = None)"
proof -
  have k: "k \<in> fst ` set (concat ls)" and p: "(k, v, i) = pick prios ls k"
    using assms(3) by (auto simp: merged_def pick_def set_all_keys)
  then have "newest ls k \<noteq> None" by (auto simp: newest_None map_of_eq_None_iff)
  then obtain i' v' where i: "i' < length ls" "map_of (ls ! i') k = Some v'" "\<forall>j < i'. map_of (ls ! j) k = None"
    unfolding newest_hit by (metis newest_hit option.exhaust)
  then have "owner prios ls k = i'" by (intro owner_newest [OF assms(1,2)]) auto
  then show ?thesis using p i by (simp add: pick_def)
qed

lemma merged_lookup:
  assumes "sorted_wrt (<) prios" "length prios = length ls"
  shows "map_of (merged prios ls) k = Some (v, i) \<longleftrightarrow>
    i < length ls \<and> map_of (ls ! i) k = Some v \<and> (\<forall>j < i. map_of (ls ! j) k = None)" (is "?l \<longleftrightarrow> ?r")
proof
  assume ?l
  then show ?r using merged_source [OF assms] map_of_SomeD by fast
next
  assume r: ?r
  then have "owner prios ls k = i" by (intro owner_newest [OF assms]) auto
  moreover have "k \<in> set (all_keys ls)" unfolding set_all_keys in_all_keys holders_nonempty using r by auto
  ultimately show ?l
    using r unfolding merged_def pick_def [abs_def] map_of_tabulate by simp
qed

lemma newest_mapped:
  assumes "sorted_wrt (<) prios" "length prios = length ls" "length ls' = length ls"
    and m: "\<And>i. i < length ls \<Longrightarrow> map_of (ls' ! i) k = map_option (h i) (map_of (ls ! i) k)"
  shows "newest ls' k = (case map_of (merged prios ls) k of None \<Rightarrow> None | Some (v, i) \<Rightarrow> Some (h i v))"
proof (cases "map_of (merged prios ls) k")
  case None
  have "newest ls' k \<noteq> Some w" for w
  proof
    assume "newest ls' k = Some w"
    then obtain i where i: "i < length ls" "map_of (ls' ! i) k = Some w" "\<forall>j < i. map_of (ls' ! j) k = None"
      unfolding newest_hit assms(3) by blast
    then obtain v where v: "map_of (ls ! i) k = Some v" using m by auto
    moreover have "\<forall>j < i. map_of (ls ! j) k = None" using i(1,3) m by simp
    ultimately show False using merged_lookup [OF assms(1,2), of k v i] None i(1) by simp
  qed
  then show ?thesis using None by (cases "newest ls' k") auto
next
  case (Some vi)
  obtain v i where vi: "vi = (v, i)" by (cases vi)
  then have "i < length ls" "map_of (ls ! i) k = Some v" "\<forall>j < i. map_of (ls ! j) k = None"
    using Some merged_lookup [OF assms(1,2)] by blast+
  then have "newest ls' k = Some (h i v)" unfolding newest_hit assms(3) using m by (intro exI [of _ i]) simp
  then show ?thesis by (simp add: Some vi)
qed

text \<open>
  C13: The merge compaction runs over files, newest first (ascending priorities), ends and hands out every
  key of any file exactly once and in key order, each with the value (or tombstone) of the newest file
  that has the key and with the position of that file, whatever the block cache holds.
\<close>

theorem merge_iterator_newest_wins:
  assumes "tables_ok cd U rps bss" "sorted_wrt (<) (map snd rps)"
  shows "\<exists>out. yields (coherent cd U)
      (act_bind (act_map (\<lambda>(r, p). bi_new cd r None p) rps) (\<lambda>its. act_drain (merge_next cd) (merge_new its) [])) (Inr out)
    \<and> sorted_wrt (<) (map fst out)
    \<and> (\<forall>k. map_of (map (\<lambda>(k, v, i). (k, v)) out) k = newest (map concat bss) k)
    \<and> (\<forall>k v i. (k, v, i) \<in> set out \<longrightarrow> i < length bss \<and> map_of (concat (bss ! i)) k = Some v
          \<and> (\<forall>j < i. map_of (concat (bss ! j)) k = None))"
proof -
  let ?out = "merged (map snd rps) (map concat bss)"
  have len: "length (map snd rps) = length (map concat bss)"
    using assms(1) list_all2_lengthD by (auto simp: tables_ok_def)
  have "distinct (map snd rps)" using assms(2) strict_sorted_iff by blast
  from merge_drain_yields [OF assms(1) this, of None None]
  have "yields (coherent cd U)
      (act_bind (act_map (\<lambda>(r, p). bi_new cd r None p) rps) (\<lambda>its. act_drain (merge_next cd) (merge_new its) [])) (Inr ?out)"
    by (simp add: bi_new_def key_range_def [abs_def] from_start_def within_def)
  moreover have "i < length bss \<and> map_of (concat (bss ! i)) k = Some v \<and> (\<forall>j < i. map_of (concat (bss ! j)) k = None)"
    if "(k, v, i) \<in> set ?out" for k v i
    using merged_source [OF assms(2) len that] by (auto simp: nth_map)
  ultimately show ?thesis using merged_ascending merged_newest [OF assms(2) len] by blast
qed

text \<open>Two small files for the witnesses: the older has both rows of \<open>demo_rows\<close>, the newer a tombstone.\<close>

definition demo_reader :: "u64 \<Rightarrow> byte list \<Rightarrow> nat index_entry list \<Rightarrow> nat sst_reader" where
  "demo_reader sid bytes idx = \<lparr>r_file = bytes, r_index = idx, r_compression = Lz4, r_id = sid, r_level = 0,
     r_last_key = KInt 2, r_stats = ib_stats demo_index, r_bloom = None, r_file_size = of_nat (length bytes), r_layout = []\<rparr>"

definition demo_new :: "nat sst_reader" where
  "demo_new = demo_reader 8 [4] [\<lparr>first_key = KInt 2, ie_offset = 0, ie_size = 1, ie_checksum = 4\<rparr>]"

definition demo_old :: "nat sst_reader" where
  "demo_old = demo_reader 7 [3, 4] (ib_entries demo_index)"

definition demo_blocks :: "nat entry list list list" where
  "demo_blocks = [[drop 1 demo_rows], [take 1 demo_rows, drop 1 demo_rows]]"

lemma demo_tables: "tables_ok demo_codec [8 \<mapsto> demo_new, 7 \<mapsto> demo_old] [(demo_new, 0), (demo_old, 1)] demo_blocks"
proof -
  have "reader_ok demo_codec demo_new [drop 1 demo_rows]"
    by (simp add: reader_ok_def demo_new_def demo_reader_def demo_rows_def load_block_def demo_codec_def demo_hash_one Let_def)
  moreover have "reader_ok demo_codec demo_old [take 1 demo_rows, drop 1 demo_rows]"
    by (simp add: reader_ok_def demo_old_def demo_reader_def demo_index_def demo_rows_def load_block_def demo_codec_def demo_hash_one
        Let_def All_less_Suc2)
  ultimately show ?thesis
    by (simp add: tables_ok_def demo_blocks_def demo_new_def demo_old_def demo_reader_def)
qed

theorem merge_iterator_newest_wins_witness:
  "\<exists>c. act_bind (act_map (\<lambda>(r, p). bi_new demo_codec r None p) [(demo_new, 0), (demo_old, 1)])
      (\<lambda>its. act_drain (merge_next demo_codec) (merge_new its) []) None
    = Some (Inr [(KInt 1, Some (VInt 5), 1), (KInt 2, None, 0)], c)"
proof -
  obtain out where out: "yields (coherent demo_codec [8 \<mapsto> demo_new, 7 \<mapsto> demo_old])
      (act_bind (act_map (\<lambda>(r, p). bi_new demo_codec r None p) [(demo_new, 0), (demo_old, 1)])
        (\<lambda>its. act_drain (merge_next demo_codec) (merge_new its) [])) (Inr out)"
    "sorted_wrt (<) (map fst out)" "\<forall>k. map_of (map (\<lambda>(k, v, i). (k, v)) out) k = newest (map concat demo_blocks) k"
    "\<forall>k v i. (k, v, i) \<in> set out \<longrightarrow> i < length demo_blocks \<and> map_of (concat (demo_blocks ! i)) k = Some v
          \<and> (\<forall>j < i. map_of (concat (demo_blocks ! j)) k = None)"
    using merge_iterator_newest_wins [OF demo_tables] by auto
  let ?kv = "map (\<lambda>(k, v, i). (k, v)) out"
  have s: "sorted_wrt (<) (map fst ?kv)" using out(2) by (simp add: split_beta comp_def)
  have "map_of ?kv = map_of demo_rows"
  proof
    fix k
    have "map_of ?kv k = newest (map concat demo_blocks) k" using out(3) by blast
    then show "map_of ?kv k = map_of demo_rows k" by (simp add: demo_blocks_def demo_rows_def)
  qed
  moreover have "ksorted demo_rows" by (simp add: demo_rows_def)
  ultimately have "?kv = demo_rows" using ksorted_unique [of ?kv demo_rows] s by blast
  then obtain i1 i2 where o: "out = [(KInt 1, Some (VInt 5), i1), (KInt 2, None, i2)]"
    by (auto simp: demo_rows_def map_eq_Cons_conv)
  have "i1 < 2" "map_of (concat (demo_blocks ! i1)) (KInt 1) \<noteq> None" using out(4) [rule_format, of "KInt 1" "Some (VInt 5)" i1]
    by (auto simp: o demo_blocks_def)
  then have "i1 = 1" by (cases i1) (auto simp: demo_blocks_def demo_rows_def)
  moreover have "i2 = 0"
  proof (rule ccontr)
    assume "i2 \<noteq> 0"
    then have "map_of (concat (demo_blocks ! 0)) (KInt 2) = None" using out(4) [rule_format, of "KInt 2" None i2] by (auto simp: o)
    then show False by (simp add: demo_blocks_def demo_rows_def)
  qed
  ultimately show ?thesis using yieldsD [OF out(1), of None] by (auto simp: o coherent_def)
qed

text \<open>A value as the scan returns it: rewritten by \<open>f\<close> when its file was written under another layout.\<close>

definition migrated :: "layout \<Rightarrow> (layout \<Rightarrow> 'x dbvalue \<Rightarrow> 'x dbvalue) \<Rightarrow> 'x sst_reader \<Rightarrow> 'x entry \<Rightarrow> 'x entry" where
  "migrated lay f r e = (fst e, map_option (\<lambda>v. if r_layout r \<noteq> lay then f (r_layout r) v else v) (snd e))"

lemma map_option_same: "map_option (\<lambda>v. v) = (\<lambda>x. x)"
  by (simp add: fun_eq_iff option.map_ident)

lemma map_of_migrated:
  "map_of (map (migrated lay f r) es) k = map_option (map_option (\<lambda>v. if r_layout r \<noteq> lay then f (r_layout r) v else v)) (map_of es k)"
  by (induction es) (auto simp: migrated_def)

lemma scan_results_total:
  assumes "\<And>l v. l \<noteq> lay \<Longrightarrow> rw l lay v = Inr (f l v)"
  shows "all_ok (scan_results rw lay rs out) = Inr (map (\<lambda>(k, v, i). (k, case i of 0 \<Rightarrow> the v
      | Suc j \<Rightarrow> if r_layout (rs ! j) \<noteq> lay then f (r_layout (rs ! j)) (the v) else the v)) (filter (\<lambda>e. \<not> tombstone e) out))"
  unfolding scan_results_def
  by (subst all_ok_map_Inr [symmetric], intro arg_cong [where f = all_ok] map_cong refl)
    (auto simp: scan_value_def rewrite_from_def assms split: nat.split)

lemma map_of_live:
  assumes "distinct (map fst M)"
  shows "map_of (map (\<lambda>(k, v, i). (k, g i (the v))) (filter (\<lambda>e. \<not> tombstone e) M)) k
    = (case map_of M k of Some (Some v, i) \<Rightarrow> Some (g i v) | _ \<Rightarrow> None)"
  using assms
proof (induction M)
  case (Cons e M)
  obtain k' v i where e: "e = (k', v, i)" by (cases e)
  have "map_of M k' = None" using Cons.prems by (auto simp: e map_of_eq_None_iff)
  then show ?case using Cons by (cases v) (auto simp: e tombstone_def split: option.split)
qed simp

lemma scan_results_live:
  assumes len: "length rps = length bss" and pr: "sorted_wrt (<) (map snd rps)"
    and mem: "\<forall>e \<in> set mem. lo \<le> fst e \<and> fst e \<le> hi"
    and rw: "\<forall>l v. l \<noteq> lay \<longrightarrow> rw l lay v = Inr (f l v)"
  shows "\<exists>out. all_ok (scan_results rw lay (map fst rps)
       (merged (0 # map (\<lambda>rp. Suc (snd rp)) rps)
          (mem # map (\<lambda>bs. filter (key_range (Some lo) (Some hi)) (concat bs)) bss))) = Inr out
    \<and> sorted_wrt (<) (map fst out)
    \<and> (\<forall>k. map_of out k =
         (if lo \<le> k \<and> k \<le> hi
          then Option.bind (newest (mem # map2 (\<lambda>rp bs. map (migrated lay f (fst rp)) (concat bs)) rps bss) k) (\<lambda>v. v)
          else None))"
proof -
  let ?P = "\<lambda>k. lo \<le> k \<and> k \<le> hi" and ?prios = "0 # map (\<lambda>rp. Suc (snd rp)) rps" and ?rs = "map fst rps"
  let ?rng = "map (\<lambda>bs. filter (key_range (Some lo) (Some hi)) (concat bs)) bss"
  define g where "g = (\<lambda>i v. case i of 0 \<Rightarrow> v | Suc j \<Rightarrow> if r_layout (?rs ! j) \<noteq> lay then f (r_layout (?rs ! j)) v else v)"
  define M where "M = merged ?prios (mem # ?rng)"
  define out where "out = map (\<lambda>(k, v, i). (k, g i (the v))) (filter (\<lambda>e. \<not> tombstone e) M)"
  have ps: "sorted_wrt (<) ?prios" using pr by (simp add: sorted_wrt_map)
  have y: "all_ok (scan_results rw lay ?rs (merged ?prios (mem # ?rng))) = Inr out"
    unfolding out_def M_def g_def by (rule scan_results_total) (use rw in blast)
  have Md: "sorted_wrt (<) (map fst M)" unfolding M_def by (rule merged_ascending)
  have "map fst out = map fst (filter (\<lambda>e. \<not> tombstone e) M)" by (simp add: out_def split_beta comp_def)
  then have "sorted_wrt (<) (map fst out)" using ksorted_filter [OF Md] by simp
  moreover have "map_of out k = (if ?P k
      then Option.bind (newest (mem # map2 (\<lambda>rp bs. map (migrated lay f (fst rp)) (concat bs)) rps bss) k) (\<lambda>v. v) else None)" for k
  proof -
    have o: "map_of out k = (case map_of M k of Some (Some v, i) \<Rightarrow> Some (g i v) | _ \<Rightarrow> None)"
      unfolding out_def by (rule map_of_live [OF ksorted_distinct [OF Md]])
    have rng: "map_of (filter (key_range (Some lo) (Some hi)) es) k = (if ?P k then map_of es k else None)" for es :: "'a entry list"
      using map_of_filter_key [of ?P es k] by (simp add: key_range_def [abs_def] from_start_def within_def)
    show ?thesis
    proof (cases "?P k")
      case True
      have "newest (mem # map2 (\<lambda>rp bs. map (migrated lay f (fst rp)) (concat bs)) rps bss) k =
          (case map_of M k of None \<Rightarrow> None | Some (v, i) \<Rightarrow> Some (map_option (g i) v))"
      proof (unfold M_def, rule newest_mapped [OF ps])
        fix i
        assume i: "i < length (mem # ?rng)"
        show "map_of ((mem # map2 (\<lambda>rp bs. map (migrated lay f (fst rp)) (concat bs)) rps bss) ! i) k =
            map_option (map_option (g i)) (map_of ((mem # ?rng) ! i) k)"
        proof (cases i)
          case 0
          then show ?thesis by (simp add: g_def map_option_same)
        next
          case (Suc j)
          have j: "?rs ! j = fst (rps ! j)" "j < length bss" using Suc i len by simp_all
          have "g i = (\<lambda>v. if r_layout (fst (rps ! j)) \<noteq> lay then f (r_layout (fst (rps ! j))) v else v)"
            unfolding g_def Suc nat.case j(1) ..
          then show ?thesis using Suc j(2) len True by (simp add: map_of_migrated rng)
        qed
      qed (use len in simp_all)
      then show ?thesis using o True by (auto split: option.split)
    next
      case False
      have "map_of M k = None"
      proof (rule ccontr)
        assume "map_of M k \<noteq> None"
        then obtain v i where "map_of M k = Some (v, i)" by (metis option.exhaust surj_pair)
        then have i: "i < Suc (length bss)" "map_of ((mem # ?rng) ! i) k = Some v"
          using merged_lookup [OF ps, of "mem # ?rng" k v i] len by (simp_all add: M_def)
        show False
        proof (cases i)
          case 0
          then have "(k, v) \<in> set mem" using i(2) map_of_SomeD by fastforce
          then show False using mem False by auto
        next
          case (Suc j)
          then show False using i rng False by simp
        qed
      qed
      then have "map_of out k = None" using o by simp
      then show ?thesis using False by (simp only: if_False)
    qed
  qed
  ultimately show ?thesis using y by blast
qed

text \<open>
  C12: A range scan. Over memtable entries inside the range and any files, newest first, the scan iterator
  ends and returns, in key order and once each, exactly the keys of the range whose newest entry is not a
  tombstone, with that entry's value; a value from a file of another layout is first rewritten to the
  requested one.
\<close>

theorem scan_iterator_live_range:
  assumes ok: "tables_ok cd U rps bss" and pr: "sorted_wrt (<) (map snd rps)"
    and mem: "ksorted mem" "\<forall>e \<in> set mem. lo \<le> fst e \<and> fst e \<le> hi"
    and rw: "\<forall>l v. l \<noteq> lay \<longrightarrow> rw l lay v = Inr (f l v)"
  shows "\<exists>out. yields (coherent cd U)
      (act_bind (act_map (\<lambda>(r, p). bi_new_with_end cd r (Some lo) (Some hi) p) rps)
         (\<lambda>its. act_drain (scan_next cd rw) (scan_new mem its hi lay) [])) (Inr out)
    \<and> sorted_wrt (<) (map fst out)
    \<and> (\<forall>k. map_of out k =
         (if lo \<le> k \<and> k \<le> hi
          then Option.bind (newest (mem # map2 (\<lambda>rp bs. map (migrated lay f (fst rp)) (concat bs)) rps bss) k) (\<lambda>v. v)
          else None))"
proof -
  have len: "length rps = length bss" using ok list_all2_lengthD by (auto simp: tables_ok_def)
  have d: "distinct (map snd rps)" using pr strict_sorted_iff by blast
  have "\<forall>e \<in> set mem. fst e \<le> hi" using mem(2) by blast
  from scan_drain_yields [OF ok d mem(1) this, of lo rw lay] scan_results_live [where rw = rw and f = f and lay = lay, OF len pr mem(2) rw]
  show ?thesis by auto
qed

theorem scan_iterator_live_range_witness:
  "\<exists>c. act_bind (act_map (\<lambda>(r, p). bi_new_with_end demo_codec r (Some (KInt 1)) (Some (KInt 4)) p) [(demo_new, 0), (demo_old, 1)])
      (\<lambda>its. act_drain (scan_next demo_codec (\<lambda>l l' v. Inr v)) (scan_new [(KInt 3, Some (VInt 9))] its (KInt 4) []) []) None
    = Some (Inr [(KInt 1, VInt 5), (KInt 3, VInt 9)], c)"
proof -
  let ?want = "[(KInt 1, VInt 5), (KInt 3, VInt 9)] :: (nat dbkey \<times> nat dbvalue) list"
  obtain out where out: "yields (coherent demo_codec [8 \<mapsto> demo_new, 7 \<mapsto> demo_old])
      (act_bind (act_map (\<lambda>(r, p). bi_new_with_end demo_codec r (Some (KInt 1)) (Some (KInt 4)) p) [(demo_new, 0), (demo_old, 1)])
        (\<lambda>its. act_drain (scan_next demo_codec (\<lambda>l l' v. Inr v)) (scan_new [(KInt 3, Some (VInt 9))] its (KInt 4) []) [])) (Inr out)"
    "ksorted out"
    "\<forall>k. map_of out k = (if KInt 1 \<le> k \<and> k \<le> KInt 4 then Option.bind (newest ([(KInt 3, Some (VInt 9))]
        # map2 (\<lambda>rp bs. map (migrated [] (\<lambda>l v. v) (fst rp)) (concat bs)) [(demo_new, 0), (demo_old, 1::nat)] demo_blocks) k) (\<lambda>v. v) else None)"
    using scan_iterator_live_range [OF demo_tables, of "[(KInt 3, Some (VInt 9))]" "KInt 1" "KInt 4" "[]" "\<lambda>l l' v. Inr v" "\<lambda>l v. v"]
    by auto
  have "map_of out k = map_of ?want k" for k
    unfolding out(3) [rule_format]
    by (simp add: demo_blocks_def demo_rows_def migrated_def demo_new_def demo_old_def demo_reader_def)
  then have "out = ?want" by (intro ksorted_unique [OF out(2)]) (auto simp: fun_eq_iff)
  then show ?thesis using yieldsD [OF out(1), of None] by (auto simp: coherent_def)
qed

end
