(* ===== verification/Mem_Table.thy ===== *)
theory Mem_Table
  imports Values Framed_Log
begin

text \<open>
  \<^verbatim>\<open>dtdb_storage/src/wal.rs\<close> and \<^verbatim>\<open>dtdb_storage/src/memtable.rs\<close>: the write-ahead log's entries and
  its thin layer over the framed log, and the in-memory write buffer they rebuild. The memtable's
  reader-writer lock makes each operation atomic, so an operation is a function of the whole
  state; its byte counter is an atomic \<open>usize\<close>, a 64-bit word whose updates wrap.
\<close>

section \<open>The write-ahead log\<close>

datatype 'x wal_entry =
    WPut "'x dbkey" "'x dbvalue"
  | WDelete "'x dbkey"
  | WBatch "'x wal_entry list"

definition WAL_FORMAT :: log_format where
  "WAL_FORMAT = \<lparr>magic = map of_char ''DWAL'', version = 1\<rparr>"

definition wal_open :: "io \<Rightarrow> nat option \<Rightarrow> byte list option \<Rightarrow> byte list \<times> framed_log result" where
  "wal_open io interval existing = fl_open io WAL_FORMAT interval existing"

definition append_put ::
  "(byte list \<Rightarrow> u32) \<Rightarrow> 'x wal_entry serde \<Rightarrow> io \<Rightarrow> 'x dbkey \<Rightarrow> 'x dbvalue \<Rightarrow> framed_log \<Rightarrow> framed_log \<times> unit result" where
  "append_put h sd io k v l = fl_append h sd io (WPut k v) l"

definition append_delete ::
  "(byte list \<Rightarrow> u32) \<Rightarrow> 'x wal_entry serde \<Rightarrow> io \<Rightarrow> 'x dbkey \<Rightarrow> framed_log \<Rightarrow> framed_log \<times> unit result" where
  "append_delete h sd io k l = fl_append h sd io (WDelete k) l"

definition append_batch ::
  "(byte list \<Rightarrow> u32) \<Rightarrow> 'x wal_entry serde \<Rightarrow> io \<Rightarrow> 'x wal_entry list \<Rightarrow> framed_log \<Rightarrow> framed_log \<times> unit result" where
  "append_batch h sd io es l = fl_append h sd io (WBatch es) l"

definition wal_build_frame :: "(byte list \<Rightarrow> u32) \<Rightarrow> 'x wal_entry serde \<Rightarrow> 'x wal_entry list \<Rightarrow> byte list result" where
  "wal_build_frame h sd es = build_frame h sd (WBatch es)"

definition wal_recover :: "(byte list \<Rightarrow> u32) \<Rightarrow> 'x wal_entry serde \<Rightarrow> byte list option \<Rightarrow> 'x wal_entry list result" where
  "wal_recover h sd existing = fl_recover h sd WAL_FORMAT existing"

section \<open>The memtable\<close>

record 'x memtable =
  mt_map :: "'x entry list"
  mt_size :: u64

definition mem_new :: "'x memtable" where
  "mem_new = \<lparr>mt_map = [], mt_size = 0\<rparr>"

text \<open>\<open>fetch_add\<close> of a non-negative delta, \<open>fetch_sub\<close> of the absolute value of a negative one.\<close>

definition adjust_size :: "int \<Rightarrow> u64 \<Rightarrow> u64" where
  "adjust_size delta n = (if delta \<ge> 0 then n + of_int delta else n - of_int (- delta))"

definition mem_put :: "'x::linorder dbkey \<Rightarrow> 'x dbvalue \<Rightarrow> 'x memtable \<Rightarrow> 'x memtable" where
  "mem_put key value m =
     (let key_size = key_byte_size key; new_val_size = val_byte_size value;
          old = map_of (mt_map m) key;
          m1 = m\<lparr>mt_map := bt_insert key (Some value) (mt_map m)\<rparr>
      in case old of
           Some old_val \<Rightarrow>
             m1\<lparr>mt_size := adjust_size (int new_val_size - int (slot_byte_size old_val)) (mt_size m)\<rparr>
         | None \<Rightarrow> m1\<lparr>mt_size := mt_size m + of_nat (key_size + new_val_size)\<rparr>)"

definition mem_delete :: "'x::linorder dbkey \<Rightarrow> 'x memtable \<Rightarrow> 'x memtable" where
  "mem_delete key m =
     (let key_size = key_byte_size key;
          old = map_of (mt_map m) key;
          m1 = m\<lparr>mt_map := bt_insert key None (mt_map m)\<rparr>
      in case old of
           Some old_val \<Rightarrow> m1\<lparr>mt_size := adjust_size (1 - int (slot_byte_size old_val)) (mt_size m)\<rparr>
         | None \<Rightarrow> m1\<lparr>mt_size := mt_size m + of_nat (key_size + 1)\<rparr>)"

text \<open>
  \<open>apply_drain\<close>: one pass over the batch with a running size delta, published at the end. An entry
  that is itself a batch is skipped.
\<close>

definition drain_entry :: "'x::linorder wal_entry \<Rightarrow> 'x entry list \<times> int \<Rightarrow> 'x entry list \<times> int" where
  "drain_entry ent st =
     (let (map, size_delta) = st
      in case ent of
           WPut key value \<Rightarrow>
             (bt_insert key (Some value) map,
              size_delta + (case map_of map key of
                Some old_val \<Rightarrow> int (val_byte_size value) - int (slot_byte_size old_val)
              | None \<Rightarrow> int (key_byte_size key + val_byte_size value)))
         | WDelete key \<Rightarrow>
             (bt_insert key None map,
              size_delta + (case map_of map key of
                Some old_val \<Rightarrow> 1 - int (slot_byte_size old_val)
              | None \<Rightarrow> int (key_byte_size key + 1)))
         | WBatch _ \<Rightarrow> st)"

definition apply_drain :: "'x::linorder wal_entry list \<Rightarrow> 'x memtable \<Rightarrow> 'x memtable" where
  "apply_drain entries m =
     (let (map, size_delta) = foldl (\<lambda>st ent. drain_entry ent st) (mt_map m, 0) entries
      in \<lparr>mt_map = map, mt_size = adjust_size size_delta (mt_size m)\<rparr>)"

definition mem_get :: "'x::linorder memtable \<Rightarrow> 'x dbkey \<Rightarrow> 'x slot option" where
  "mem_get m key = map_of (mt_map m) key"

definition mem_entries :: "'x memtable \<Rightarrow> 'x entry list" where
  "mem_entries m = mt_map m"

definition mem_scan_range_raw :: "'x::linorder dbkey \<Rightarrow> 'x dbkey \<Rightarrow> 'x memtable \<Rightarrow> 'x entry list option" where
  "mem_scan_range_raw start end m = bt_range start end (mt_map m)"

definition mem_scan ::
  "'x::linorder dbkey \<Rightarrow> 'x dbkey \<Rightarrow> ('x dbkey \<Rightarrow> 'x dbvalue \<Rightarrow> bool) \<Rightarrow> 'x memtable
   \<Rightarrow> ('x dbkey \<times> 'x dbvalue) list option" where
  "mem_scan start end flt m =
     map_option (List.map_filter (\<lambda>(k, v). case v of None \<Rightarrow> None | Some x \<Rightarrow> if flt k x then Some (k, x) else None))
       (bt_range start end (mt_map m))"

definition mem_clear :: "'x memtable \<Rightarrow> 'x memtable" where
  "mem_clear m = \<lparr>mt_map = [], mt_size = 0\<rparr>"

definition mem_entry_counts :: "'x memtable \<Rightarrow> nat \<times> nat" where
  "mem_entry_counts m = (length (mt_map m), length (filter (\<lambda>(k, v). v = None) (mt_map m)))"

definition mem_byte_size :: "'x memtable \<Rightarrow> nat" where
  "mem_byte_size m = unat (mt_size m)"

definition mem_is_empty :: "'x memtable \<Rightarrow> bool" where
  "mem_is_empty m \<longleftrightarrow> mt_map m = []"

text \<open>Recovery replays a logged entry one mutation at a time, descending into batches.\<close>

fun apply_entry_recursive :: "'x::linorder wal_entry \<Rightarrow> 'x memtable \<Rightarrow> 'x memtable" where
  "apply_entry_recursive (WPut key value) m = mem_put key value m"
| "apply_entry_recursive (WDelete key) m = mem_delete key m"
| "apply_entry_recursive (WBatch sub) m = fold apply_entry_recursive sub m"

section \<open>Abstract view\<close>

text \<open>The specification of a log entry: what it does to a map from keys to slots.\<close>

fun replay :: "'x wal_entry \<Rightarrow> ('x dbkey \<rightharpoonup> 'x slot) \<Rightarrow> ('x dbkey \<rightharpoonup> 'x slot)" where
  "replay (WPut k v) c = c(k \<mapsto> Some v)"
| "replay (WDelete k) c = c(k \<mapsto> None)"
| "replay (WBatch es) c = fold replay es c"

fun is_batch :: "'x wal_entry \<Rightarrow> bool" where
  "is_batch (WBatch _) = True"
| "is_batch _ = False"

definition table_bytes :: "'x entry list \<Rightarrow> nat" where
  "table_bytes xs = sum_list (map entry_byte_size xs)"

definition mem_inv :: "'x::linorder memtable \<Rightarrow> bool" where
  "mem_inv m \<longleftrightarrow> ksorted (mt_map m) \<and> mt_size m = of_nat (table_bytes (mt_map m))"

section \<open>Lemmas\<close>

lemma adjust_size_eq: "adjust_size d n = n + of_int d"
  by (simp add: adjust_size_def)

lemma table_bytes_insert_new:
  "map_of xs k = None \<Longrightarrow> table_bytes (bt_insert k s xs) = table_bytes xs + key_byte_size k + slot_byte_size s"
  by (induction k s xs rule: bt_insert.induct) (auto simp: table_bytes_def entry_byte_size_def split: if_splits)

lemma table_bytes_insert_old:
  "ksorted xs \<Longrightarrow> map_of xs k = Some old \<Longrightarrow>
   table_bytes (bt_insert k s xs) + slot_byte_size old = table_bytes xs + slot_byte_size s"
proof (induction k s xs rule: bt_insert.induct)
  case (2 k s k' s' xs)
  show ?case
  proof (cases "k < k'")
    case True
    then have "k \<noteq> k'" "map_of xs k = None"
      using map_of_ksorted_None [of k' s' xs k] 2(2) by simp_all
    with 2(3) show ?thesis by simp
  next
    case False
    with 2 show ?thesis by (cases "k = k'") (simp_all add: table_bytes_def entry_byte_size_def)
  qed
qed simp

text \<open>The size change the code computes when it overwrites a slot.\<close>

definition slot_delta :: "'x::linorder dbkey \<Rightarrow> 'x slot \<Rightarrow> 'x entry list \<Rightarrow> int" where
  "slot_delta k s xs = (case map_of xs k of
     Some old \<Rightarrow> int (slot_byte_size s) - int (slot_byte_size old)
   | None \<Rightarrow> int (key_byte_size k + slot_byte_size s))"

lemma table_bytes_bt_insert:
  "ksorted xs \<Longrightarrow> int (table_bytes (bt_insert k s xs)) = int (table_bytes xs) + slot_delta k s xs"
  using table_bytes_insert_new [of xs k s] table_bytes_insert_old [of xs k _ s]
  by (cases "map_of xs k") (fastforce simp: slot_delta_def)+

definition mem_set :: "'x::linorder dbkey \<Rightarrow> 'x slot \<Rightarrow> 'x memtable \<Rightarrow> 'x memtable" where
  "mem_set k s m = \<lparr>mt_map = bt_insert k s (mt_map m), mt_size = mt_size m + of_int (slot_delta k s (mt_map m))\<rparr>"

lemma mem_put_set: "mem_put k v m = mem_set k (Some v) m"
  by (simp add: mem_put_def mem_set_def slot_delta_def adjust_size_eq slot_byte_size_def Let_def split: option.splits)

lemma mem_delete_set: "mem_delete k m = mem_set k None m"
  by (simp add: mem_delete_def mem_set_def slot_delta_def adjust_size_eq slot_byte_size_def Let_def split: option.splits)

lemma mem_inv_set: "mem_inv m \<Longrightarrow> mem_inv (mem_set k s m)"
proof -
  assume m: "mem_inv m"
  then have "of_nat (table_bytes (bt_insert k s (mt_map m)))
    = (of_int (int (table_bytes (mt_map m)) + slot_delta k s (mt_map m)) :: u64)"
    using table_bytes_bt_insert [of "mt_map m" k s] by (metis mem_inv_def of_int_of_nat_eq)
  with m show ?thesis by (simp add: mem_inv_def mem_set_def)
qed

lemma mem_get_eq: "mem_get m = map_of (mt_map m)"
  by (simp add: mem_get_def fun_eq_iff)

interpretation mt: ordered_map mem_new mem_set mem_get mem_entries mem_inv
proof unfold_locales
  fix m :: "'a memtable" and k s
  show "mem_inv m \<Longrightarrow> mem_inv (mem_set k s m)" by (rule mem_inv_set)
qed (simp_all add: mem_get_eq mem_new_def mem_set_def mem_entries_def mem_inv_def table_bytes_def)

lemma mem_get_put: "mem_get (mem_put k v m) = (mem_get m)(k \<mapsto> Some v)"
  and mem_get_delete: "mem_get (mem_delete k m) = (mem_get m)(k \<mapsto> None)"
  by (simp_all add: mem_put_set mem_delete_set mem_set_def mem_get_eq)

lemma apply_entry_recursive_inv: "mem_inv m \<Longrightarrow> mem_inv (apply_entry_recursive e m)"
proof (induction e arbitrary: m)
  case (WBatch es)
  then have "mem_inv m \<Longrightarrow> mem_inv (fold apply_entry_recursive es m)"
    by (induction es arbitrary: m) auto
  with WBatch show ?case by simp
qed (simp_all add: mem_put_set mem_delete_set mem_inv_set)

lemma apply_entry_recursive_get: "mem_get (apply_entry_recursive e m) = replay e (mem_get m)"
proof (induction e arbitrary: m)
  case (WBatch es)
  then show ?case by simp (induction es arbitrary: m, auto)
qed (simp_all add: mem_get_put mem_get_delete)

lemma drain_entry_step:
  "\<not> is_batch e \<Longrightarrow> drain_entry e (mt_map m, d)
     = (mt_map (apply_entry_recursive e m), d + slot_delta
          (case e of WPut k _ \<Rightarrow> k | WDelete k \<Rightarrow> k) (case e of WPut _ v \<Rightarrow> Some v | _ \<Rightarrow> None) (mt_map m))"
  by (cases e) (auto simp: drain_entry_def mem_put_set mem_delete_set mem_set_def slot_delta_def slot_byte_size_def
      split: option.splits)

lemma apply_entry_recursive_size:
  "\<not> is_batch e \<Longrightarrow> mt_size (apply_entry_recursive e m) = mt_size m + of_int (slot_delta
     (case e of WPut k _ \<Rightarrow> k | WDelete k \<Rightarrow> k) (case e of WPut _ v \<Rightarrow> Some v | _ \<Rightarrow> None) (mt_map m))"
  by (cases e) (simp_all add: mem_put_set mem_delete_set mem_set_def)

lemma drain_fold:
  "\<forall>e \<in> set es. \<not> is_batch e \<Longrightarrow>
   \<exists>D. foldl (\<lambda>st e. drain_entry e st) (mt_map m, d) es = (mt_map (fold apply_entry_recursive es m), d + D)
     \<and> mt_size (fold apply_entry_recursive es m) = mt_size m + of_int D"
proof (induction es arbitrary: m d)
  case Nil
  then show ?case by (auto intro: exI [of _ 0])
next
  case (Cons e es)
  let ?m = "apply_entry_recursive e m"
  define D0 where "D0 = slot_delta (case e of WPut k _ \<Rightarrow> k | WDelete k \<Rightarrow> k)
     (case e of WPut _ v \<Rightarrow> Some v | _ \<Rightarrow> None) (mt_map m)"
  have e: "\<not> is_batch e" using Cons.prems by simp
  obtain D where D: "foldl (\<lambda>st e. drain_entry e st) (mt_map ?m, d + D0) es
      = (mt_map (fold apply_entry_recursive es ?m), d + D0 + D)"
    "mt_size (fold apply_entry_recursive es ?m) = mt_size ?m + of_int D"
    using Cons.IH [of ?m "d + D0"] Cons.prems by auto
  show ?case
    using D drain_entry_step [OF e] apply_entry_recursive_size [OF e]
    by (intro exI [of _ "D0 + D"]) (simp add: D0_def [symmetric])
qed

lemma apply_drain_flat:
  assumes "\<forall>e \<in> set es. \<not> is_batch e"
  shows "apply_drain es m = fold apply_entry_recursive es m"
proof -
  obtain D where "foldl (\<lambda>st e. drain_entry e st) (mt_map m, 0) es = (mt_map (fold apply_entry_recursive es m), D)"
    "mt_size (fold apply_entry_recursive es m) = mt_size m + of_int D"
    using drain_fold [OF assms, of m 0] by auto
  then show ?thesis by (simp add: apply_drain_def adjust_size_eq)
qed

lemma drain_entry_batch: "drain_entry (WBatch sub) st = st"
  by (simp add: drain_entry_def split: prod.splits)

lemma apply_drain_skips:
  "apply_drain es m = apply_drain (filter (\<lambda>e. \<not> is_batch e) es) m"
proof -
  have "foldl (\<lambda>st e. drain_entry e st) st es = foldl (\<lambda>st e. drain_entry e st) st (filter (\<lambda>e. \<not> is_batch e) es)" for st
  proof (induction es arbitrary: st)
    case (Cons e es)
    then show ?case by (cases e) (simp_all add: drain_entry_batch)
  qed simp
  then show ?thesis by (simp add: apply_drain_def)
qed

lemma fold_apply_inv: "mem_inv m \<Longrightarrow> mem_inv (fold apply_entry_recursive es m)"
  using apply_entry_recursive_inv [of m "WBatch es"] by simp

lemma apply_drain_inv: "mem_inv m \<Longrightarrow> mem_inv (apply_drain es m)"
  by (subst apply_drain_skips) (simp add: apply_drain_flat fold_apply_inv)

lemma mem_inv_new [simp]: "mem_inv mem_new"
  by (rule mt.invar_empty)

lemma mem_get_fold: "mem_get (fold apply_entry_recursive es m) = fold replay es (mem_get m)"
  using apply_entry_recursive_get [of "WBatch es" m] by simp

lemma mem_inv_byte_size:
  "mem_inv m \<Longrightarrow> table_bytes (mt_map m) < 2 ^ 64 \<Longrightarrow> mem_byte_size m = table_bytes (mt_map m)"
  by (simp add: mem_byte_size_def mem_inv_def unsigned_of_nat take_bit_nat_eq_self)

section \<open>Properties\<close>

text \<open>
  C22: The memtable's invariant. Every operation that changes the memtable keeps its entries strictly
  sorted by key and its byte counter equal, modulo the counter's width, to the total size of the
  entries stored; the counter the flush decision reads is therefore exact below \<open>2^64\<close> bytes.
\<close>

theorem memtable_invariant:
  assumes "mem_inv m"
  shows "mem_inv (mem_put k v m) \<and> mem_inv (mem_delete k m) \<and> mem_inv (apply_drain es m)
    \<and> mem_inv (apply_entry_recursive e m) \<and> mem_inv (mem_clear m)
    \<and> (table_bytes (mt_map m) < 2 ^ 64 \<longrightarrow> mem_byte_size m = table_bytes (mt_map m))"
  using assms mt.invar_empty
  by (simp add: mem_put_set mem_delete_set mem_inv_set apply_drain_inv apply_entry_recursive_inv
      mem_clear_def mem_new_def mem_inv_byte_size)

theorem memtable_invariant_witness:
  "mem_inv (mem_put (KInt 1) (VString ''ab'') (mem_new :: nat memtable))
   \<and> mem_byte_size (mem_put (KInt 1 :: nat dbkey) (VString ''ab'') mem_new) = 10"
proof -
  let ?m = "mem_put (KInt 1 :: nat dbkey) (VString ''ab'') mem_new"
  have 1: "mem_inv ?m" using memtable_invariant [OF mem_inv_new] by blast
  have "table_bytes (mt_map ?m) = 10"
    by (simp add: mem_put_set mem_set_def mem_new_def table_bytes_def entry_byte_size_def slot_byte_size_def)
  with memtable_invariant [OF 1] 1 show ?thesis by auto
qed

text \<open>
  C23: The live path and recovery agree. On a batch of plain mutations the group-commit leader's
  single-pass \<open>apply_drain\<close> leaves the same memtable, byte counter included, as recovery's replay of
  the logged batch entry by entry, and lookups in it are those of the abstract log semantics.
\<close>

theorem apply_drain_is_replay:
  assumes "\<forall>e \<in> set es. \<not> is_batch e"
  shows "apply_drain es m = apply_entry_recursive (WBatch es) m
    \<and> mem_get (apply_drain es m) = replay (WBatch es) (mem_get m)"
  using assms by (simp add: apply_drain_flat mem_get_fold)

theorem apply_drain_is_replay_witness:
  "mem_get (apply_drain [WPut (KInt 1) (VInt 10), WDelete (KInt 2)] (mem_new :: nat memtable)) (KInt 2) = Some None"
proof -
  have "\<forall>e \<in> set [WPut (KInt 1) (VInt 10), WDelete (KInt 2 :: nat dbkey)]. \<not> is_batch e" by simp
  from apply_drain_is_replay [OF this, of mem_new]
  have "mem_get (apply_drain [WPut (KInt 1) (VInt 10), WDelete (KInt 2 :: nat dbkey)] mem_new)
    = replay (WBatch [WPut (KInt 1) (VInt 10), WDelete (KInt 2)]) (mem_get mem_new)" by blast
  then show ?thesis by (simp only: replay.simps) simp
qed



text \<open>
  C24: Range scans of the memtable. For an ordered range the raw scan returns, sorted by key and each
  key once, exactly the slots stored in the range, tombstones included; the filtered scan drops the
  tombstones and the values the filter rejects. On a non-empty memtable an inverted range panics.
\<close>

theorem memtable_scan:
  assumes "mem_inv m"
  shows "(start \<le> end \<longrightarrow> (\<exists>xs. mem_scan_range_raw start end m = Some xs \<and> ksorted xs
      \<and> map_of xs = (\<lambda>k. if start \<le> k \<and> k \<le> end then mem_get m k else None)
      \<and> mem_scan start end flt m
          = Some (map (\<lambda>(k, s). (k, the s)) (filter (\<lambda>(k, s). s \<noteq> None \<and> flt k (the s)) xs))))
    \<and> (end < start \<longrightarrow> (mem_scan_range_raw start end m = None \<longleftrightarrow> \<not> mem_is_empty m))"
proof -
  have s: "ksorted (mt_map m)" using assms by (simp add: mem_inv_def)
  have mf: "List.map_filter (\<lambda>(k, v). case v of None \<Rightarrow> None | Some x \<Rightarrow> if flt k x then Some (k, x) else None) xs
    = map (\<lambda>(k, s). (k, the s)) (filter (\<lambda>(k, s). s \<noteq> None \<and> flt k (the s)) xs)" for xs
    by (induction xs) (auto simp: map_filter_simps split: option.splits if_splits)
  show ?thesis
    using s map_of_range [OF s]
    by (auto simp: mem_scan_range_raw_def mem_scan_def bt_range_def mem_get_def mem_is_empty_def mf fun_eq_iff)
qed

theorem memtable_scan_witness:
  "mem_scan_range_raw (KInt 5) (KInt 1) (mem_put (KInt 1) VNull (mem_new :: nat memtable)) = None"
proof -
  let ?m = "mem_put (KInt 1) VNull (mem_new :: nat memtable)"
  have 1: "mem_inv ?m" by (simp add: mem_put_set mem_inv_set)
  have "(KInt 1 :: nat dbkey) < KInt 5" by code_simp
  moreover have "\<not> mem_is_empty ?m" by (simp add: mem_is_empty_def mem_put_set mem_set_def mem_new_def)
  ultimately show ?thesis using memtable_scan [OF 1, of "KInt 5" "KInt 1"] by blast
qed


definition demo_wal_serde :: "nat wal_entry serde" where
  "demo_wal_serde = \<lparr>ser = (\<lambda>e. if e = WBatch [WDelete (KInt 1)] then Some [1] else None),
     de = (\<lambda>b. if b = [1] then Some (WBatch [WDelete (KInt 1)]) else None)\<rparr>"


end
