(* ===== verification/Engine_Read.thy ===== *)
theory Engine_Read
  imports Iterators Mem_Table
begin

text \<open>
  The read paths of \<^verbatim>\<open>dtdb_storage/src/engine.rs\<close>: point lookups, batched lookups, range scans and filtered
  scans over the active memtable, the queue of sealed memtables and the levels of SSTables.

  The state they read is the record \<open>engine\<close>: the memtables, the map of levels (a \<open>BTreeMap\<close>, as a
  key-sorted association list) and the layout values are returned in. A read of the source copies or
  searches the memtables under one lock and the level map under another; here it reads one record, and
  a read that overlaps a flush is the same definition on a record mixed from two states. The abstract contents are a stack of tables, newest first;
  each read path is shown to return what the stack says.
\<close>

section \<open>State\<close>

datatype slot_state = Pending | InFlight | Completed

record 'x imm_memtable =
  imm_table :: "'x memtable"
  imm_wal_id :: u64
  imm_sst_id :: u64
  imm_slot :: slot_state

type_synonym 'x levels = "(nat \<times> 'x sst_reader list) list"

record 'x engine =
  e_active :: "'x memtable"
  e_immutable :: "'x imm_memtable list"
  e_sstables :: "'x levels"
  e_layout :: layout

definition mems :: "('x, 'z) engine_scheme \<Rightarrow> 'x memtable list" where
  "mems e = e_active e # map imm_table (e_immutable e)"

definition level_files :: "nat \<Rightarrow> 'x levels \<Rightarrow> 'x sst_reader list" where
  "level_files n lv = (case map_of lv n of None \<Rightarrow> [] | Some fs \<Rightarrow> fs)"

definition insert_l0_sorted :: "'x sst_reader \<Rightarrow> 'x sst_reader list \<Rightarrow> 'x sst_reader list" where
  "insert_l0_sorted r l = (let pos = partition_point (\<lambda>f. r_id r < r_id f) l in take pos l @ r # drop pos l)"

section \<open>Point lookup\<close>

fun mem_search :: "('x::linorder) dbkey \<Rightarrow> 'x memtable list \<Rightarrow> 'x slot option" where
  "mem_search key [] = None"
| "mem_search key (m # ms) = (case mem_get m key of Some res \<Rightarrow> Some res | None \<Rightarrow> mem_search key ms)"

fun act_first :: "('a \<Rightarrow> ('s, 'b option) act) \<Rightarrow> 'a list \<Rightarrow> ('s, 'b option) act" where
  "act_first f [] = act_ret None"
| "act_first f (x # xs) = act_bind (f x) (\<lambda>r. case r of Some y \<Rightarrow> act_ret (Some y) | None \<Rightarrow> act_first f xs)"

text \<open>What a hit in a file becomes: a value is rewritten to the target layout, a tombstone is no value.\<close>

definition resolve :: "'x rewriter \<Rightarrow> layout \<Rightarrow> 'x sst_reader \<Rightarrow> 'x slot \<Rightarrow> ('s, 'x dbvalue option) act" where
  "resolve rw lay r s =
     (case s of
        Some val \<Rightarrow> act_bind (act_result (rewrite_from rw (r_layout r) lay val)) (\<lambda>v. act_ret (Some v))
      | None \<Rightarrow> act_ret None)"

definition get_file :: "('x::linorder) sst_codec \<Rightarrow> 'x rewriter \<Rightarrow> layout \<Rightarrow> 'x dbkey \<Rightarrow> 'x sst_reader
    \<Rightarrow> ('x cache, 'x dbvalue option option) act" where
  "get_file cd rw lay key r =
     act_bind (sst_get cd r key) (\<lambda>res. case res of
        Some s \<Rightarrow> act_bind (resolve rw lay r s) (\<lambda>v. act_ret (Some v))
      | None \<Rightarrow> act_ret None)"

text \<open>
  The search for the file of a level. The comparison closure also notes a file with an empty index
  when it probes one; \<open>bs_probes\<close> are the elements \<open>binary_search_by\<close> probes.
\<close>

function bs_probes :: "('a \<Rightarrow> ordering) \<Rightarrow> 'a list \<Rightarrow> nat \<Rightarrow> nat \<Rightarrow> 'a list" where
  "bs_probes f xs base sz =
     (if sz \<le> 1 then [xs ! base]
      else xs ! (base + sz div 2)
           # bs_probes f xs (if f (xs ! (base + sz div 2)) = Greater then base else base + sz div 2) (sz - sz div 2))"
  by pat_completeness auto
termination
  by (relation "measure (\<lambda>(f, xs, base, sz). sz)") auto

declare bs_probes.simps [simp del]

definition level_cmp :: "('x::linorder) dbkey \<Rightarrow> 'x sst_reader \<Rightarrow> ordering" where
  "level_cmp key r =
     (case sst_first_key r of
        None \<Rightarrow> Equal
      | Some f \<Rightarrow> if key < f then Greater else if r_last_key r < key then Less else Equal)"

definition empty_index :: storage_error where
  "empty_index = Corruption ''SSTable has an empty index''"

definition find_in_level :: "('x::linorder) dbkey \<Rightarrow> 'x sst_reader list \<Rightarrow> nat option result" where
  "find_in_level key ssts =
     (if list_ex (\<lambda>r. sst_first_key r = None) (bs_probes (level_cmp key) ssts 0 (length ssts)) then Inl empty_index
      else Inr (case binary_search_by (level_cmp key) ssts of Inr i \<Rightarrow> Some i | Inl _ \<Rightarrow> None))"

definition get_level :: "('x::linorder) sst_codec \<Rightarrow> 'x rewriter \<Rightarrow> layout \<Rightarrow> 'x dbkey \<Rightarrow> nat \<times> 'x sst_reader list
    \<Rightarrow> ('x cache, 'x dbvalue option option) act" where
  "get_level cd rw lay key lf =
     (let (level, ssts) = lf
      in if level = 0 \<or> ssts = [] then act_ret None
         else act_bind (act_result (find_in_level key ssts)) (\<lambda>i. case i of
                Some idx \<Rightarrow> get_file cd rw lay key (ssts ! idx)
              | None \<Rightarrow> act_ret None))"

definition eng_get :: "('x::linorder) sst_codec \<Rightarrow> 'x rewriter \<Rightarrow> ('x, 'z) engine_scheme \<Rightarrow> 'x dbkey
    \<Rightarrow> ('x cache, 'x dbvalue option) act" where
  "eng_get cd rw e key =
     (case mem_search key (mems e) of
        Some res \<Rightarrow> act_ret res
      | None \<Rightarrow>
          act_bind (act_first (get_file cd rw (e_layout e) key) (level_files 0 (e_sstables e))) (\<lambda>hit. case hit of
            Some v \<Rightarrow> act_ret v
          | None \<Rightarrow>
              act_bind (act_first (get_level cd rw (e_layout e) key) (e_sstables e)) (\<lambda>hit. case hit of
                Some v \<Rightarrow> act_ret v
              | None \<Rightarrow> act_ret None)))"

section \<open>Batched lookup\<close>

definition swap_remove :: "nat \<Rightarrow> 'a list \<Rightarrow> 'a list" where
  "swap_remove i xs = (if Suc i = length xs then butlast xs else butlast (xs[i := last xs]))"

lemma length_swap_remove [simp]: "length (swap_remove i xs) = length xs - 1"
  by (simp add: swap_remove_def)

function mg_loop :: "('k \<Rightarrow> ('s, 'v option option) act) \<Rightarrow> 'k list \<Rightarrow> nat \<Rightarrow> nat list \<Rightarrow> 'v option list
    \<Rightarrow> ('s, nat list \<times> 'v option list) act" where
  "mg_loop f keys i remaining results =
     (if i < length remaining
      then let idx = remaining ! i
           in act_bind (f (keys ! idx)) (\<lambda>r. case r of
                Some res \<Rightarrow> mg_loop f keys i (swap_remove i remaining) (results[idx := res])
              | None \<Rightarrow> mg_loop f keys (i + 1) remaining results)
      else act_ret (remaining, results))"
  by pat_completeness auto
termination
  by (relation "measure (\<lambda>(f, keys, i, remaining, results). length remaining - i)") auto

declare mg_loop.simps [simp del]

fun mg_passes :: "('k \<Rightarrow> ('s, 'v option option) act) list \<Rightarrow> 'k list \<Rightarrow> nat list \<times> 'v option list
    \<Rightarrow> ('s, nat list \<times> 'v option list) act" where
  "mg_passes [] keys st = act_ret st"
| "mg_passes (f # fs) keys st =
     (if fst st = [] then act_ret st
      else act_bind (mg_loop f keys 0 (fst st) (snd st)) (mg_passes fs keys))"

definition multi_get :: "('x::linorder) sst_codec \<Rightarrow> 'x rewriter \<Rightarrow> ('x, 'z) engine_scheme \<Rightarrow> 'x dbkey list
    \<Rightarrow> ('x cache, 'x dbvalue option list) act" where
  "multi_get cd rw e keys =
     act_bind (mg_passes (map (\<lambda>m key. act_ret (mem_get m key)) (mems e)) keys
                 ([0..<length keys], replicate (length keys) None)) (\<lambda>st.
       if fst st = [] then act_ret (snd st)
       else act_bind (mg_passes (map (\<lambda>r key. get_file cd rw (e_layout e) key r) (level_files 0 (e_sstables e))) keys st) (\<lambda>st.
            act_bind (mg_passes (map (\<lambda>lf key. get_level cd rw (e_layout e) key lf) (e_sstables e)) keys st) (\<lambda>st.
              act_ret (snd st))))"

section \<open>Range scans\<close>

fun merge_sorted_mem_vectors :: "('x::linorder) entry list \<Rightarrow> 'x entry list \<Rightarrow> 'x entry list" where
  "merge_sorted_mem_vectors (n # ns) (o' # os) =
     (case cmp (fst n) (fst o') of
        Less \<Rightarrow> n # merge_sorted_mem_vectors ns (o' # os)
      | Greater \<Rightarrow> o' # merge_sorted_mem_vectors (n # ns) os
      | Equal \<Rightarrow> n # merge_sorted_mem_vectors ns os)"
| "merge_sorted_mem_vectors ns [] = ns"
| "merge_sorted_mem_vectors [] os = os"

text \<open>\<open>None\<close> is the panic of \<open>BTreeMap::range\<close> on an inverted range.\<close>

definition snapshot_mem_range :: "('x::linorder) dbkey \<Rightarrow> 'x dbkey \<Rightarrow> ('x, 'z) engine_scheme \<Rightarrow> 'x entry list option" where
  "snapshot_mem_range start end e =
     (if e_immutable e = [] then mem_scan_range_raw start end (e_active e)
      else case mem_scan_range_raw start end (e_active e) of
             None \<Rightarrow> None
           | Some active_entries \<Rightarrow>
               (case all_some (map (\<lambda>imm. mem_scan_range_raw start end (imm_table imm)) (e_immutable e)) of
                  None \<Rightarrow> None
                | Some imm_entries \<Rightarrow> Some (foldl merge_sorted_mem_vectors active_entries imm_entries)))"

definition scan_l0_file :: "('x::linorder) sst_codec \<Rightarrow> 'x dbkey \<Rightarrow> 'x dbkey \<Rightarrow> 'x block_iter list \<times> nat \<Rightarrow> 'x sst_reader
    \<Rightarrow> ('x cache, 'x block_iter list \<times> nat) act" where
  "scan_l0_file cd start end st r =
     (let (its, prio) = st
      in case sst_first_key r of
           Some fk \<Rightarrow>
             if fk \<le> end \<and> start \<le> r_last_key r
             then act_bind (bi_new_with_end cd r (Some start) (Some end) prio) (\<lambda>it. act_ret (its @ [it], prio + 1))
             else act_ret (its, prio + 1)
         | None \<Rightarrow> act_ret (its, prio + 1))"

fun scan_level_files :: "('x::linorder) sst_codec \<Rightarrow> 'x dbkey \<Rightarrow> 'x dbkey \<Rightarrow> 'x sst_reader list \<Rightarrow> 'x block_iter list \<times> nat
    \<Rightarrow> ('x cache, 'x block_iter list \<times> nat) act" where
  "scan_level_files cd start end [] st = act_ret st"
| "scan_level_files cd start end (r # rs) st =
     (case sst_first_key r of
        None \<Rightarrow> act_fail empty_index
      | Some fk \<Rightarrow>
          if end < fk then act_ret st
          else act_bind (bi_new_with_end cd r (Some start) (Some end) (snd st))
                 (\<lambda>it. scan_level_files cd start end rs (fst st @ [it], snd st + 1)))"

definition scan_level :: "('x::linorder) sst_codec \<Rightarrow> 'x dbkey \<Rightarrow> 'x dbkey \<Rightarrow> 'x block_iter list \<times> nat \<Rightarrow> nat \<times> 'x sst_reader list
    \<Rightarrow> ('x cache, 'x block_iter list \<times> nat) act" where
  "scan_level cd start end st lf =
     (let (level, ssts) = lf
      in if level = 0 then act_ret st
         else scan_level_files cd start end (drop (partition_point (\<lambda>r. r_last_key r < start) ssts) ssts) st)"

definition eng_scan_iter :: "('x::linorder) sst_codec \<Rightarrow> ('x, 'z) engine_scheme \<Rightarrow> 'x dbkey \<Rightarrow> 'x dbkey
    \<Rightarrow> ('x cache, 'x scan_iter) act" where
  "eng_scan_iter cd e start end =
     (case snapshot_mem_range start end e of
        None \<Rightarrow> act_panic
      | Some entries \<Rightarrow>
          act_bind (act_fold (scan_l0_file cd start end) ([], 0) (level_files 0 (e_sstables e))) (\<lambda>st.
          act_bind (act_fold (scan_level cd start end) st (e_sstables e)) (\<lambda>st.
          act_ret (scan_new entries (fst st) end (e_layout e)))))"

section \<open>Filtered scan\<close>

type_synonym 'x fs_state = "'x dbkey set \<times> ('x dbkey \<times> 'x dbvalue) list"

definition fs_mem_entry :: "('x dbkey \<Rightarrow> 'x dbvalue \<Rightarrow> bool) \<Rightarrow> ('x::linorder) fs_state \<Rightarrow> 'x entry \<Rightarrow> 'x fs_state" where
  "fs_mem_entry flt st kv =
     (let (seen, results) = st; (k, v) = kv
      in if k \<in> seen then st
         else (insert k seen, case v of Some val \<Rightarrow> if flt k val then bt_insert k val results else results | None \<Rightarrow> results))"

fun fs_mems :: "('x dbkey \<Rightarrow> 'x dbvalue \<Rightarrow> bool) \<Rightarrow> 'x dbkey \<Rightarrow> 'x dbkey \<Rightarrow> ('x::linorder) memtable list \<Rightarrow> 'x fs_state
    \<Rightarrow> 'x fs_state option" where
  "fs_mems flt start end [] st = Some st"
| "fs_mems flt start end (m # ms) st =
     (case mem_scan_range_raw start end m of
        None \<Rightarrow> None
      | Some es \<Rightarrow> fs_mems flt start end ms (foldl (fs_mem_entry flt) st es))"

definition fs_sst_entry :: "'x rewriter \<Rightarrow> layout \<Rightarrow> ('x dbkey \<Rightarrow> 'x dbvalue \<Rightarrow> bool) \<Rightarrow> ('x::linorder) sst_reader \<Rightarrow> 'x fs_state
    \<Rightarrow> 'x entry \<Rightarrow> ('s, 'x fs_state) act" where
  "fs_sst_entry rw lay flt r st kv =
     (let (seen, results) = st; (k, v) = kv
      in if k \<in> seen then act_ret st
         else case v of
                None \<Rightarrow> act_ret (insert k seen, results)
              | Some val \<Rightarrow>
                  act_bind (act_result (rewrite_from rw (r_layout r) lay val)) (\<lambda>val.
                    act_ret (insert k seen, if flt k val then bt_insert k val results else results)))"

definition fs_file :: "('x::linorder) sst_codec \<Rightarrow> 'x rewriter \<Rightarrow> layout \<Rightarrow> ('x dbkey \<Rightarrow> 'x dbvalue \<Rightarrow> bool)
    \<Rightarrow> 'x dbkey \<Rightarrow> 'x dbkey \<Rightarrow> 'x fs_state \<Rightarrow> 'x sst_reader \<Rightarrow> ('x cache, 'x fs_state) act" where
  "fs_file cd rw lay flt start end st r =
     act_bind (sst_scan_raw cd r start end) (\<lambda>es. act_fold (fs_sst_entry rw lay flt r) st es)"

fun fs_level_files :: "('x::linorder) sst_codec \<Rightarrow> 'x rewriter \<Rightarrow> layout \<Rightarrow> ('x dbkey \<Rightarrow> 'x dbvalue \<Rightarrow> bool)
    \<Rightarrow> 'x dbkey \<Rightarrow> 'x dbkey \<Rightarrow> 'x sst_reader list \<Rightarrow> 'x fs_state \<Rightarrow> ('x cache, 'x fs_state) act" where
  "fs_level_files cd rw lay flt start end [] st = act_ret st"
| "fs_level_files cd rw lay flt start end (r # rs) st =
     (case sst_first_key r of
        None \<Rightarrow> act_fail empty_index
      | Some fk \<Rightarrow>
          if end < fk then act_ret st
          else act_bind (fs_file cd rw lay flt start end st r) (fs_level_files cd rw lay flt start end rs))"

definition fs_level :: "('x::linorder) sst_codec \<Rightarrow> 'x rewriter \<Rightarrow> layout \<Rightarrow> ('x dbkey \<Rightarrow> 'x dbvalue \<Rightarrow> bool)
    \<Rightarrow> 'x dbkey \<Rightarrow> 'x dbkey \<Rightarrow> 'x fs_state \<Rightarrow> nat \<times> 'x sst_reader list \<Rightarrow> ('x cache, 'x fs_state) act" where
  "fs_level cd rw lay flt start end st lf =
     (let (level, ssts) = lf
      in if level = 0 then act_ret st
         else fs_level_files cd rw lay flt start end (drop (partition_point (\<lambda>r. r_last_key r < start) ssts) ssts) st)"

definition filtered_scan :: "('x::linorder) sst_codec \<Rightarrow> 'x rewriter \<Rightarrow> ('x, 'z) engine_scheme \<Rightarrow> 'x dbkey \<Rightarrow> 'x dbkey
    \<Rightarrow> ('x dbkey \<Rightarrow> 'x dbvalue \<Rightarrow> bool) \<Rightarrow> ('x cache, ('x dbkey \<times> 'x dbvalue) list) act" where
  "filtered_scan cd rw e start end flt =
     (case fs_mems flt start end (mems e) ({}, []) of
        None \<Rightarrow> act_panic
      | Some st \<Rightarrow>
          act_bind (act_fold (fs_file cd rw (e_layout e) flt start end) st (level_files 0 (e_sstables e))) (\<lambda>st.
          act_bind (act_fold (fs_level cd rw (e_layout e) flt start end) st (e_sstables e)) (\<lambda>st.
          act_ret (snd st))))"

section \<open>Statistics\<close>

record storage_engine_statistics =
  num_sstables :: nat
  total_sstable_size :: u64
  sstable_entries :: u64
  sstable_tombstones :: u64
  sstable_uncompressed_bytes :: u64
  memtable_entries :: nat
  memtable_tombstones :: nat
  memtable_uncompressed_bytes :: nat

definition get_statistics :: "('x, 'z) engine_scheme \<Rightarrow> storage_engine_statistics" where
  "get_statistics e =
     (let ssts = concat (map snd (e_sstables e))
      in \<lparr>num_sstables = length ssts,
          total_sstable_size = sum_list (map (\<lambda>r. of_nat (r_file_size r)) ssts),
          sstable_entries = sum_list (map (\<lambda>r. of_nat (st_entries (r_stats r))) ssts),
          sstable_tombstones = sum_list (map (\<lambda>r. of_nat (st_tombstones (r_stats r))) ssts),
          sstable_uncompressed_bytes = sum_list (map (\<lambda>r. of_nat (st_bytes (r_stats r))) ssts),
          memtable_entries = sum_list (map (\<lambda>m. fst (mem_entry_counts m)) (mems e)),
          memtable_tombstones = sum_list (map (\<lambda>m. snd (mem_entry_counts m)) (mems e)),
          memtable_uncompressed_bytes = sum_list (map mem_byte_size (mems e))\<rparr>)"

section \<open>The abstract contents\<close>

text \<open>
  \<open>C\<close> gives the blocks each file holds and \<open>f\<close> the rewriting of values between layouts. The stack of an
  engine has the memtables, then the files of level 0, then those of the deeper levels.
\<close>

definition file_entries :: "('x sst_reader \<Rightarrow> 'x entry list list) \<Rightarrow> layout \<Rightarrow> (layout \<Rightarrow> 'x dbvalue \<Rightarrow> 'x dbvalue)
    \<Rightarrow> 'x sst_reader \<Rightarrow> 'x entry list" where
  "file_entries C lay f r = map (migrated lay f r) (concat (C r))"

definition deep_files :: "'x levels \<Rightarrow> 'x sst_reader list" where
  "deep_files lv = concat (map (\<lambda>(n, fs). if n = 0 then [] else fs) lv)"

definition stack_files :: "'x levels \<Rightarrow> 'x sst_reader list" where
  "stack_files lv = level_files 0 lv @ deep_files lv"

definition db_stack :: "('x sst_reader \<Rightarrow> 'x entry list list) \<Rightarrow> (layout \<Rightarrow> 'x dbvalue \<Rightarrow> 'x dbvalue) \<Rightarrow> ('x, 'z) engine_scheme
    \<Rightarrow> 'x entry list list" where
  "db_stack C f e = map mt_map (mems e) @ map (file_entries C (e_layout e) f) (stack_files (e_sstables e))"

definition db_lookup :: "('x sst_reader \<Rightarrow> 'x entry list list) \<Rightarrow> (layout \<Rightarrow> 'x dbvalue \<Rightarrow> 'x dbvalue) \<Rightarrow> ('x, 'z) engine_scheme
    \<Rightarrow> 'x dbkey \<Rightarrow> 'x dbvalue option" where
  "db_lookup C f e k = Option.bind (newest (db_stack C f e) k) (\<lambda>v. v)"

text \<open>The files of a deep level: none is empty, and they are disjoint and in key order.\<close>

definition file_lo :: "('x sst_reader \<Rightarrow> 'x entry list list) \<Rightarrow> 'x sst_reader \<Rightarrow> 'x dbkey" where
  "file_lo C r = fst (hd (concat (C r)))"

definition deep_ok :: "(('x::linorder) sst_reader \<Rightarrow> 'x entry list list) \<Rightarrow> 'x sst_reader list \<Rightarrow> bool" where
  "deep_ok C fs \<longleftrightarrow> (\<forall>r \<in> set fs. C r \<noteq> []) \<and> sorted_wrt (\<lambda>a b. r_last_key a < file_lo C b) fs"

definition files_ok :: "('x::linorder) sst_codec \<Rightarrow> (u64 \<rightharpoonup> 'x sst_reader) \<Rightarrow> ('x sst_reader \<Rightarrow> 'x entry list list) \<Rightarrow> 'x levels \<Rightarrow> bool" where
  "files_ok cd U C lv \<longleftrightarrow>
     ksorted lv \<and> (\<forall>lf \<in> set lv. \<forall>r \<in> set (snd lf). reader_ok cd r (C r) \<and> U (r_id r) = Some r)
   \<and> (\<forall>lf \<in> set lv. fst lf \<noteq> 0 \<longrightarrow> deep_ok C (snd lf))"

definition read_inv :: "('x::linorder) sst_codec \<Rightarrow> (u64 \<rightharpoonup> 'x sst_reader) \<Rightarrow> ('x sst_reader \<Rightarrow> 'x entry list list)
    \<Rightarrow> ('x, 'z) engine_scheme \<Rightarrow> bool" where
  "read_inv cd U C e \<longleftrightarrow> (\<forall>m \<in> set (mems e). mem_inv m) \<and> files_ok cd U C (e_sstables e)"

definition rw_total :: "'x rewriter \<Rightarrow> (layout \<Rightarrow> 'x dbvalue \<Rightarrow> 'x dbvalue) \<Rightarrow> layout \<Rightarrow> bool" where
  "rw_total rw f lay \<longleftrightarrow> (\<forall>l v. l \<noteq> lay \<longrightarrow> rw l lay v = Inr (f l v))"

section \<open>Point lookups\<close>

fun first_some :: "'a option list \<Rightarrow> 'a option" where
  "first_some [] = None"
| "first_some (x # xs) = (case x of Some y \<Rightarrow> Some y | None \<Rightarrow> first_some xs)"

lemma newest_first_some: "newest ls k = first_some (map (\<lambda>l. map_of l k) ls)"
  by (induction ls) (auto split: option.split)

lemma newest_single:
  assumes "i < length ls" "\<forall>j < length ls. j \<noteq> i \<longrightarrow> map_of (ls ! j) k = None"
  shows "newest ls k = map_of (ls ! i) k"
proof (cases "map_of (ls ! i) k")
  case None
  then have "\<forall>j < length ls. map_of (ls ! j) k = None" using assms(2) by metis
  then show ?thesis using None by (auto simp: newest_None in_set_conv_nth)
next
  case (Some v)
  then show ?thesis using assms by (auto simp: newest_hit intro!: exI [of _ i])
qed

lemma first_some_append: "first_some (xs @ ys) = (case first_some xs of Some y \<Rightarrow> Some y | None \<Rightarrow> first_some ys)"
  by (induction xs) (auto split: option.split)

lemma mem_search_newest: "mem_search key ms = newest (map mt_map ms) key"
  by (induction ms) (auto simp: mem_get_def split: option.split)

lemma act_first_yields:
  assumes "\<And>x. x \<in> set xs \<Longrightarrow> yields R (f x) (Inr (g x))"
  shows "yields R (act_first f xs) (Inr (first_some (map g xs)))"
  using assms
proof (induction xs)
  case (Cons x xs)
  have "yields R (f x) (Inr (g x))" using Cons.prems by simp
  then show ?case
  proof (cases "g x")
    case None
    then show ?thesis using Cons.IH Cons.prems by (auto intro!: yields_bind [OF \<open>yields R (f x) (Inr (g x))\<close>])
  next
    case (Some y)
    then show ?thesis by (auto intro!: yields_bind [OF \<open>yields R (f x) (Inr (g x))\<close>] yields_ret)
  qed
qed (simp add: yields_ret)

lemma resolve_yields:
  assumes "rw_total rw f lay"
  shows "yields R (resolve rw lay r s) (Inr (map_option (\<lambda>v. if r_layout r \<noteq> lay then f (r_layout r) v else v) s))"
proof (cases s)
  case (Some v)
  have "rewrite_from rw (r_layout r) lay v = Inr (if r_layout r \<noteq> lay then f (r_layout r) v else v)"
    using assms by (simp add: rewrite_from_def rw_total_def)
  then show ?thesis unfolding resolve_def Some by (auto intro!: yields_bind [OF yields_result] yields_ret)
qed (simp add: resolve_def yields_ret)

lemma get_file_yields:
  assumes "reader_ok cd r (C r)" "U (r_id r) = Some r" "rw_total rw f lay"
  shows "yields (coherent cd U) (get_file cd rw lay k r) (Inr (map_of (file_entries C lay f r) k))"
proof (cases "map_of (concat (C r)) k")
  case None
  then show ?thesis
    unfolding get_file_def file_entries_def map_of_migrated
    using sst_get_yields [where U = U, OF assms(1,2), of k] by (auto intro!: yields_bind yields_ret)
next
  case (Some s)
  have g: "yields (coherent cd U) (sst_get cd r k) (Inr (Some s))"
    using sst_get_yields [where U = U, OF assms(1,2), of k] Some by simp
  show ?thesis
    unfolding get_file_def file_entries_def map_of_migrated Some
    by (rule yields_bind [OF g]) (simp add: yields_bind_ret [OF resolve_yields [OF assms(3)]])
qed

lemma ksorted_hd: "ksorted xs \<Longrightarrow> e \<in> set xs \<Longrightarrow> fst (hd xs) \<le> fst e"
  by (cases xs) (auto simp: less_imp_le)

lemma ksorted_last: "ksorted xs \<Longrightarrow> e \<in> set xs \<Longrightarrow> fst e \<le> fst (last xs)"
  by (induction xs rule: rev_induct) (auto simp: sorted_wrt_append intro: less_imp_le)

lemma reader_bounds:
  assumes "reader_ok cd r bs" "bs \<noteq> []"
  shows "sst_first_key r = Some (fst (hd (concat bs)))" "concat bs \<noteq> []"
    "\<forall>e \<in> set (concat bs). fst (hd (concat bs)) \<le> fst e \<and> fst e \<le> r_last_key r"
    "fst (hd (concat bs)) \<le> r_last_key r"
proof -
  note D = reader_okD [OF assms(1)]
  obtain b bs' where bs: "bs = b # bs'" using assms(2) by (cases bs) auto
  have b: "b \<noteq> []" using D(2) bs by simp
  then show ne: "concat bs \<noteq> []" by (simp add: bs)
  have "first_key (r_index r ! 0) = fst (hd b)" using D(5) [of 0] bs by simp
  moreover obtain i ix where "r_index r = i # ix" using D(1) bs by (cases "r_index r") auto
  ultimately show "sst_first_key r = Some (fst (hd (concat bs)))" using b by (simp add: sst_first_key_def bs)
  have last: "r_last_key r = fst (last (concat bs))" using assms by (simp add: reader_ok_def)
  let ?es = "concat bs"
  have s: "ksorted ?es" by (rule D(3))
  show bounds: "\<forall>e \<in> set ?es. fst (hd ?es) \<le> fst e \<and> fst e \<le> r_last_key r"
    using ksorted_hd [OF s] ksorted_last [OF s] last by simp
  show "fst (hd ?es) \<le> r_last_key r" using bspec [OF bounds hd_in_set [OF ne]] by simp
qed

lemma map_of_file_outside:
  assumes "reader_ok cd r (C r)" "C r \<noteq> []" "k < file_lo C r \<or> r_last_key r < k"
  shows "map_of (file_entries C lay f r) k = None"
proof -
  have "map_of (concat (C r)) k \<noteq> Some v" for v
  proof
    assume "map_of (concat (C r)) k = Some v"
    then have "(k, v) \<in> set (concat (C r))" by (rule map_of_SomeD)
    from bspec [OF reader_bounds(3) [OF assms(1,2)] this] show False using assms(3) by (auto simp: file_lo_def)
  qed
  then have "map_of (concat (C r)) k = None" by (cases "map_of (concat (C r)) k") auto
  then show ?thesis by (simp add: file_entries_def map_of_migrated)
qed

lemma bs_probes_subset:
  "0 < sz \<Longrightarrow> base + sz \<le> length xs \<Longrightarrow> set (bs_probes f xs base sz) \<subseteq> set xs"
proof (induction f xs base sz rule: bs_probes.induct)
  case (1 f xs base sz)
  show ?case
  proof (cases "sz \<le> 1")
    case True
    then show ?thesis using 1 by (subst bs_probes.simps) simp
  next
    case False
    let ?b = "if f (xs ! (base + sz div 2)) = Greater then base else base + sz div 2"
    have "set (bs_probes f xs ?b (sz - sz div 2)) \<subseteq> set xs" using 1 False by (intro 1(1)) auto
    moreover have "xs ! (base + sz div 2) \<in> set xs" using 1 False by (intro nth_mem) linarith
    ultimately show ?thesis using False by (subst bs_probes.simps) simp
  qed
qed

lemma level_cmp_sorted:
  assumes "deep_ok C fs" "\<forall>r \<in> set fs. reader_ok cd r (C r)"
  shows "bs_sorted (level_cmp key) fs"
proof -
  have B: "sst_first_key r = Some (file_lo C r) \<and> file_lo C r \<le> r_last_key r" if "r \<in> set fs" for r
    using reader_bounds(1,4) [of cd r "C r"] that assms by (auto simp: deep_ok_def file_lo_def)
  have "sorted_wrt (\<lambda>a b. r_last_key a < file_lo C b) fs" using assms(1) by (simp add: deep_ok_def)
  then show ?thesis unfolding bs_sorted_def
    by (rule sorted_wrt_mono_rel [rotated]) (auto simp: level_cmp_def dest!: B split: if_splits)
qed

lemma get_level_yields:
  assumes ok: "fst lf \<noteq> 0 \<longrightarrow> deep_ok C (snd lf)" and r: "\<forall>r \<in> set (snd lf). reader_ok cd r (C r) \<and> U (r_id r) = Some r"
    and rw: "rw_total rw f lay"
  shows "yields (coherent cd U) (get_level cd rw lay k lf)
    (Inr (newest (map (file_entries C lay f) (if fst lf = 0 then [] else snd lf)) k))"
proof -
  obtain n fs where lf: "lf = (n, fs)" by (cases lf)
  show ?thesis
  proof (cases "n = 0 \<or> fs = []")
    case True
    then show ?thesis by (auto simp: get_level_def lf yields_ret)
  next
    case False
    then have d: "deep_ok C fs" and rs: "\<forall>r \<in> set fs. reader_ok cd r (C r)" using ok r by (auto simp: lf)
    note s = level_cmp_sorted [OF d rs, of k]
    have fk: "sst_first_key x = Some (file_lo C x)" if "x \<in> set fs" for x
      using reader_bounds(1) [of cd x "C x"] that d rs by (auto simp: deep_ok_def file_lo_def)
    have "\<not> list_ex (\<lambda>r. sst_first_key r = None) (bs_probes (level_cmp k) fs 0 (length fs))"
      using bs_probes_subset [of "length fs" 0 fs "level_cmp k"] False fk by (fastforce simp: list_ex_iff)
    then have find: "find_in_level k fs = Inr (case binary_search_by (level_cmp k) fs of Inr i \<Rightarrow> Some i | Inl _ \<Rightarrow> None)"
      by (simp add: find_in_level_def)
    have out: "map_of (file_entries C lay f (fs ! j)) k = None" if "j < length fs" "level_cmp k (fs ! j) \<noteq> Equal" for j
      using map_of_file_outside [of cd "fs ! j" C k lay f] that d rs fk [OF nth_mem [OF that(1)]]
      by (auto simp: deep_ok_def level_cmp_def split: if_splits)
    show ?thesis
    proof (cases "binary_search_by (level_cmp k) fs")
      case (Inl i)
      note B = binary_search_by_Inl [OF s Inl]
      have "level_cmp k (fs ! j) \<noteq> Equal" if "j < length fs" for j
        using B that by (metis linorder_not_less ordering.distinct(1,5))
      then have "newest (map (file_entries C lay f) fs) k = None" using out by (auto simp: newest_None in_set_conv_nth)
      moreover have "yields (coherent cd U) (get_level cd rw lay k (n, fs)) (Inr None)"
        unfolding get_level_def using False find Inl
        by (auto intro!: yields_bind [OF yields_result] yields_ret)
      ultimately show ?thesis using False by (simp add: lf)
    next
      case (Inr i)
      have i: "i < length fs" "level_cmp k (fs ! i) = Equal" using binary_search_by_Inr [OF s Inr] by auto
      have "level_cmp k (fs ! j) \<noteq> Equal" if "j < length fs" "j \<noteq> i" for j
      proof -
        have k: "file_lo C (fs ! i) \<le> k" "k \<le> r_last_key (fs ! i)"
          using i(2) fk [OF nth_mem [OF i(1)]] by (auto simp: level_cmp_def split: if_splits)
        have "r_last_key (fs ! j) < file_lo C (fs ! i) \<or> r_last_key (fs ! i) < file_lo C (fs ! j)"
          using d that i(1) by (cases "j < i") (auto simp: deep_ok_def sorted_wrt_iff_nth_less)
        then show ?thesis using k fk [OF nth_mem [OF that(1)]] by (auto simp: level_cmp_def)
      qed
      then have "newest (map (file_entries C lay f) fs) k = map_of (file_entries C lay f (fs ! i)) k"
        using newest_single [of i "map (file_entries C lay f) fs" k] out i(1) by simp
      moreover have "yields (coherent cd U) (get_level cd rw lay k (n, fs)) (Inr (map_of (file_entries C lay f (fs ! i)) k))"
        unfolding get_level_def using False find Inr get_file_yields [of cd "fs ! i" C U rw f lay k] r rw i(1)
        by (auto simp: lf intro!: yields_bind [OF yields_result])
      ultimately show ?thesis using False by (simp add: lf)
    qed
  qed
qed

lemma newest_deep_files:
  "newest (map F (deep_files lv)) k = first_some (map (\<lambda>lf. newest (map F (if fst lf = 0 then [] else snd lf)) k) lv)"
  by (induction lv) (auto simp: deep_files_def newest_append split: option.split)

lemma files_okD:
  assumes "files_ok cd U C lv"
  shows "r \<in> set (level_files n lv) \<Longrightarrow> reader_ok cd r (C r) \<and> U (r_id r) = Some r"
    "lf \<in> set lv \<Longrightarrow> (fst lf \<noteq> 0 \<longrightarrow> deep_ok C (snd lf)) \<and> (\<forall>r \<in> set (snd lf). reader_ok cd r (C r) \<and> U (r_id r) = Some r)"
    "r \<in> set (deep_files lv) \<Longrightarrow> reader_ok cd r (C r) \<and> U (r_id r) = Some r"
proof -
  show "reader_ok cd r (C r) \<and> U (r_id r) = Some r" if r: "r \<in> set (level_files n lv)"
  proof -
    obtain fs where "map_of lv n = Some fs" "r \<in> set fs" using r by (cases "map_of lv n") (auto simp: level_files_def)
    then have "(n, fs) \<in> set lv" "r \<in> set (snd (n, fs))" using map_of_SomeD by force+
    then show ?thesis using assms unfolding files_ok_def by blast
  qed
  show "lf \<in> set lv \<Longrightarrow> (fst lf \<noteq> 0 \<longrightarrow> deep_ok C (snd lf)) \<and> (\<forall>r \<in> set (snd lf). reader_ok cd r (C r) \<and> U (r_id r) = Some r)"
    using assms by (auto simp: files_ok_def)
  show "r \<in> set (deep_files lv) \<Longrightarrow> reader_ok cd r (C r) \<and> U (r_id r) = Some r"
    using assms by (auto simp: files_ok_def deep_files_def split: if_splits)
qed

lemma get_files_yields:
  assumes "files_ok cd U C lv" "rw_total rw f lay"
  shows "yields (coherent cd U) (act_first (get_file cd rw lay k) (level_files 0 lv)) (Inr (newest (map (file_entries C lay f) (level_files 0 lv)) k))"
    "yields (coherent cd U) (act_first (get_level cd rw lay k) lv) (Inr (newest (map (file_entries C lay f) (deep_files lv)) k))"
proof -
  have "yields (coherent cd U) (get_file cd rw lay k r) (Inr (map_of (file_entries C lay f r) k))" if "r \<in> set (level_files 0 lv)" for r
    using get_file_yields [where U = U] files_okD(1) [OF assms(1) that] assms(2) by blast
  from act_first_yields [OF this]
  show "yields (coherent cd U) (act_first (get_file cd rw lay k) (level_files 0 lv)) (Inr (newest (map (file_entries C lay f) (level_files 0 lv)) k))"
    by (simp add: newest_first_some comp_def)
  have "yields (coherent cd U) (get_level cd rw lay k lf) (Inr (newest (map (file_entries C lay f) (if fst lf = 0 then [] else snd lf)) k))"
    if "lf \<in> set lv" for lf
    using get_level_yields [where U = U] files_okD(2) [OF assms(1) that] assms(2) by blast
  from act_first_yields [OF this]
  show "yields (coherent cd U) (act_first (get_level cd rw lay k) lv) (Inr (newest (map (file_entries C lay f) (deep_files lv)) k))"
    by (simp add: newest_deep_files)
qed

lemma eng_get_yields:
  assumes "read_inv cd U C e" "rw_total rw f (e_layout e)"
  shows "yields (coherent cd U) (eng_get cd rw e k) (Inr (db_lookup C f e k))"
proof -
  let ?F = "file_entries C (e_layout e) f" and ?lv = "e_sstables e"
  have ok: "files_ok cd U C ?lv" using assms(1) by (simp add: read_inv_def)
  note G = get_files_yields [OF ok assms(2), of k]
  have look: "db_lookup C f e k = (case newest (map mt_map (mems e)) k of Some v \<Rightarrow> v | None \<Rightarrow>
      (case newest (map ?F (level_files 0 ?lv)) k of Some v \<Rightarrow> v | None \<Rightarrow>
        (case newest (map ?F (deep_files ?lv)) k of Some v \<Rightarrow> v | None \<Rightarrow> None)))"
    by (simp add: db_lookup_def db_stack_def stack_files_def newest_append split: option.split)
  show ?thesis
  proof (cases "newest (map mt_map (mems e)) k")
    case (Some v)
    then show ?thesis by (simp add: eng_get_def mem_search_newest look yields_ret)
  next
    case mem: None
    show ?thesis
    proof (cases "newest (map ?F (level_files 0 ?lv)) k")
      case (Some v)
      then show ?thesis using G(1) mem by (auto simp: eng_get_def mem_search_newest look intro!: yields_bind yields_ret)
    next
      case None
      have d: "yields (coherent cd U) (act_bind (act_first (get_level cd rw (e_layout e) k) ?lv) (\<lambda>hit. case hit of
          Some v \<Rightarrow> act_ret v | None \<Rightarrow> act_ret None)) (Inr (db_lookup C f e k))"
        using mem None by (intro yields_bind [OF G(2)]) (auto simp: look intro!: yields_ret split: option.split)
      show ?thesis
        unfolding eng_get_def mem_search_newest mem option.case
        by (rule yields_bind [OF G(1)]) (simp add: None d)
    qed
  qed
qed

section \<open>Batched lookups\<close>

lemma swap_remove_props:
  assumes "i < length xs" "distinct xs"
  shows "set (swap_remove i xs) = set xs - {xs ! i}" "distinct (swap_remove i xs)" "\<forall>j < i. swap_remove i xs ! j = xs ! j"
proof -
  obtain ys x where xs: "xs = ys @ [x]" using assms(1) by (metis append_butlast_last_id length_0_conv not_less_zero)
  have d: "distinct ys" "x \<notin> set ys" using assms(2) xs by auto
  have "set (swap_remove i xs) = set xs - {xs ! i} \<and> distinct (swap_remove i xs) \<and> (\<forall>j < i. swap_remove i xs ! j = xs ! j)"
  proof (cases "i = length ys")
    case True
    then show ?thesis using d by (auto simp: swap_remove_def xs nth_append)
  next
    case False
    then have i: "i < length ys" using assms(1) xs by simp
    have sr: "swap_remove i xs = ys[i := x]" using False i by (simp add: swap_remove_def xs list_update_append butlast_append)
    have "set (ys[i := x]) = insert x (set ys - {ys ! i})" using d(1) i by (simp add: set_update_distinct)
    moreover have "distinct (ys[i := x])" using d by (simp add: distinct_list_update)
    moreover have "ys ! i \<noteq> x" using d(2) i by auto
    ultimately show ?thesis using sr i by (auto simp: xs nth_append)
  qed
  then show "set (swap_remove i xs) = set xs - {xs ! i}" "distinct (swap_remove i xs)" "\<forall>j < i. swap_remove i xs ! j = xs ! j" by auto
qed

text \<open>A pass resolves the keys it has a hit for and keeps the rest.\<close>

definition mg_post :: "('k \<Rightarrow> 'v option option) \<Rightarrow> 'k list \<Rightarrow> nat list \<times> 'v option list \<Rightarrow> nat list \<times> 'v option list \<Rightarrow> bool" where
  "mg_post g keys st st' \<longleftrightarrow>
     distinct (fst st') \<and> set (fst st') = {j \<in> set (fst st). g (keys ! j) = None} \<and> length (snd st') = length (snd st)
   \<and> (\<forall>j < length keys. snd st' ! j =
        (if j \<in> set (fst st) then case g (keys ! j) of Some v \<Rightarrow> v | None \<Rightarrow> snd st ! j else snd st ! j))"

definition mg_ok :: "'k list \<Rightarrow> nat list \<times> 'v option list \<Rightarrow> bool" where
  "mg_ok keys st \<longleftrightarrow> distinct (fst st) \<and> (\<forall>j \<in> set (fst st). j < length keys) \<and> length (snd st) = length keys"

lemma mg_post_ok: "mg_ok keys st \<Longrightarrow> mg_post g keys st st' \<Longrightarrow> mg_ok keys st'"
  by (auto simp: mg_ok_def mg_post_def)

lemma mg_loop_yields:
  assumes f: "\<And>k. k \<in> set keys \<Longrightarrow> yields R (f k) (Inr (g k))"
    and "mg_ok keys (remaining, results)" "i \<le> length remaining" "\<forall>j < i. g (keys ! (remaining ! j)) = None"
  shows "\<exists>st'. yields R (mg_loop f keys i remaining results) (Inr st') \<and> mg_post g keys (remaining, results) st'"
  using assms(2-)
proof (induction "length remaining - i" arbitrary: i remaining results rule: less_induct)
  case less
  show ?case
  proof (cases "i < length remaining")
    case False
    then have "i = length remaining" using less.prems(2) by simp
    then have "\<forall>j \<in> set remaining. g (keys ! j) = None" using less.prems(3) by (auto simp: in_set_conv_nth)
    then have "mg_post g keys (remaining, results) (remaining, results)" using less.prems(1) by (auto simp: mg_post_def mg_ok_def)
    then show ?thesis using False by (subst mg_loop.simps) (auto intro!: exI [of _ "(remaining, results)"] yields_ret)
  next
    case True
    let ?idx = "remaining ! i"
    have idx: "?idx \<in> set remaining" "?idx < length keys" using True less.prems(1) by (auto simp: mg_ok_def)
    have y: "yields R (f (keys ! ?idx)) (Inr (g (keys ! ?idx)))" using f idx(2) by simp
    show ?thesis
    proof (cases "g (keys ! ?idx)")
      case None
      have "\<forall>j < i + 1. g (keys ! (remaining ! j)) = None" using less.prems(3) None by (simp add: less_Suc_eq)
      then obtain st' where st': "yields R (mg_loop f keys (i + 1) remaining results) (Inr st')" "mg_post g keys (remaining, results) st'"
        using less.hyps [of remaining "i + 1" results] less.prems(1) True by (auto simp: diff_less_mono2)
      have "yields R (mg_loop f keys i remaining results) (Inr st')"
        using True by (subst mg_loop.simps) (simp add: Let_def, rule yields_bind [OF y], use None st'(1) in simp)
      then show ?thesis using st'(2) by blast
    next
      case (Some res)
      let ?rem = "swap_remove i remaining" and ?res = "results[?idx := res]"
      have d: "distinct remaining" using less.prems(1) by (simp add: mg_ok_def)
      note S = swap_remove_props [OF True d]
      have ok: "mg_ok keys (?rem, ?res)" using less.prems(1) S by (auto simp: mg_ok_def)
      moreover have "i \<le> length ?rem" "\<forall>j < i. g (keys ! (?rem ! j)) = None" using True S(3) less.prems(3) by auto
      ultimately obtain st' where st': "yields R (mg_loop f keys i ?rem ?res) (Inr st')" "mg_post g keys (?rem, ?res) st'"
        using less.hyps [of ?rem i ?res] True by (auto simp: diff_less_mono2)
      have "mg_post g keys (remaining, results) st'"
        using st'(2) S(1) Some idx less.prems(1) by (auto simp: mg_post_def mg_ok_def nth_list_update split: option.split)
      moreover have "yields R (mg_loop f keys i remaining results) (Inr st')"
        using True by (subst mg_loop.simps) (simp add: Let_def, rule yields_bind [OF y], use Some st'(1) in simp)
      ultimately show ?thesis by blast
    qed
  qed
qed

lemma mg_passes_yields:
  assumes "list_all2 (\<lambda>f g. \<forall>k \<in> set keys. yields R (f k) (Inr (g k))) fs gs" "mg_ok keys st"
  shows "\<exists>st'. yields R (mg_passes fs keys st) (Inr st') \<and> mg_post (\<lambda>k. first_some (map (\<lambda>g. g k) gs)) keys st st'"
  using assms
proof (induction arbitrary: st rule: list_all2_induct)
  case Nil
  then have "mg_post (\<lambda>k. first_some (map (\<lambda>g. g k) [])) keys st st" by (auto simp: mg_post_def mg_ok_def)
  then show ?case using yields_ret by fastforce
next
  case (Cons f fs g gs)
  obtain rem res where st: "st = (rem, res)" by (cases st)
  show ?case
  proof (cases "rem = []")
    case True
    then have "mg_post (\<lambda>k. first_some (map (\<lambda>g. g k) (g # gs))) keys st st" using Cons.prems by (auto simp: st mg_post_def mg_ok_def)
    then show ?thesis using True yields_ret [of R st] by (intro exI [of _ st]) (simp add: st)
  next
    case False
    obtain st1 where st1: "yields R (mg_loop f keys 0 rem res) (Inr st1)" "mg_post g keys st st1"
      using mg_loop_yields [of keys R f g rem res 0] Cons.hyps(1) Cons.prems by (auto simp: st)
    obtain st2 where st2: "yields R (mg_passes fs keys st1) (Inr st2)" "mg_post (\<lambda>k. first_some (map (\<lambda>g. g k) gs)) keys st1 st2"
      using Cons.IH [OF mg_post_ok [OF Cons.prems st1(2)]] by blast
    have "yields R (mg_passes (f # fs) keys st) (Inr st2)" using False yields_bind [where f = "mg_passes fs keys", OF st1(1) st2(1)] by (simp add: st)
    moreover have "mg_post (\<lambda>k. first_some (map (\<lambda>g. g k) (g # gs))) keys st st2"
      using st1(2) st2(2) Cons.prems by (auto simp: mg_post_def mg_ok_def split: option.splits)
    ultimately show ?thesis by blast
  qed
qed

lemma multi_get_yields:
  assumes "read_inv cd U C e" "rw_total rw f (e_layout e)"
  shows "yields (coherent cd U) (multi_get cd rw e keys) (Inr (map (db_lookup C f e) keys))"
proof -
  let ?F = "file_entries C (e_layout e) f" and ?lv = "e_sstables e" and ?n = "length keys"
  let ?st0 = "([0..<?n], replicate ?n None) :: nat list \<times> 'a dbvalue option list"
  have ok: "files_ok cd U C ?lv" using assms(1) by (simp add: read_inv_def)
  have ok0: "mg_ok keys ?st0" by (auto simp: mg_ok_def)
  define g1 g2 g3 where "g1 = (\<lambda>k. newest (map mt_map (mems e)) k)" and "g2 = (\<lambda>k. newest (map ?F (level_files 0 ?lv)) k)"
    and "g3 = (\<lambda>k. newest (map ?F (deep_files ?lv)) k)"
  have "list_all2 (\<lambda>f g. \<forall>k \<in> set keys. yields (coherent cd U) (f k) (Inr (g k)))
      (map (\<lambda>m key. act_ret (mem_get m key)) (mems e)) (map (\<lambda>m k. map_of (mt_map m) k) (mems e))"
    by (simp add: list_all2_conv_all_nth mem_get_def yields_ret)
  from mg_passes_yields [OF this ok0]
  obtain st1 where st1: "yields (coherent cd U) (mg_passes (map (\<lambda>m key. act_ret (mem_get m key)) (mems e)) keys ?st0) (Inr st1)"
    "mg_post g1 keys ?st0 st1" by (auto simp: g1_def newest_first_some comp_def)
  have "list_all2 (\<lambda>f g. \<forall>k \<in> set keys. yields (coherent cd U) (f k) (Inr (g k)))
      (map (\<lambda>r key. get_file cd rw (e_layout e) key r) (level_files 0 ?lv)) (map (\<lambda>r k. map_of (?F r) k) (level_files 0 ?lv))"
    unfolding list_all2_map1 list_all2_map2 list_all2_same
    using get_file_yields [where U = U and C = C and rw = rw and lay = "e_layout e"] files_okD(1) [OF ok] assms(2) by blast
  from mg_passes_yields [OF this mg_post_ok [OF ok0 st1(2)]]
  obtain st2 where st2: "yields (coherent cd U) (mg_passes (map (\<lambda>r key. get_file cd rw (e_layout e) key r) (level_files 0 ?lv)) keys st1) (Inr st2)"
    "mg_post g2 keys st1 st2" by (auto simp: g2_def newest_first_some comp_def)
  have "list_all2 (\<lambda>f g. \<forall>k \<in> set keys. yields (coherent cd U) (f k) (Inr (g k)))
      (map (\<lambda>lf key. get_level cd rw (e_layout e) key lf) ?lv)
      (map (\<lambda>lf k. newest (map ?F (if fst lf = 0 then [] else snd lf)) k) ?lv)"
    unfolding list_all2_map1 list_all2_map2 list_all2_same
    using get_level_yields [where U = U and C = C and rw = rw and lay = "e_layout e"] files_okD(2) [OF ok] assms(2) by blast
  from mg_passes_yields [OF this mg_post_ok [OF mg_post_ok [OF ok0 st1(2)] st2(2)]]
  obtain st3 where st3: "yields (coherent cd U) (mg_passes (map (\<lambda>lf key. get_level cd rw (e_layout e) key lf) ?lv) keys st2) (Inr st3)"
    "mg_post g3 keys st2 st3" by (auto simp: g3_def newest_deep_files comp_def)
  have look: "db_lookup C f e k = (case g1 k of Some v \<Rightarrow> v | None \<Rightarrow> (case g2 k of Some v \<Rightarrow> v | None \<Rightarrow> (case g3 k of Some v \<Rightarrow> v | None \<Rightarrow> None)))" for k
    by (simp add: g1_def g2_def g3_def db_lookup_def db_stack_def stack_files_def newest_append split: option.split)
  have len: "length (snd st1) = ?n" "length (snd st3) = ?n" using st1(2) st2(2) st3(2) by (simp_all add: mg_post_def)
  have r3: "snd st3 = map (db_lookup C f e) keys"
    using st1(2) st2(2) st3(2) len by (intro nth_equalityI) (auto simp: mg_post_def look split: option.split)
  have r1: "snd st1 = map (db_lookup C f e) keys" if "fst st1 = []"
    using st1(2) len that by (intro nth_equalityI) (auto simp: mg_post_def look split: option.split)
  show ?thesis
    unfolding multi_get_def
  proof (rule yields_bind [OF st1(1)])
    show "yields (coherent cd U) (if fst st1 = [] then act_ret (snd st1)
       else act_bind (mg_passes (map (\<lambda>r key. get_file cd rw (e_layout e) key r) (level_files 0 ?lv)) keys st1) (\<lambda>st.
            act_bind (mg_passes (map (\<lambda>lf key. get_level cd rw (e_layout e) key lf) ?lv) keys st) (\<lambda>st.
              act_ret (snd st)))) (Inr (map (db_lookup C f e) keys))"
    proof (cases "fst st1 = []")
      case True
      then show ?thesis using r1 by (simp add: yields_ret)
    next
      case False
      then show ?thesis
        unfolding if_not_P [OF False] r3 [symmetric]
        by (intro yields_bind [OF st2(1)] yields_bind [OF st3(1)] yields_ret)
    qed
  qed
qed

section \<open>Range scans\<close>

lemma merge_sorted_simps:
  "fst n < fst x \<Longrightarrow> merge_sorted_mem_vectors (n # ns) (x # xs) = n # merge_sorted_mem_vectors ns (x # xs)"
  "fst x < fst n \<Longrightarrow> merge_sorted_mem_vectors (n # ns) (x # xs) = x # merge_sorted_mem_vectors (n # ns) xs"
  "fst n = fst x \<Longrightarrow> merge_sorted_mem_vectors (n # ns) (x # xs) = n # merge_sorted_mem_vectors ns xs"
  by (auto simp: cmp_def)

lemma merge_sorted_induct [case_names less greater equal right left]:
  assumes "\<And>n ns x xs. fst n < fst x \<Longrightarrow> P ns (x # xs) \<Longrightarrow> P (n # ns) (x # xs)"
    and "\<And>n ns x xs. fst x < fst n \<Longrightarrow> P (n # ns) xs \<Longrightarrow> P (n # ns) (x # xs)"
    and "\<And>n ns x xs. fst n = fst x \<Longrightarrow> P ns xs \<Longrightarrow> P (n # ns) (x # xs)"
    and "\<And>ns. P ns []" and "\<And>xs. P [] xs"
  shows "P (a :: ('x::linorder) entry list) (b :: 'x entry list)"
proof (induction a b rule: merge_sorted_mem_vectors.induct)
  case (1 n ns x xs)
  then show ?case using assms(1-3) by (cases "fst n" "fst x" rule: linorder_cases) auto
qed (rule assms(4), rule assms(5))

lemma keys_merge_sorted: "fst ` set (merge_sorted_mem_vectors a b) = fst ` set a \<union> fst ` set b"
proof (induction a b rule: merge_sorted_induct)
  case (left xs)
  then show ?case by (cases xs) simp_all
qed (auto simp: merge_sorted_simps simp del: merge_sorted_mem_vectors.simps(1))

lemma ksorted_Cons: "ksorted (x # xs) \<longleftrightarrow> (\<forall>k \<in> fst ` set xs. fst x < k) \<and> ksorted xs"
  by auto

lemma ksorted_merge_sorted: "ksorted a \<Longrightarrow> ksorted b \<Longrightarrow> ksorted (merge_sorted_mem_vectors a b)"
proof (induction a b rule: merge_sorted_induct)
  case (less n ns x xs)
  then have "\<forall>k \<in> fst ` set (merge_sorted_mem_vectors ns (x # xs)). fst n < k"
    unfolding keys_merge_sorted by (auto dest: less_trans)
  then show ?case using less unfolding merge_sorted_simps(1) [OF less(1)] ksorted_Cons by blast
next
  case (greater n ns x xs)
  then have "\<forall>k \<in> fst ` set (merge_sorted_mem_vectors (n # ns) xs). fst x < k"
    unfolding keys_merge_sorted by (auto dest: less_trans)
  then show ?case using greater unfolding merge_sorted_simps(2) [OF greater(1)] ksorted_Cons by blast
next
  case (equal n ns x xs)
  then have "\<forall>k \<in> fst ` set (merge_sorted_mem_vectors ns xs). fst n < k"
    unfolding keys_merge_sorted by auto
  then show ?case using equal unfolding merge_sorted_simps(3) [OF equal(1)] ksorted_Cons by blast
next
  case (left xs)
  then show ?case by (cases xs) simp_all
qed simp

lemma map_of_below:
  assumes "\<forall>k' \<in> fst ` set xs. (k :: 'k::linorder) < k'"
  shows "map_of xs k = None"
proof -
  have "k \<notin> fst ` set xs" using assms by blast
  then show ?thesis by (simp add: map_of_eq_None_iff)
qed

lemma map_of_merge_sorted:
  "ksorted a \<Longrightarrow> ksorted b \<Longrightarrow> map_of (merge_sorted_mem_vectors a b) k = (case map_of a k of Some v \<Rightarrow> Some v | None \<Rightarrow> map_of b k)"
proof (induction a b rule: merge_sorted_induct)
  case (less n ns x xs)
  then show ?case unfolding merge_sorted_simps(1) [OF less(1)] by (cases n) simp
next
  case (greater n ns x xs)
  have "\<forall>k' \<in> fst ` set (n # ns). fst x < k'" using greater(1,3) by (auto dest: less_trans)
  then have "map_of (n # ns) (fst x) = None" by (rule map_of_below)
  then show ?case using greater unfolding merge_sorted_simps(2) [OF greater(1)] by (cases x) (auto split: option.split)
next
  case (equal n ns x xs)
  then show ?case unfolding merge_sorted_simps(3) [OF equal(1)] by (cases n; cases x) (auto split: option.split)
next
  case (left xs)
  then show ?case by (cases xs) simp_all
qed (simp split: option.split)

lemma foldl_merge_props:
  assumes "ksorted a" "\<forall>l \<in> set ls. ksorted l"
  shows "ksorted (foldl merge_sorted_mem_vectors a ls)"
    "fst ` set (foldl merge_sorted_mem_vectors a ls) = fst ` set (concat (a # ls))"
    "map_of (foldl merge_sorted_mem_vectors a ls) k = newest (a # ls) k"
proof -
  have "ksorted (foldl merge_sorted_mem_vectors a ls) \<and> fst ` set (foldl merge_sorted_mem_vectors a ls) = fst ` set (concat (a # ls))
    \<and> map_of (foldl merge_sorted_mem_vectors a ls) k = newest (a # ls) k"
    using assms
  proof (induction ls arbitrary: a)
    case (Cons l ls)
    have p: "ksorted (merge_sorted_mem_vectors a l)" "fst ` set (merge_sorted_mem_vectors a l) = fst ` set a \<union> fst ` set l"
      "map_of (merge_sorted_mem_vectors a l) k = (case map_of a k of Some v \<Rightarrow> Some v | None \<Rightarrow> map_of l k)"
      using ksorted_merge_sorted [of a l] keys_merge_sorted [of a l] map_of_merge_sorted [of a l k] Cons.prems by simp_all
    show ?case using Cons.IH [OF p(1)] p(2,3) Cons.prems by (auto simp: image_Un split: option.splits)
  qed (auto split: option.split)
  then show "ksorted (foldl merge_sorted_mem_vectors a ls)"
    "fst ` set (foldl merge_sorted_mem_vectors a ls) = fst ` set (concat (a # ls))"
    "map_of (foldl merge_sorted_mem_vectors a ls) k = newest (a # ls) k" by auto
qed

lemma newest_range:
  assumes "\<forall>l \<in> set ls. ksorted l"
  shows "newest (map (filter (in_range lo hi)) ls) k = (if lo \<le> k \<and> k \<le> hi then newest ls k else None)"
  using assms by (induction ls) (auto simp: map_of_range split: option.split)

lemma snapshot_mem_range_props:
  assumes "\<forall>m \<in> set (mems e). mem_inv m" "lo \<le> hi"
  shows "\<exists>mem. snapshot_mem_range lo hi e = Some mem \<and> ksorted mem \<and> (\<forall>x \<in> set mem. lo \<le> fst x \<and> fst x \<le> hi)
    \<and> (\<forall>k. map_of mem k = (if lo \<le> k \<and> k \<le> hi then newest (map mt_map (mems e)) k else None))"
proof -
  let ?R = "filter (in_range lo hi)"
  have sc: "mem_scan_range_raw lo hi m = Some (?R (mt_map m))" for m :: "'a memtable"
    using assms(2) by (simp add: mem_scan_range_raw_def bt_range_def)
  let ?mem = "foldl merge_sorted_mem_vectors (?R (mt_map (e_active e))) (map (\<lambda>i. ?R (mt_map (imm_table i))) (e_immutable e))"
  have eq: "snapshot_mem_range lo hi e = Some ?mem"
    using all_some_map [of "e_immutable e" "\<lambda>i. mem_scan_range_raw lo hi (imm_table i)" "\<lambda>i. ?R (mt_map (imm_table i))"]
    by (simp add: snapshot_mem_range_def sc)
  have s: "\<forall>l \<in> set (map mt_map (mems e)). ksorted l" using assms(1) by (auto simp: mem_inv_def)
  have "ksorted (?R (mt_map (e_active e)))" "\<forall>l \<in> set (map (\<lambda>i. ?R (mt_map (imm_table i))) (e_immutable e)). ksorted l"
    using s by (auto simp: mems_def)
  note F = foldl_merge_props [OF this]
  have st: "?R (mt_map (e_active e)) # map (\<lambda>i. ?R (mt_map (imm_table i))) (e_immutable e) = map ?R (map mt_map (mems e))"
    by (simp add: mems_def comp_def)
  have "lo \<le> fst x \<and> fst x \<le> hi" if "x \<in> set ?mem" for x
  proof -
    have "fst x \<in> fst ` set ?mem" using that by (rule imageI)
    then have "fst x \<in> fst ` set (concat (map ?R (map mt_map (mems e))))" unfolding F(2) st .
    then show ?thesis by (auto simp: in_range_def)
  qed
  moreover have "map_of ?mem k = (if lo \<le> k \<and> k \<le> hi then newest (map mt_map (mems e)) k else None)" for k
    using F(3) [of k] newest_range [OF s] st by simp
  ultimately show ?thesis using eq F(1) by blast
qed

text \<open>
  The iterators selected so far cover, inside the range, all the files considered so far.
\<close>

definition sel :: "('x::linorder) sst_codec \<Rightarrow> (u64 \<rightharpoonup> 'x sst_reader) \<Rightarrow> ('x sst_reader \<Rightarrow> 'x entry list list)
    \<Rightarrow> ('x sst_reader \<Rightarrow> 'x entry list) \<Rightarrow> 'x dbkey \<Rightarrow> 'x dbkey \<Rightarrow> 'x block_iter list \<times> nat \<Rightarrow> 'x sst_reader list \<Rightarrow> bool" where
  "sel cd U C F lo hi st fs \<longleftrightarrow>
     (\<exists>rps. iters_hold cd U (Some lo) (Some hi) (fst st) rps (map (\<lambda>rp. C (fst rp)) rps)
        \<and> sorted_wrt (<) (map snd rps) \<and> (\<forall>p \<in> snd ` set rps. p < snd st)
        \<and> (\<forall>k. lo \<le> k \<and> k \<le> hi \<longrightarrow> newest (map (\<lambda>rp. F (fst rp)) rps) k = newest (map F fs) k))"

lemma sel_add:
  assumes "sel cd U C F lo hi (its, p) fs" "reader_ok cd r (C r)" "U (r_id r) = Some r"
  shows "\<exists>it. yields (coherent cd U) (bi_new_with_end cd r (Some lo) (Some hi) p) (Inr it) \<and> sel cd U C F lo hi (its @ [it], p + 1) (fs @ [r])"
proof -
  obtain rps where rps: "iters_hold cd U (Some lo) (Some hi) its rps (map (\<lambda>rp. C (fst rp)) rps)"
    "sorted_wrt (<) (map snd rps)" "\<forall>q \<in> snd ` set rps. q < p"
    "\<forall>k. lo \<le> k \<and> k \<le> hi \<longrightarrow> newest (map (\<lambda>rp. F (fst rp)) rps) k = newest (map F fs) k"
    using assms(1) by (auto simp: sel_def)
  obtain it where it: "yields (coherent cd U) (bi_new_with_end cd r (Some lo) (Some hi) p) (Inr it)"
    "iters_hold cd U (Some lo) (Some hi) [it] [(r, p)] [C r]"
    using bi_new_hold [of cd r "C r" U] assms(2,3) by blast
  have "sel cd U C F lo hi (its @ [it], p + 1) (fs @ [r])"
    unfolding sel_def using iters_hold_append [OF rps(1) it(2)] rps(2-)
    by (intro exI [of _ "rps @ [(r, p)]"]) (auto simp: sorted_wrt_append newest_append less_Suc_eq)
  then show ?thesis using it(1) by blast
qed

lemma sel_skip:
  assumes "sel cd U C F lo hi (its, p) fs" "\<forall>r \<in> set rs. \<forall>k. lo \<le> k \<and> k \<le> hi \<longrightarrow> map_of (F r) k = None" "p \<le> p'"
  shows "sel cd U C F lo hi (its, p') (fs @ rs)"
proof -
  have "newest (map F (fs @ rs)) k = newest (map F fs) k" if "lo \<le> k \<and> k \<le> hi" for k
  proof -
    have "newest (map F rs) k = None" using assms(2) that by (auto simp: newest_None)
    then show ?thesis by (simp add: newest_append split: option.split)
  qed
  then show ?thesis using assms(1,3) unfolding sel_def by (elim exE, intro exI) auto
qed

lemma scan_l0_file_yields:
  assumes "sel cd U C (file_entries C lay f) lo hi st fs" "reader_ok cd r (C r)" "U (r_id r) = Some r"
  shows "\<exists>st'. yields (coherent cd U) (scan_l0_file cd lo hi st r) (Inr st') \<and> sel cd U C (file_entries C lay f) lo hi st' (fs @ [r])"
proof -
  obtain its p where st: "st = (its, p)" by (cases st)
  show ?thesis
  proof (cases "C r = []")
    case True
    then have "r_index r = []" using reader_okD(1) [OF assms(2)] by simp
    then have n: "sst_first_key r = None" by (simp add: sst_first_key_def)
    have "sel cd U C (file_entries C lay f) lo hi (its, p + 1) (fs @ [r])"
      using assms(1) True by (intro sel_skip) (auto simp: st file_entries_def)
    then show ?thesis using n yields_ret [of "coherent cd U" "(its, p + 1)"]
      by (intro exI [of _ "(its, p + 1)"]) (simp add: scan_l0_file_def st)
  next
    case False
    have fk: "sst_first_key r = Some (file_lo C r)" using reader_bounds(1) [OF assms(2) False] by (simp add: file_lo_def)
    show ?thesis
    proof (cases "file_lo C r \<le> hi \<and> lo \<le> r_last_key r")
      case True
      obtain it where it: "yields (coherent cd U) (bi_new_with_end cd r (Some lo) (Some hi) p) (Inr it)"
        "sel cd U C (file_entries C lay f) lo hi (its @ [it], p + 1) (fs @ [r])"
        using sel_add [OF assms(1) [unfolded st] assms(2,3)] by blast
      have "yields (coherent cd U) (scan_l0_file cd lo hi st r) (Inr (its @ [it], p + 1))"
        using yields_bind_ret [OF it(1), of "\<lambda>it. (its @ [it], p + 1)"] True fk by (simp add: scan_l0_file_def st)
      then show ?thesis using it(2) by blast
    next
      case out: False
      have "sel cd U C (file_entries C lay f) lo hi (its, p + 1) (fs @ [r])"
      proof (rule sel_skip [OF assms(1) [unfolded st]])
        have "k < file_lo C r \<or> r_last_key r < k" if "lo \<le> k \<and> k \<le> hi" for k using out that by auto
        then show "\<forall>r \<in> set [r]. \<forall>k. lo \<le> k \<and> k \<le> hi \<longrightarrow> map_of (file_entries C lay f r) k = None"
          using map_of_file_outside [of cd r C, OF assms(2) False] by simp
      qed simp
      then show ?thesis using fk out yields_ret [of "coherent cd U" "(its, p + 1)"]
        by (intro exI [of _ "(its, p + 1)"]) (auto simp: scan_l0_file_def st)
    qed
  qed
qed

lemma act_fold_sel:
  assumes "\<forall>st r fs. r \<in> set rs \<longrightarrow> P st fs \<longrightarrow> (\<exists>st'. yields R (g st r) (Inr st') \<and> P st' (fs @ h r))" "P st fs"
  shows "\<exists>st'. yields R (act_fold g st rs) (Inr st') \<and> P st' (fs @ concat (map h rs))"
  using assms
proof (induction rs arbitrary: st fs)
  case Nil
  then show ?case by (auto intro: yields_ret)
next
  case (Cons r rs)
  obtain st1 where st1: "yields R (g st r) (Inr st1)" "P st1 (fs @ h r)" using Cons.prems by force
  obtain st2 where st2: "yields R (act_fold g st1 rs) (Inr st2)" "P st2 ((fs @ h r) @ concat (map h rs))"
    using Cons.IH [OF _ st1(2)] Cons.prems(1) by force
  have "yields R (act_fold g st (r # rs)) (Inr st2)" unfolding act_fold.simps by (rule yields_bind [OF st1(1)]) (rule st2(1))
  then show ?case using st2(2) by auto
qed

text \<open>A deep level: the files before the range are skipped by the binary search, those after it by the break.\<close>

lemma deep_split:
  assumes "deep_ok C fs" "\<forall>r \<in> set fs. reader_ok cd r (C r)"
  shows "\<forall>r \<in> set (take (partition_point (\<lambda>r. r_last_key r < lo) fs) fs). r_last_key r < lo"
    "deep_ok C (drop n fs)"
proof -
  have "file_lo C r \<le> r_last_key r" if "r \<in> set fs" for r
    using reader_bounds(4) [of cd r "C r"] that assms by (auto simp: deep_ok_def file_lo_def)
  then have "sorted_wrt (\<lambda>x y. r_last_key y < lo \<longrightarrow> r_last_key x < lo) fs"
    using assms(1) unfolding deep_ok_def by (elim conjE) (erule sorted_wrt_mono_rel [rotated], fastforce)
  note P = partition_point_spec [OF this]
  show "\<forall>r \<in> set (take (partition_point (\<lambda>r. r_last_key r < lo) fs) fs). r_last_key r < lo"
    using P(2) by (auto simp: in_set_conv_nth)
  show "deep_ok C (drop n fs)" using assms(1) by (auto simp: deep_ok_def sorted_wrt_drop dest: in_set_dropD)
qed

lemma deep_after:
  assumes "deep_ok C (r # rs)" "\<forall>r \<in> set (r # rs). reader_ok cd r (C r)" "hi < file_lo C r" "r' \<in> set (r # rs)"
  shows "hi < file_lo C r'"
proof (cases "r' = r")
  case False
  then have "r_last_key r < file_lo C r'" using assms(1,4) by (auto simp: deep_ok_def)
  moreover have "file_lo C r \<le> r_last_key r" using reader_bounds(4) [of cd r "C r"] assms(1,2) by (auto simp: deep_ok_def file_lo_def)
  ultimately show ?thesis using assms(3) by order
qed (use assms(3) in simp)

lemma file_outside_range:
  assumes "reader_ok cd r (C r)" "C r \<noteq> []" "hi < file_lo C r \<or> r_last_key r < lo" "lo \<le> k \<and> k \<le> hi"
  shows "map_of (file_entries C lay f r) k = None"
  using map_of_file_outside [of cd r C k lay f] assms by fastforce

lemma scan_level_files_yields:
  assumes "deep_ok C rs" "\<forall>r \<in> set rs. reader_ok cd r (C r) \<and> U (r_id r) = Some r" "sel cd U C (file_entries C lay f) lo hi st fs"
  shows "\<exists>st'. yields (coherent cd U) (scan_level_files cd lo hi rs st) (Inr st') \<and> sel cd U C (file_entries C lay f) lo hi st' (fs @ rs)"
  using assms
proof (induction rs arbitrary: st fs)
  case Nil
  then show ?case using yields_ret [of "coherent cd U" st] by (intro exI [of _ st]) simp
next
  case (Cons r rs)
  have r: "reader_ok cd r (C r)" "U (r_id r) = Some r" "C r \<noteq> []" using Cons.prems by (auto simp: deep_ok_def)
  have fk: "sst_first_key r = Some (file_lo C r)" using reader_bounds(1) [OF r(1,3)] by (simp add: file_lo_def)
  show ?case
  proof (cases "hi < file_lo C r")
    case True
    have "\<forall>x \<in> set (r # rs). \<forall>k. lo \<le> k \<and> k \<le> hi \<longrightarrow> map_of (file_entries C lay f x) k = None"
    proof (intro ballI allI impI)
      fix x k
      assume x: "x \<in> set (r # rs)" and k: "lo \<le> k \<and> k \<le> hi"
      have "hi < file_lo C x" using deep_after [OF Cons.prems(1) _ True x] Cons.prems(2) by blast
      then show "map_of (file_entries C lay f x) k = None"
        using file_outside_range [of cd x C hi lo k lay f] Cons.prems(1,2) x k by (auto simp: deep_ok_def)
    qed
    from sel_skip [of cd U C _ lo hi "fst st" "snd st" fs, OF _ this order_refl] Cons.prems(3)
    show ?thesis using True fk yields_ret [of "coherent cd U" st] by (intro exI [of _ st]) simp
  next
    case False
    obtain it where it: "yields (coherent cd U) (bi_new_with_end cd r (Some lo) (Some hi) (snd st)) (Inr it)"
      "sel cd U C (file_entries C lay f) lo hi (fst st @ [it], snd st + 1) (fs @ [r])"
      using sel_add [of cd U C _ lo hi "fst st" "snd st" fs r] Cons.prems(3) r by auto
    have "deep_ok C rs" using Cons.prems(1) by (auto simp: deep_ok_def)
    from Cons.IH [OF this _ it(2)] Cons.prems(2)
    obtain st' where st': "yields (coherent cd U) (scan_level_files cd lo hi rs (fst st @ [it], snd st + 1)) (Inr st')"
      "sel cd U C (file_entries C lay f) lo hi st' (fs @ r # rs)" by auto
    have "yields (coherent cd U) (scan_level_files cd lo hi (r # rs) st) (Inr st')"
      using False fk st'(1) by (simp add: yields_bind [OF it(1)])
    then show ?thesis using st'(2) by blast
  qed
qed

lemma scan_level_yields:
  assumes "(fst lf \<noteq> 0 \<longrightarrow> deep_ok C (snd lf))" "\<forall>r \<in> set (snd lf). reader_ok cd r (C r) \<and> U (r_id r) = Some r"
    and s: "sel cd U C (file_entries C lay f) lo hi st fs"
  shows "\<exists>st'. yields (coherent cd U) (scan_level cd lo hi st lf) (Inr st')
    \<and> sel cd U C (file_entries C lay f) lo hi st' (fs @ (if fst lf = 0 then [] else snd lf))"
proof (cases "fst lf = 0")
  case True
  then show ?thesis using s yields_ret [of "coherent cd U" st] by (intro exI [of _ st]) (simp add: scan_level_def split_beta)
next
  case False
  let ?n = "partition_point (\<lambda>r. r_last_key r < lo) (snd lf)"
  have d: "deep_ok C (snd lf)" "\<forall>r \<in> set (snd lf). reader_ok cd r (C r)" using assms(1,2) False by auto
  note D = deep_split [OF d]
  have skip: "\<forall>r \<in> set (take ?n (snd lf)). \<forall>k. lo \<le> k \<and> k \<le> hi \<longrightarrow> map_of (file_entries C lay f r) k = None"
  proof (intro ballI allI impI)
    fix r k
    assume r: "r \<in> set (take ?n (snd lf))" and k: "lo \<le> k \<and> k \<le> hi"
    then have "r_last_key r < lo" "r \<in> set (snd lf)" using D(1) in_set_takeD by (blast, metis in_set_takeD)
    then show "map_of (file_entries C lay f r) k = None"
      using file_outside_range [of cd r C hi lo k lay f] d k by (simp add: deep_ok_def)
  qed
  have "sel cd U C (file_entries C lay f) lo hi st (fs @ take ?n (snd lf))"
    using sel_skip [of cd U C _ lo hi "fst st" "snd st" fs, OF _ skip order_refl] s by simp
  moreover have "\<forall>r \<in> set (drop ?n (snd lf)). reader_ok cd r (C r) \<and> U (r_id r) = Some r" using assms(2) in_set_dropD by metis
  ultimately obtain st' where "yields (coherent cd U) (scan_level_files cd lo hi (drop ?n (snd lf)) st) (Inr st')"
    "sel cd U C (file_entries C lay f) lo hi st' ((fs @ take ?n (snd lf)) @ drop ?n (snd lf))"
    using scan_level_files_yields [where lay = lay and f = f, OF D(2) [of ?n]] by blast
  then show ?thesis using False by (intro exI [of _ st']) (simp add: scan_level_def split_beta)
qed

lemma sel_Nil: "sel cd U C F lo hi ([], 0) []"
  by (auto simp: sel_def)

lemma scan_files_yields:
  assumes "files_ok cd U C lv"
  shows "\<exists>st st'. yields (coherent cd U) (act_fold (scan_l0_file cd lo hi) ([], 0) (level_files 0 lv)) (Inr st)
    \<and> yields (coherent cd U) (act_fold (scan_level cd lo hi) st lv) (Inr st') \<and> sel cd U C (file_entries C lay f) lo hi st' (stack_files lv)"
proof -
  let ?P = "sel cd U C (file_entries C lay f) lo hi"
  have l0: "\<forall>st r fs. r \<in> set (level_files 0 lv) \<longrightarrow> ?P st fs \<longrightarrow>
      (\<exists>st'. yields (coherent cd U) (scan_l0_file cd lo hi st r) (Inr st') \<and> ?P st' (fs @ [r]))"
    using scan_l0_file_yields files_okD(1) [OF assms] by blast
  obtain st where st: "yields (coherent cd U) (act_fold (scan_l0_file cd lo hi) ([], 0) (level_files 0 lv)) (Inr st)"
    "?P st ([] @ concat (map (\<lambda>r. [r]) (level_files 0 lv)))"
    using act_fold_sel [where P = ?P and h = "\<lambda>r. [r]", OF l0 sel_Nil] by blast
  have dl: "\<forall>st lf fs. lf \<in> set lv \<longrightarrow> ?P st fs \<longrightarrow>
      (\<exists>st'. yields (coherent cd U) (scan_level cd lo hi st lf) (Inr st') \<and> ?P st' (fs @ (if fst lf = 0 then [] else snd lf)))"
    using scan_level_yields files_okD(2) [OF assms] by blast
  have "?P st (level_files 0 lv)" using st(2) by simp
  then obtain st' where st': "yields (coherent cd U) (act_fold (scan_level cd lo hi) st lv) (Inr st')"
    "?P st' (level_files 0 lv @ concat (map (\<lambda>lf. if fst lf = 0 then [] else snd lf) lv))"
    using act_fold_sel [where P = ?P and h = "\<lambda>lf. if fst lf = 0 then [] else snd lf", OF dl] by blast
  have "deep_files lv = concat (map (\<lambda>lf. if fst lf = 0 then [] else snd lf) lv)" by (simp add: deep_files_def case_prod_beta')
  then have "?P st' (stack_files lv)" using st'(2) by (simp add: stack_files_def)
  then show ?thesis using st(1) st'(1) by blast
qed

lemma eng_scan_yields:
  assumes inv: "read_inv cd U C e" and rw: "rw_total rw f (e_layout e)" and le: "lo \<le> hi"
  shows "\<exists>out. yields (coherent cd U) (act_bind (eng_scan_iter cd e lo hi) (\<lambda>it. act_drain (scan_next cd rw) it [])) (Inr out)
    \<and> ksorted out \<and> (\<forall>k. map_of out k = (if lo \<le> k \<and> k \<le> hi then db_lookup C f e k else None))"
proof -
  let ?F = "file_entries C (e_layout e) f" and ?lv = "e_sstables e"
  have ok: "files_ok cd U C ?lv" and mi: "\<forall>m \<in> set (mems e). mem_inv m" using inv by (simp_all add: read_inv_def)
  obtain mem where mem: "snapshot_mem_range lo hi e = Some mem" "ksorted mem" "\<forall>x \<in> set mem. lo \<le> fst x \<and> fst x \<le> hi"
    "\<forall>k. map_of mem k = (if lo \<le> k \<and> k \<le> hi then newest (map mt_map (mems e)) k else None)"
    using snapshot_mem_range_props [OF mi le] by blast
  obtain st st' where st: "yields (coherent cd U) (act_fold (scan_l0_file cd lo hi) ([], 0) (level_files 0 ?lv)) (Inr st)"
    "yields (coherent cd U) (act_fold (scan_level cd lo hi) st ?lv) (Inr st')" "sel cd U C ?F lo hi st' (stack_files ?lv)"
    using scan_files_yields [OF ok] by blast
  obtain rps where rps: "iters_hold cd U (Some lo) (Some hi) (fst st') rps (map (\<lambda>rp. C (fst rp)) rps)" "sorted_wrt (<) (map snd rps)"
    "\<forall>k. lo \<le> k \<and> k \<le> hi \<longrightarrow> newest (map (\<lambda>rp. ?F (fst rp)) rps) k = newest (map ?F (stack_files ?lv)) k"
    using st(3) by (auto simp: sel_def)
  have d: "distinct (map snd rps)" using rps(2) strict_sorted_iff by blast
  have hi: "\<forall>x \<in> set mem. fst x \<le> hi" using mem(3) by blast
  note y = scan_drain_iters [OF rps(1) d mem(2) hi, of rw "e_layout e"]
  obtain out where out: "all_ok (scan_results rw (e_layout e) (map fst rps) (merged (0 # map (\<lambda>rp. Suc (snd rp)) rps)
      (mem # map (\<lambda>bs. filter (key_range (Some lo) (Some hi)) (concat bs)) (map (\<lambda>rp. C (fst rp)) rps)))) = Inr out"
    "ksorted out" "\<forall>k. map_of out k = (if lo \<le> k \<and> k \<le> hi then Option.bind (newest (mem #
        map2 (\<lambda>rp bs. map (migrated (e_layout e) f (fst rp)) (concat bs)) rps (map (\<lambda>rp. C (fst rp)) rps)) k) (\<lambda>v. v) else None)"
    using scan_results_live [of rps "map (\<lambda>rp. C (fst rp)) rps" mem lo hi "e_layout e" rw f] rps(2) mem(3) rw
    by (auto simp: rw_total_def)
  have it: "yields (coherent cd U) (eng_scan_iter cd e lo hi) (Inr (scan_new mem (fst st') hi (e_layout e)))"
    unfolding eng_scan_iter_def mem(1) option.case by (rule yields_bind [OF st(1)], rule yields_bind [OF st(2)], rule yields_ret)
  have m2: "map2 (\<lambda>rp bs. map (migrated (e_layout e) f (fst rp)) (concat bs)) rps (map (\<lambda>rp. C (fst rp)) rps) = map (\<lambda>rp. ?F (fst rp)) rps"
    by (simp add: map2_map_map [of _ "\<lambda>x. x", simplified] file_entries_def)
  have "map_of out k = (if lo \<le> k \<and> k \<le> hi then db_lookup C f e k else None)" for k
    using out(3) rps(3) mem(4) by (simp add: m2 db_lookup_def db_stack_def newest_append split: option.split)
  moreover have "yields (coherent cd U) (act_bind (eng_scan_iter cd e lo hi) (\<lambda>it. act_drain (scan_next cd rw) it [])) (Inr out)"
    by (rule yields_bind [OF it]) (use y out(1) in simp)
  ultimately show ?thesis using out(2) by blast
qed

section \<open>Filtered scans\<close>

lemma newest_concat: "newest ls k = map_of (concat ls) k"
  by (induction ls) (auto simp: map_add_def split: option.split)

lemma fs_fold:
  assumes "foldl (fs_mem_entry flt) ({}, []) es = (seen, results)"
  shows "seen = fst ` set es" "ksorted results"
    "map_of results k = (case map_of es k of Some (Some v) \<Rightarrow> if flt k v then Some v else None | _ \<Rightarrow> None)"
proof -
  have "seen = fst ` set es \<and> ksorted results
    \<and> (\<forall>k. map_of results k = (case map_of es k of Some (Some v) \<Rightarrow> if flt k v then Some v else None | _ \<Rightarrow> None))"
    using assms
  proof (induction es arbitrary: seen results rule: rev_induct)
    case (snoc x es)
    obtain seen0 res0 where st: "foldl (fs_mem_entry flt) ({}, []) es = (seen0, res0)" by force
    obtain k0 v0 where x: "x = (k0, v0)" by force
    note IH = snoc.IH [OF st]
    have e: "fs_mem_entry flt (seen0, res0) (k0, v0) = (seen, results)" using snoc.prems st x by simp
    show ?case
    proof (cases "k0 \<in> seen0")
      case True
      then have "map_of es k0 \<noteq> None" using IH by (simp add: map_of_eq_None_iff)
      then show ?thesis using True e IH x by (auto simp: fs_mem_entry_def map_add_def split: option.split)
    next
      case False
      then have n: "map_of es k0 = None" using IH by (simp add: map_of_eq_None_iff)
      have r: "seen = insert k0 seen0"
        "results = (case v0 of Some val \<Rightarrow> if flt k0 val then bt_insert k0 val res0 else res0 | None \<Rightarrow> res0)"
        using e False by (auto simp: fs_mem_entry_def)
      have "ksorted results" using r(2) IH by (auto split: option.split)
      moreover have "map_of res0 k0 = None" using IH n by simp
      ultimately show ?thesis using r IH n x by (auto simp: map_add_def split: option.split)
    qed
  qed simp
  then show "seen = fst ` set es" "ksorted results"
    "map_of results k = (case map_of es k of Some (Some v) \<Rightarrow> if flt k v then Some v else None | _ \<Rightarrow> None)" by blast+
qed

lemma fs_mems_range:
  assumes "lo \<le> hi"
  shows "fs_mems flt lo hi ms st = Some (foldl (fs_mem_entry flt) st (concat (map (\<lambda>m. filter (in_range lo hi) (mt_map m)) ms)))"
  using assms by (induction ms arbitrary: st) (auto simp: mem_scan_range_raw_def bt_range_def)

lemma fs_sst_entry_yields:
  assumes "rw_total rw f lay"
  shows "yields R (fs_sst_entry rw lay flt r st kv) (Inr (fs_mem_entry flt st (migrated lay f r kv)))"
proof -
  obtain seen res k v where e: "st = (seen, res)" "kv = (k, v)" by (cases st; cases kv) auto
  have rw: "rewrite_from rw (r_layout r) lay val = Inr (if r_layout r \<noteq> lay then f (r_layout r) val else val)" for val
    using assms by (simp add: rewrite_from_def rw_total_def)
  show ?thesis
    by (cases v) (auto simp: fs_sst_entry_def fs_mem_entry_def e migrated_def rw intro!: yields_ret yields_bind [OF yields_result])
qed

lemma fs_file_yields:
  assumes "reader_ok cd r (C r)" "U (r_id r) = Some r" "rw_total rw f lay"
  shows "yields (coherent cd U) (fs_file cd rw lay flt lo hi st r)
    (Inr (foldl (fs_mem_entry flt) st (filter (in_range lo hi) (file_entries C lay f r))))"
proof -
  have p: "in_range lo hi (migrated lay f r e) = in_range lo hi e" for e by (simp add: in_range_def migrated_def)
  have "filter (in_range lo hi) (file_entries C lay f r) = map (migrated lay f r) (filter (in_range lo hi) (concat (C r)))"
    by (simp add: file_entries_def filter_map comp_def p)
  moreover have "foldl (\<lambda>b x. fs_mem_entry flt b (migrated lay f r x)) st es = foldl (fs_mem_entry flt) st (map (migrated lay f r) es)" for es
    by (induction es arbitrary: st) auto
  ultimately show ?thesis
    unfolding fs_file_def
    using yields_bind [OF sst_scan_raw_yields [where U = U, OF assms(1,2)],
        where f = "act_fold (fs_sst_entry rw lay flt r) st",
        OF yields_fold [where g = "\<lambda>b x. fs_mem_entry flt b (migrated lay f r x)", OF fs_sst_entry_yields [OF assms(3)]]]
    by simp
qed

lemma filter_range_outside:
  assumes "\<forall>k. lo \<le> k \<and> k \<le> hi \<longrightarrow> map_of es k = None"
  shows "filter (in_range lo hi) es = []"
proof -
  have "\<forall>e \<in> set es. map_of es (fst e) \<noteq> None" by (auto simp: map_of_eq_None_iff)
  then show ?thesis using assms unfolding filter_empty_conv in_range_def by blast
qed

lemma fs_level_files_yields:
  assumes "deep_ok C rs" "\<forall>r \<in> set rs. reader_ok cd r (C r) \<and> U (r_id r) = Some r" "rw_total rw f lay"
  shows "yields (coherent cd U) (fs_level_files cd rw lay flt lo hi rs st)
    (Inr (foldl (fs_mem_entry flt) st (concat (map (\<lambda>r. filter (in_range lo hi) (file_entries C lay f r)) rs))))"
  using assms(1,2)
proof (induction rs arbitrary: st)
  case Nil
  then show ?case by (simp add: yields_ret)
next
  case (Cons r rs)
  have r: "reader_ok cd r (C r)" "U (r_id r) = Some r" "C r \<noteq> []" using Cons.prems by (auto simp: deep_ok_def)
  have fk: "sst_first_key r = Some (file_lo C r)" using reader_bounds(1) [OF r(1,3)] by (simp add: file_lo_def)
  show ?case
  proof (cases "hi < file_lo C r")
    case True
    have "filter (in_range lo hi) (file_entries C lay f x) = []" if x: "x \<in> set (r # rs)" for x
    proof (rule filter_range_outside, intro allI impI)
      fix k
      assume k: "lo \<le> k \<and> k \<le> hi"
      have "hi < file_lo C x" using deep_after [OF Cons.prems(1) _ True x] Cons.prems(2) by blast
      then show "map_of (file_entries C lay f x) k = None"
        using file_outside_range [of cd x C hi lo k lay f] Cons.prems(1,2) x k by (auto simp: deep_ok_def)
    qed
    then have n: "concat (map (\<lambda>r. filter (in_range lo hi) (file_entries C lay f r)) (r # rs)) = []" by simp
    show ?thesis using True fk yields_ret [of "coherent cd U" st] unfolding n by simp
  next
    case False
    have d: "deep_ok C rs" using Cons.prems(1) by (auto simp: deep_ok_def)
    have "yields (coherent cd U) (act_bind (fs_file cd rw lay flt lo hi st r) (fs_level_files cd rw lay flt lo hi rs))
      (Inr (foldl (fs_mem_entry flt) (foldl (fs_mem_entry flt) st (filter (in_range lo hi) (file_entries C lay f r)))
         (concat (map (\<lambda>r. filter (in_range lo hi) (file_entries C lay f r)) rs))))"
      by (rule yields_bind [OF fs_file_yields [where U = U and C = C and f = f, OF r(1,2) assms(3)]], rule Cons.IH [OF d])
        (use Cons.prems(2) in simp)
    then show ?thesis using False fk by simp
  qed
qed

lemma fs_level_yields:
  assumes "fst lf \<noteq> 0 \<longrightarrow> deep_ok C (snd lf)" "\<forall>r \<in> set (snd lf). reader_ok cd r (C r) \<and> U (r_id r) = Some r" "rw_total rw f lay"
  shows "yields (coherent cd U) (fs_level cd rw lay flt lo hi st lf)
    (Inr (foldl (fs_mem_entry flt) st (concat (map (\<lambda>r. filter (in_range lo hi) (file_entries C lay f r)) (if fst lf = 0 then [] else snd lf)))))"
proof (cases "fst lf = 0")
  case True
  then show ?thesis by (simp add: fs_level_def split_beta yields_ret)
next
  case False
  let ?n = "partition_point (\<lambda>r. r_last_key r < lo) (snd lf)" and ?g = "\<lambda>r. filter (in_range lo hi) (file_entries C lay f r)"
  have d: "deep_ok C (snd lf)" "\<forall>r \<in> set (snd lf). reader_ok cd r (C r)" using assms(1,2) False by auto
  note D = deep_split [OF d]
  have "?g r = []" if r: "r \<in> set (take ?n (snd lf))" for r
  proof (rule filter_range_outside, intro allI impI)
    fix k
    assume k: "lo \<le> k \<and> k \<le> hi"
    have "r_last_key r < lo" "r \<in> set (snd lf)" using D(1) r in_set_takeD by (blast, metis in_set_takeD)
    then show "map_of (file_entries C lay f r) k = None"
      using file_outside_range [of cd r C hi lo k lay f] d k by (simp add: deep_ok_def)
  qed
  then have "concat (map ?g (take ?n (snd lf))) = []" by simp
  then have "concat (map ?g (snd lf)) = concat (map ?g (drop ?n (snd lf)))"
    by (metis append_Nil append_take_drop_id concat_append map_append)
  moreover have "\<forall>r \<in> set (drop ?n (snd lf)). reader_ok cd r (C r) \<and> U (r_id r) = Some r" using assms(2) in_set_dropD by metis
  ultimately show ?thesis
    using fs_level_files_yields [where U = U and C = C, OF D(2) [of ?n] _ assms(3)] False by (simp add: fs_level_def split_beta)
qed

lemma db_stack_sorted:
  assumes "read_inv cd U C e"
  shows "\<forall>l \<in> set (db_stack C f e). ksorted l"
proof -
  have ok: "files_ok cd U C (e_sstables e)" and mi: "\<forall>m \<in> set (mems e). mem_inv m" using assms by (simp_all add: read_inv_def)
  have "ksorted (file_entries C lay f r)" if "r \<in> set (stack_files (e_sstables e))" for lay r
  proof -
    have "reader_ok cd r (C r)" using that files_okD(1,3) [OF ok] by (auto simp: stack_files_def)
    then have "ksorted (concat (C r))" by (rule reader_okD)
    then show ?thesis by (simp add: file_entries_def migrated_def comp_def)
  qed
  then show ?thesis using mi by (auto simp: db_stack_def mem_inv_def)
qed

lemma map_of_filter_sorted:
  assumes "ksorted xs"
  shows "map_of (filter (\<lambda>(k, v). p k v) xs) k = (case map_of xs k of Some v \<Rightarrow> if p k v then Some v else None | None \<Rightarrow> None)"
  using assms
proof (induction xs)
  case (Cons x xs)
  have "map_of xs (fst x) = None" using Cons.prems by (auto simp: map_of_eq_None_iff)
  then show ?case using Cons by (cases x) auto
qed simp

lemma filtered_scan_yields:
  assumes inv: "read_inv cd U C e" and rw: "rw_total rw f (e_layout e)" and le: "lo \<le> hi"
  shows "\<exists>out. yields (coherent cd U) (filtered_scan cd rw e lo hi flt) (Inr out) \<and> ksorted out
    \<and> (\<forall>k. map_of out k = (if lo \<le> k \<and> k \<le> hi
         then case db_lookup C f e k of Some v \<Rightarrow> if flt k v then Some v else None | None \<Rightarrow> None else None))"
proof -
  let ?F = "file_entries C (e_layout e) f" and ?lv = "e_sstables e"
  let ?g = "\<lambda>r. filter (in_range lo hi) (?F r)"
  have ok: "files_ok cd U C ?lv" and mi: "\<forall>m \<in> set (mems e). mem_inv m" using inv by (simp_all add: read_inv_def)
  define e1 where "e1 = concat (map (\<lambda>m. filter (in_range lo hi) (mt_map m)) (mems e))"
  define e2 where "e2 = concat (map ?g (level_files 0 ?lv))"
  define e3 where "e3 = concat (map (\<lambda>lf. concat (map ?g (if fst lf = 0 then [] else snd lf))) ?lv)"
  let ?fold = "foldl (fs_mem_entry flt)"
  have fc: "foldl (\<lambda>st x. ?fold st (h x)) st xs = ?fold st (concat (map h xs))" for h st and xs :: "'q list"
    by (induction xs arbitrary: st) auto
  have l0: "yields (coherent cd U) (act_fold (fs_file cd rw (e_layout e) flt lo hi) st (level_files 0 ?lv)) (Inr (?fold st e2))" for st
  proof -
    have "yields (coherent cd U) (fs_file cd rw (e_layout e) flt lo hi b x) (Inr (?fold b (?g x)))" if "x \<in> set (level_files 0 ?lv)" for b x
      using fs_file_yields [where U = U and C = C and r = x, OF _ _ rw] files_okD(1) [OF ok that] by blast
    from yields_fold [where f = "fs_file cd rw (e_layout e) flt lo hi" and g = "\<lambda>b x. ?fold b (?g x)" and xs = "level_files 0 ?lv", OF this]
    show ?thesis by (simp add: e2_def fc)
  qed
  have dl: "yields (coherent cd U) (act_fold (fs_level cd rw (e_layout e) flt lo hi) st ?lv) (Inr (?fold st e3))" for st
  proof -
    have "yields (coherent cd U) (fs_level cd rw (e_layout e) flt lo hi b x) (Inr (?fold b (concat (map ?g (if fst x = 0 then [] else snd x)))))"
      if "x \<in> set ?lv" for b x
      using fs_level_yields [where U = U and C = C and lf = x, OF _ _ rw] files_okD(2) [OF ok that] by blast
    from yields_fold [where f = "fs_level cd rw (e_layout e) flt lo hi" and g = "\<lambda>b x. ?fold b (concat (map ?g (if fst x = 0 then [] else snd x)))" and xs = ?lv, OF this]
    show ?thesis by (simp add: e3_def fc)
  qed
  obtain seen out where fold: "?fold ({}, []) (e1 @ e2 @ e3) = (seen, out)" by force
  have y: "yields (coherent cd U) (filtered_scan cd rw e lo hi flt) (Inr out)"
    unfolding filtered_scan_def fs_mems_range [OF le] option.case e1_def [symmetric]
    by (rule yields_bind [OF l0], rule yields_bind [OF dl]) (use fold yields_ret [of "coherent cd U" out] in simp)
  have "e1 @ e2 @ e3 = concat (map (filter (in_range lo hi)) (db_stack C f e))"
  proof -
    have cc: "concat (map ?g (concat (map h lv))) = concat (map (\<lambda>lf. concat (map ?g (h lf))) lv)" for h and lv :: "'q list"
      by (induction lv) auto
    show ?thesis by (simp add: e1_def e2_def e3_def db_stack_def stack_files_def deep_files_def case_prod_beta' comp_def cc)
  qed
  moreover have s: "\<forall>l \<in> set (db_stack C f e). ksorted l"
    by (rule db_stack_sorted [OF inv])
  ultimately have es: "map_of (e1 @ e2 @ e3) k = (if lo \<le> k \<and> k \<le> hi then newest (db_stack C f e) k else None)" for k
    using newest_range [OF s, of lo hi k] by (simp only: newest_concat)
  have "map_of out k = (if lo \<le> k \<and> k \<le> hi
      then case db_lookup C f e k of Some v \<Rightarrow> if flt k v then Some v else None | None \<Rightarrow> None else None)" for k
    using fs_fold(3) [OF fold, of k] es [of k] by (auto simp: db_lookup_def split: option.splits)
  then show ?thesis using y fs_fold(2) [OF fold] by blast
qed

section \<open>The properties of the read paths\<close>

text \<open>A small store for the witnesses: one row in the active memtable, a level 0 file that deletes a key of the level 1 file.\<close>

definition demo_engine :: "nat engine" where
  "demo_engine = \<lparr>e_active = mem_set (KInt 3) (Some (VInt 9)) mem_new, e_immutable = [],
     e_sstables = [(0, [demo_new]), (1, [demo_old])], e_layout = []\<rparr>"

definition demo_contents :: "nat sst_reader \<Rightarrow> nat entry list list" where
  "demo_contents r = (if r_id r = 8 then demo_blocks ! 0 else demo_blocks ! 1)"

definition demo_readers :: "u64 \<rightharpoonup> nat sst_reader" where
  "demo_readers = [8 \<mapsto> demo_new, 7 \<mapsto> demo_old]"

definition no_rewrite :: "nat rewriter" where
  "no_rewrite l l' v = Inr v"

lemma demo_read_inv: "read_inv demo_codec demo_readers demo_contents demo_engine"
proof -
  have "mem_inv (mem_set (KInt 3) (Some (VInt 9 :: nat dbvalue)) mem_new)" by (simp add: mt.invar_put mt.invar_empty)
  moreover have "reader_ok demo_codec demo_new (demo_contents demo_new)" "reader_ok demo_codec demo_old (demo_contents demo_old)"
    "demo_readers (r_id demo_new) = Some demo_new" "demo_readers (r_id demo_old) = Some demo_old"
    using demo_tables by (simp_all add: tables_ok_def demo_contents_def demo_blocks_def demo_readers_def demo_new_def demo_old_def demo_reader_def)
  moreover have "deep_ok demo_contents [demo_old]"
    by (simp add: deep_ok_def demo_contents_def demo_blocks_def demo_old_def demo_reader_def)
  ultimately show ?thesis by (simp add: read_inv_def demo_engine_def mems_def files_ok_def)
qed

lemma no_rewrite_total: "rw_total no_rewrite (\<lambda>l v. v) lay"
  by (simp add: rw_total_def no_rewrite_def)

lemma demo_lookup: "db_lookup demo_contents (\<lambda>l v. v) demo_engine k
    = (if k = KInt 3 then Some (VInt 9) else if k = KInt 1 then Some (VInt 5) else None)"
  by (simp add: db_lookup_def db_stack_def demo_engine_def mems_def mem_set_def mem_new_def stack_files_def level_files_def deep_files_def
      file_entries_def demo_contents_def demo_blocks_def demo_rows_def demo_new_def demo_old_def demo_reader_def migrated_def)

text \<open>
  C7: \<open>StorageEngine::get\<close> returns the newest slot of the key over the active memtable, the sealed memtables
  newest first, the level 0 files newest first and the deeper levels in order, as a value of the
  current layout, and nothing when that slot is a tombstone; Bloom filters, key-range skips and the
  binary search inside a level never hide an entry, and the block cache stays coherent.
\<close>

theorem engine_get_newest_slot:
  assumes "read_inv cd U C e" "rw_total rw f (e_layout e)"
  shows "yields (coherent cd U) (eng_get cd rw e k) (Inr (db_lookup C f e k))"
  by (rule eng_get_yields [OF assms])

theorem engine_get_newest_slot_witness:
  "\<exists>c d. eng_get demo_codec no_rewrite demo_engine (KInt 1) None = Some (Inr (Some (VInt 5)), c)
      \<and> eng_get demo_codec no_rewrite demo_engine (KInt 2) None = Some (Inr None, d)"
  using yieldsD [OF engine_get_newest_slot [OF demo_read_inv no_rewrite_total, of "KInt 1"], of None]
    yieldsD [OF engine_get_newest_slot [OF demo_read_inv no_rewrite_total, of "KInt 2"], of None]
  by (auto simp: demo_lookup coherent_def)

text \<open>
  C11: \<open>StorageEngine::multi_get\<close> answers every key of the batch, in the order of the batch and with duplicates
  answered alike, exactly as a \<open>get\<close> of that key would.
\<close>

theorem engine_multi_get_is_get:
  assumes "read_inv cd U C e" "rw_total rw f (e_layout e)"
  shows "\<exists>vs. yields (coherent cd U) (multi_get cd rw e keys) (Inr vs) \<and> length vs = length keys
    \<and> (\<forall>i < length keys. yields (coherent cd U) (eng_get cd rw e (keys ! i)) (Inr (vs ! i)))"
  using multi_get_yields [OF assms, of keys] eng_get_yields [OF assms] by (intro exI [of _ "map (db_lookup C f e) keys"]) simp

theorem engine_multi_get_is_get_witness:
  "\<exists>vs. yields (coherent demo_codec demo_readers) (multi_get demo_codec no_rewrite demo_engine [KInt 3, KInt 2, KInt 1, KInt 3]) (Inr vs)
    \<and> length vs = 4 \<and> yields (coherent demo_codec demo_readers) (eng_get demo_codec no_rewrite demo_engine (KInt 1)) (Inr (vs ! 2))"
proof -
  obtain vs where vs: "yields (coherent demo_codec demo_readers) (multi_get demo_codec no_rewrite demo_engine [KInt 3, KInt 2, KInt 1, KInt 3]) (Inr vs)"
    "length vs = 4" "\<forall>i < length [KInt 3, KInt 2, KInt 1, KInt 3 :: nat dbkey].
       yields (coherent demo_codec demo_readers) (eng_get demo_codec no_rewrite demo_engine ([KInt 3, KInt 2, KInt 1, KInt 3] ! i)) (Inr (vs ! i))"
    using engine_multi_get_is_get [OF demo_read_inv no_rewrite_total, of "[KInt 3, KInt 2, KInt 1, KInt 3]"] by auto
  then show ?thesis using vs(3) [rule_format, of 2] by auto
qed

text \<open>
  C8: \<open>StorageEngine::scan_iter\<close>, drained, returns exactly the live rows of the closed key range, each once and in
  key order, with the value \<open>get\<close> would return.
\<close>

theorem engine_scan_live_range:
  assumes "read_inv cd U C e" "rw_total rw f (e_layout e)" "lo \<le> hi"
  shows "\<exists>out. yields (coherent cd U) (act_bind (eng_scan_iter cd e lo hi) (\<lambda>it. act_drain (scan_next cd rw) it [])) (Inr out)
    \<and> ksorted out \<and> (\<forall>k. map_of out k = (if lo \<le> k \<and> k \<le> hi then db_lookup C f e k else None))"
  by (rule eng_scan_yields [OF assms])

theorem engine_scan_live_range_witness:
  "\<exists>c. act_bind (eng_scan_iter demo_codec demo_engine (KInt 1) (KInt 2)) (\<lambda>it. act_drain (scan_next demo_codec no_rewrite) it []) None
    = Some (Inr [(KInt 1, VInt 5)], c)"
proof -
  obtain out where out: "yields (coherent demo_codec demo_readers)
      (act_bind (eng_scan_iter demo_codec demo_engine (KInt 1) (KInt 2)) (\<lambda>it. act_drain (scan_next demo_codec no_rewrite) it [])) (Inr out)"
    "ksorted out" "\<forall>k. map_of out k = (if KInt 1 \<le> k \<and> k \<le> KInt 2 then db_lookup demo_contents (\<lambda>l v. v) demo_engine k else None)"
    using engine_scan_live_range [OF demo_read_inv no_rewrite_total, of "KInt 1" "KInt 2"] by auto
  have "map_of out = map_of [(KInt 1, VInt 5)]" by (rule ext) (auto simp: out(3) demo_lookup)
  then have "out = [(KInt 1, VInt 5)]" using ksorted_unique [OF out(2), of "[(KInt 1, VInt 5)]"] by simp
  then show ?thesis using yieldsD [OF out(1), of None] by (auto simp: coherent_def)
qed

text \<open>
  C10: \<open>StorageEngine::filtered_scan\<close>, which pushes a predicate below the merge, returns the same rows as the plain scan of
  the range with the predicate applied afterwards: a newer row that fails the predicate still hides
  the older versions of its key.
\<close>

theorem engine_filtered_scan_is_filter:
  assumes "read_inv cd U C e" "rw_total rw f (e_layout e)" "lo \<le> hi"
  shows "\<exists>out. yields (coherent cd U) (act_bind (eng_scan_iter cd e lo hi) (\<lambda>it. act_drain (scan_next cd rw) it [])) (Inr out)
    \<and> yields (coherent cd U) (filtered_scan cd rw e lo hi flt) (Inr (filter (\<lambda>(k, v). flt k v) out))"
proof -
  obtain out where out: "yields (coherent cd U) (act_bind (eng_scan_iter cd e lo hi) (\<lambda>it. act_drain (scan_next cd rw) it [])) (Inr out)"
    "ksorted out" "\<forall>k. map_of out k = (if lo \<le> k \<and> k \<le> hi then db_lookup C f e k else None)"
    using eng_scan_yields [OF assms] by blast
  obtain res where res: "yields (coherent cd U) (filtered_scan cd rw e lo hi flt) (Inr res)" "ksorted res"
    "\<forall>k. map_of res k = (if lo \<le> k \<and> k \<le> hi
       then case db_lookup C f e k of Some v \<Rightarrow> if flt k v then Some v else None | None \<Rightarrow> None else None)"
    using filtered_scan_yields [OF assms] by blast
  have "map_of res = map_of (filter (\<lambda>(k, v). flt k v) out)"
    by (rule ext) (use out(2,3) res(3) in \<open>auto simp: map_of_filter_sorted split: option.split\<close>)
  then have "res = filter (\<lambda>(k, v). flt k v) out"
    using ksorted_unique [OF res(2)] out(2) by (simp add: sorted_wrt_map sorted_wrt_filter)
  then show ?thesis using out(1) res(1) by blast
qed

theorem engine_filtered_scan_is_filter_witness:
  "\<exists>out. yields (coherent demo_codec demo_readers)
      (act_bind (eng_scan_iter demo_codec demo_engine (KInt 1) (KInt 4)) (\<lambda>it. act_drain (scan_next demo_codec no_rewrite) it [])) (Inr out)
    \<and> yields (coherent demo_codec demo_readers) (filtered_scan demo_codec no_rewrite demo_engine (KInt 1) (KInt 4) (\<lambda>k v. v = VInt 9))
        (Inr (filter (\<lambda>(k, v). v = VInt 9) out))"
  using engine_filtered_scan_is_filter [OF demo_read_inv no_rewrite_total, of "KInt 1" "KInt 4" "\<lambda>k v. v = VInt 9"] by simp

end
