(* ===== verification/Compaction.thy ===== *)
theory Compaction
  imports Engine_Read Snapshot_Log
begin

text \<open>
  Level compaction of \<^verbatim>\<open>dtdb_storage/src/engine.rs\<close>: which level is due, which files of it are merged with
  which files of the next one, the merge loop that rewrites values, drops tombstones and rolls output
  files over, the manifest edits, and the swap of the level map.

  The loop runs over a merge iterator that reads through the block cache; everything it writes is the
  record \<open>comp_writer\<close>. Files on disk are named by level and id. Every call into the file system takes
  its outcome from a fault schedule, one record per merged entry. The sections after the definitions
  follow the loop: what it has written after any number of merged entries, and what it leaves behind
  when it fails. That a compaction never changes what a lookup returns is in \<^verbatim>\<open>Compaction_Correct.thy\<close>.
\<close>

section \<open>State\<close>

type_synonym disk = "nat \<times> u64 \<rightharpoonup> byte list"

record 'x lsm = "'x engine" +
  s_options :: engine_options
  s_next_sst :: u64
  s_manifest :: "snapshot_dir \<times> manifest snapshot_log"
  s_disk :: disk
  s_last_compacted :: "nat \<rightharpoonup> 'x dbkey"

record comp_io =
  c_create :: bool
  c_append :: io
  c_finish :: sst_io
  c_open :: bool

record 'x comp_writer =
  cw_next :: u64
  cw_new :: "'x sst_reader list"
  cw_current :: "('x sst_writer \<times> u64) option"
  cw_bytes :: nat
  cw_disk :: disk
  cw_clock :: nat

section \<open>Choosing what to compact\<close>

definition find_level_to_compact :: "('x, 'z) lsm_scheme \<Rightarrow> nat option" where
  "find_level_to_compact e =
     (let opt = s_options e; lv = e_sstables e
      in if (case map_of lv 0 of Some l0 \<Rightarrow> l0_compaction_threshold opt \<le> length l0 | None \<Rightarrow> False) then Some 0
         else List.find (\<lambda>level. case map_of lv level of
                  Some ssts \<Rightarrow> (of_nat (level_size_limit opt level) :: u64) < sum_list (map (\<lambda>r. of_nat (r_file_size r)) ssts)
                | None \<Rightarrow> False) [1..<max_level opt])"

definition select_sources :: "nat \<Rightarrow> ('x::linorder, 'z) lsm_scheme \<Rightarrow> 'x sst_reader list" where
  "select_sources source_level e =
     (let files = level_files source_level (e_sstables e)
      in if source_level = 0 then files
         else case files of
                [] \<Rightarrow> []
              | first # _ \<Rightarrow>
                  [case s_last_compacted e source_level of
                     Some lk \<Rightarrow>
                       (case List.find (\<lambda>r. case sst_first_key r of Some fk \<Rightarrow> lk < fk | None \<Rightarrow> False) files of
                          Some r \<Rightarrow> r
                        | None \<Rightarrow> first)
                   | None \<Rightarrow> first])"

text \<open>The key range of the sources: the least first key and the greatest last key.\<close>

definition widen :: "'x dbkey option \<times> 'x dbkey option \<Rightarrow> ('x::linorder) sst_reader \<Rightarrow> 'x dbkey option \<times> 'x dbkey option" where
  "widen mm r =
     (let (mn, mx) = mm
      in (case sst_first_key r of
            Some fk \<Rightarrow> if (case mn of None \<Rightarrow> True | Some k \<Rightarrow> fk < k) then Some fk else mn
          | None \<Rightarrow> mn,
          if (case mx of None \<Rightarrow> True | Some k \<Rightarrow> k < r_last_key r) then Some (r_last_key r) else mx))"

definition source_range :: "('x::linorder) sst_reader list \<Rightarrow> 'x dbkey option \<times> 'x dbkey option" where
  "source_range rs = foldl widen (None, None) rs"

fun overlapping :: "nat \<Rightarrow> ('x::linorder) dbkey \<Rightarrow> 'x dbkey \<Rightarrow> 'x sst_reader list \<Rightarrow> 'x sst_reader list result" where
  "overlapping target_level min_k max_k [] = Inr []"
| "overlapping target_level min_k max_k (r # rs) =
     (case sst_first_key r of
        None \<Rightarrow> Inl (Corruption (''Level '' @ to_dec target_level @ '' SSTable '' @ to_dec (unat (r_id r)) @ '' has an empty index''))
      | Some fk \<Rightarrow> rbind (overlapping target_level min_k max_k rs)
                     (\<lambda>os. Inr (if fk \<le> max_k \<and> min_k \<le> r_last_key r then r # os else os)))"

definition overlapping_targets :: "nat \<Rightarrow> ('x::linorder) sst_reader list \<Rightarrow> ('x, 'z) lsm_scheme \<Rightarrow> 'x sst_reader list result" where
  "overlapping_targets target_level sources e =
     (case source_range sources of
        (Some min_k, Some max_k) \<Rightarrow> overlapping target_level min_k max_k (level_files target_level (e_sstables e))
      | _ \<Rightarrow> Inr [])"

text \<open>
  The merge sources with their priorities: the deeper files first in the list, with the priorities after
  those of the level-0 files, which follow from the newest (priority 0) to the oldest.
\<close>

definition merge_inputs :: "'x sst_reader list \<Rightarrow> ('x sst_reader \<times> nat) list" where
  "merge_inputs files =
     (let l0 = sort_key r_id (filter (\<lambda>r. r_level r = 0) files);
          others = filter (\<lambda>r. r_level r \<noteq> 0) files;
          l0_count = length l0
      in zip others [l0_count..<l0_count + length others]
         @ rev (map (\<lambda>(i, r). (r, l0_count - 1 - i)) (List.enumerate 0 l0)))"

definition expected_entries :: "'x sst_reader list \<Rightarrow> nat" where
  "expected_entries files = sum_list (map (\<lambda>r. st_entries (r_stats r)) files)"

definition lower_level_ranges :: "nat \<Rightarrow> ('x, 'z) lsm_scheme \<Rightarrow> ('x dbkey \<times> 'x dbkey) list" where
  "lower_level_ranges target_level e =
     (if target_level < max_level (s_options e)
      then List.map_filter (\<lambda>r. map_option (\<lambda>fk. (fk, r_last_key r)) (sst_first_key r))
             (concat (map snd (filter (\<lambda>lf. target_level < fst lf) (e_sstables e))))
      else [])"

definition drop_tombstone :: "engine_options \<Rightarrow> nat \<Rightarrow> ('x dbkey \<times> 'x dbkey) list \<Rightarrow> ('x::linorder) dbkey \<Rightarrow> bool" where
  "drop_tombstone opt target_level ranges k =
     (if target_level < max_level opt then \<not> list_ex (\<lambda>(fk, lk). fk \<le> k \<and> k \<le> lk) ranges else True)"

section \<open>Writing the output\<close>

text \<open>
  Finish the current output file and open it for reading. No file reaches \<open>2 ^ 64\<close> bytes; that is
  folded into the outcome of opening it. Taking an absent writer would panic (\<open>None\<close>).
\<close>

definition finish_current :: "('x::linorder) sst_codec \<Rightarrow> nat \<Rightarrow> comp_io \<Rightarrow> 'x comp_writer \<Rightarrow> ('x comp_writer \<times> unit result) option" where
  "finish_current cd target_level io w =
     (case cw_current w of
        None \<Rightarrow> None
      | Some (sw, sid) \<Rightarrow>
          (case sst_finish cd (c_finish io) (cw_disk w (target_level, sid)) sw of
             None \<Rightarrow> None
           | Some (final, _, res) \<Rightarrow>
               (let w1 = w\<lparr>cw_current := None, cw_disk := (cw_disk w)((target_level, sid) := final)\<rparr>
                in case rbind res (\<lambda>_. rbind (ok_or Io final) (\<lambda>f.
                          if c_open io \<and> length f < 2 ^ 64 then sst_open cd sid target_level f else Inl Io)) of
                     Inl e \<Rightarrow> Some (w1, Inl e)
                   | Inr r \<Rightarrow> Some (w1\<lparr>cw_new := cw_new w1 @ [r]\<rparr>, Inr ()))))"

definition ensure_writer :: "('x::linorder) sst_codec \<Rightarrow> engine_options \<Rightarrow> layout \<Rightarrow> nat \<Rightarrow> comp_io \<Rightarrow> 'x comp_writer
    \<Rightarrow> 'x comp_writer \<times> ('x sst_writer \<times> u64) result" where
  "ensure_writer cd opt lay expected io w =
     (case cw_current w of
        Some cur \<Rightarrow> (w, Inr cur)
      | None \<Rightarrow>
          (let sid = cw_next w; w1 = w\<lparr>cw_next := sid + 1\<rparr>
           in case sst_create cd (c_create io) (block_size_limit opt) (compression opt) expected lay of
                Inl e \<Rightarrow> (w1, Inl e)
              | Inr sw \<Rightarrow> (w1\<lparr>cw_current := Some (sw, sid), cw_bytes := 0\<rparr>, Inr (sw, sid))))"

definition write_entry :: "('x::linorder) sst_codec \<Rightarrow> engine_options \<Rightarrow> layout \<Rightarrow> nat \<Rightarrow> nat \<Rightarrow> comp_io \<Rightarrow> 'x dbkey \<Rightarrow> 'x slot
    \<Rightarrow> 'x comp_writer \<Rightarrow> ('x comp_writer \<times> unit result) option" where
  "write_entry cd opt lay expected target_level io k v w =
     (case ensure_writer cd opt lay expected io w of
        (w1, Inl e) \<Rightarrow> Some (w1, Inl e)
      | (w1, Inr (sw, sid)) \<Rightarrow>
          (let w2 = w1\<lparr>cw_bytes := cw_bytes w1 + (key_byte_size k + slot_byte_size v)\<rparr>
           in case sst_append cd (c_append io) k v sw of
                None \<Rightarrow> None
              | Some (sw', Inl e) \<Rightarrow> Some (w2\<lparr>cw_current := Some (sw', sid)\<rparr>, Inl e)
              | Some (sw', Inr _) \<Rightarrow>
                  (let w3 = w2\<lparr>cw_current := Some (sw', sid)\<rparr>
                   in if sstable_target_size opt \<le> cw_bytes w3 then finish_current cd target_level io w3
                      else Some (w3, Inr ()))))"

text \<open>One turn of the merge loop; \<open>rs\<close> are the readers of the merge sources.\<close>

definition compact_item :: "('x::linorder) sst_codec \<Rightarrow> 'x rewriter \<Rightarrow> engine_options \<Rightarrow> layout \<Rightarrow> nat \<Rightarrow> nat
    \<Rightarrow> ('x dbkey \<times> 'x dbkey) list \<Rightarrow> 'x sst_reader list \<Rightarrow> (nat \<Rightarrow> comp_io) \<Rightarrow> 'x dbkey \<times> 'x slot \<times> nat
    \<Rightarrow> 'x comp_writer \<Rightarrow> ('x comp_writer \<times> unit result) option" where
  "compact_item cd rw opt lay expected target_level ranges rs ios item w =
     (let (k, v, source_idx) = item; io = ios (cw_clock w); w = w\<lparr>cw_clock := Suc (cw_clock w)\<rparr>
      in case v of
           Some val \<Rightarrow>
             if source_idx < length rs
             then (case rewrite_from rw (r_layout (rs ! source_idx)) lay val of
                     Inl e \<Rightarrow> Some (w, Inl e)
                   | Inr val' \<Rightarrow> write_entry cd opt lay expected target_level io k (Some val') w)
             else None
         | None \<Rightarrow>
             if drop_tombstone opt target_level ranges k then Some (w, Inr ())
             else write_entry cd opt lay expected target_level io k None w)"

text \<open>\<open>while let Some(x) = it.next()?\<close> with a body that writes; \<open>None\<close> is a panic, or not ending.\<close>

partial_function (option) for_each :: "('i \<Rightarrow> ('s, 'i \<times> 'a option) act) \<Rightarrow> ('a \<Rightarrow> 'w \<Rightarrow> ('w \<times> unit result) option)
    \<Rightarrow> 'i \<Rightarrow> 'w \<Rightarrow> 's \<Rightarrow> (('w \<times> unit result) \<times> 's) option" where
  "for_each f g it w s =
     (case f it s of
        None \<Rightarrow> None
      | Some (Inl e, s') \<Rightarrow> Some ((w, Inl e), s')
      | Some (Inr (it', None), s') \<Rightarrow> Some ((w, Inr ()), s')
      | Some (Inr (it', Some x), s') \<Rightarrow>
          (case g x w of
             None \<Rightarrow> None
           | Some (w', Inl e) \<Rightarrow> Some ((w', Inl e), s')
           | Some (w', Inr _) \<Rightarrow> for_each f g it' w' s'))"

definition finish_last :: "('x::linorder) sst_codec \<Rightarrow> nat \<Rightarrow> comp_io \<Rightarrow> 'x comp_writer \<Rightarrow> ('x comp_writer \<times> unit result) option" where
  "finish_last cd target_level io w = (if cw_current w = None then Some (w, Inr ()) else finish_current cd target_level io w)"

section \<open>Swapping the files\<close>

definition compaction_edits :: "'x sst_reader list \<Rightarrow> 'x sst_reader list \<Rightarrow> manifest_edit list" where
  "compaction_edits old new = map (\<lambda>r. RemoveSstable (r_level r) (r_id r)) old @ map (\<lambda>r. AddSstable (r_level r) (r_id r)) new"

text \<open>\<open>sort_by\<close> is stable: an element goes before the first one that is not smaller.\<close>

fun insert_by :: "('a \<Rightarrow> 'a \<Rightarrow> ordering) \<Rightarrow> 'a \<Rightarrow> 'a list \<Rightarrow> 'a list" where
  "insert_by c x [] = [x]"
| "insert_by c x (y # ys) = (if c x y = Greater then y # insert_by c x ys else x # y # ys)"

definition sort_by :: "('a \<Rightarrow> 'a \<Rightarrow> ordering) \<Rightarrow> 'a list \<Rightarrow> 'a list" where
  "sort_by c xs = foldr (insert_by c) xs []"

definition first_key_cmp :: "('x::linorder) sst_reader \<Rightarrow> 'x sst_reader \<Rightarrow> ordering" where
  "first_key_cmp a b =
     (case (sst_first_key a, sst_first_key b) of
        (Some x, Some y) \<Rightarrow> cmp x y
      | (Some _, None) \<Rightarrow> Less
      | (None, Some _) \<Rightarrow> Greater
      | (None, None) \<Rightarrow> Equal)"

definition swap_levels :: "nat \<Rightarrow> ('x::linorder) sst_reader list \<Rightarrow> 'x sst_reader list \<Rightarrow> 'x sst_reader list \<Rightarrow> 'x levels \<Rightarrow> 'x levels" where
  "swap_levels source_level sources targets new lv =
     (let retain = (\<lambda>gone. filter (\<lambda>r. r_id r \<notin> r_id ` set gone));
          lv1 = map (\<lambda>(n, fs). (n, if n = source_level then retain sources fs else fs)) lv;
          target_list = retain targets (level_files (source_level + 1) lv1) @ new
      in bt_insert (source_level + 1) (sort_by first_key_cmp target_list) lv1)"

definition delete_files :: "(nat \<times> u64 \<Rightarrow> bool) \<Rightarrow> 'x sst_reader list \<Rightarrow> disk \<Rightarrow> disk" where
  "delete_files keep rs d = (\<lambda>p. if p \<in> (\<lambda>r. (r_level r, r_id r)) ` set rs \<and> \<not> keep p then None else d p)"

section \<open>The compaction of one level\<close>

record compaction_io =
  ci_merge :: "nat \<Rightarrow> comp_io"
  ci_last :: comp_io
  ci_manifest :: sl_io
  ci_keep :: "nat \<times> u64 \<Rightarrow> bool"

text \<open>
  \<open>write_output\<close> is the part that reads and writes files, \<open>install\<close> the part after it. \<open>h\<close> is the
  checksum of the manifest log and \<open>sn\<close> its serializers.
\<close>

definition write_output :: "('x::linorder) sst_codec \<Rightarrow> 'x rewriter \<Rightarrow> compaction_io \<Rightarrow> nat \<Rightarrow> 'x sst_reader list \<Rightarrow> ('x, 'z) lsm_scheme
    \<Rightarrow> 'x cache \<Rightarrow> (('x comp_writer \<times> unit result) \<times> 'x cache) option" where
  "write_output cd rw io target_level files e c =
     (let opt = s_options e; lay = e_layout e;
          w0 = \<lparr>cw_next = s_next_sst e, cw_new = [], cw_current = None, cw_bytes = 0, cw_disk = s_disk e, cw_clock = 0\<rparr>
      in case act_map (\<lambda>(r, p). bi_new cd r None p) (merge_inputs files) c of
           None \<Rightarrow> None
         | Some (Inl err, c1) \<Rightarrow> Some ((w0, Inl err), c1)
         | Some (Inr its, c1) \<Rightarrow>
             (case for_each (merge_next cd)
                     (compact_item cd rw opt lay (expected_entries files) target_level (lower_level_ranges target_level e)
                        (map bi_reader its) (ci_merge io))
                     (merge_new its) w0 c1 of
                None \<Rightarrow> None
              | Some ((w, Inl err), c2) \<Rightarrow> Some ((w, Inl err), c2)
              | Some ((w, Inr _), c2) \<Rightarrow> map_option (\<lambda>wr. (wr, c2)) (finish_last cd target_level (ci_last io) w)))"

definition install :: "(byte list \<Rightarrow> u32) \<Rightarrow> (manifest, manifest_edit) snapshotable \<Rightarrow> compaction_io \<Rightarrow> nat
    \<Rightarrow> ('x::linorder) sst_reader list \<Rightarrow> 'x sst_reader list \<Rightarrow> 'x sst_reader list \<Rightarrow> ('x, 'z) lsm_scheme \<Rightarrow> ('x, 'z) lsm_scheme \<times> unit result" where
  "install h sn io source_level sources targets new e =
     (let (m, res) = sl_append_batch h sn (ci_manifest io) (compaction_edits (sources @ targets) new) (s_manifest e);
          e1 = e\<lparr>s_manifest := m\<rparr>
      in case res of
           Inl err \<Rightarrow> (e1, Inl err)
         | Inr _ \<Rightarrow>
             (e1\<lparr>e_sstables := swap_levels source_level sources targets new (e_sstables e),
                s_disk := delete_files (ci_keep io) (sources @ targets) (s_disk e),
                s_last_compacted := (if 0 < source_level
                                     then (s_last_compacted e)(source_level \<mapsto> r_last_key (last sources))
                                     else s_last_compacted e)\<rparr>, Inr ()))"

definition compact_level :: "(byte list \<Rightarrow> u32) \<Rightarrow> (manifest, manifest_edit) snapshotable \<Rightarrow> ('x::linorder) sst_codec \<Rightarrow> 'x rewriter
    \<Rightarrow> compaction_io \<Rightarrow> nat \<Rightarrow> ('x, 'z) lsm_scheme \<Rightarrow> 'x cache \<Rightarrow> ((('x, 'z) lsm_scheme \<times> unit result) \<times> 'x cache) option" where
  "compact_level h sn cd rw io source_level e c =
     (let target_level = source_level + 1; sources = select_sources source_level e
      in if max_level (s_options e) < target_level \<or> sources = [] then Some ((e, Inr ()), c)
         else case overlapping_targets target_level sources e of
                Inl err \<Rightarrow> Some ((e, Inl err), c)
              | Inr targets \<Rightarrow>
                  (case write_output cd rw io target_level (sources @ targets) e c of
                     None \<Rightarrow> None
                   | Some ((w, res), c') \<Rightarrow>
                       (let e1 = e\<lparr>s_next_sst := cw_next w, s_disk := cw_disk w\<rparr>
                        in case res of
                             Inl err \<Rightarrow> Some ((e1, Inl err), c')
                           | Inr _ \<Rightarrow> Some (install h sn io source_level sources targets (cw_new w) e1, c'))))"

partial_function (option) compact_if_needed_locked :: "(byte list \<Rightarrow> u32) \<Rightarrow> (manifest, manifest_edit) snapshotable
    \<Rightarrow> ('x::linorder) sst_codec \<Rightarrow> 'x rewriter \<Rightarrow> (nat \<Rightarrow> compaction_io) \<Rightarrow> ('x, 'z) lsm_scheme \<Rightarrow> 'x cache
    \<Rightarrow> ((('x, 'z) lsm_scheme \<times> unit result) \<times> 'x cache) option" where
  "compact_if_needed_locked h sn cd rw ios e c =
     (case find_level_to_compact e of
        None \<Rightarrow> Some ((e, Inr ()), c)
      | Some level \<Rightarrow>
          (case compact_level h sn cd rw (ios 0) level e c of
             None \<Rightarrow> None
           | Some ((e', Inl err), c') \<Rightarrow> Some ((e', Inl err), c')
           | Some ((e', Inr _), c') \<Rightarrow> compact_if_needed_locked h sn cd rw (\<lambda>i. ios (Suc i)) e' c'))"

section \<open>The loop over the merge\<close>

fun each_item :: "('a \<Rightarrow> 'w \<Rightarrow> ('w \<times> unit result) option) \<Rightarrow> 'a list \<Rightarrow> 'w \<Rightarrow> ('w \<times> unit result) option" where
  "each_item g [] w = Some (w, Inr ())"
| "each_item g (x # xs) w =
     (case g x w of
        None \<Rightarrow> None
      | Some (w', Inl e) \<Rightarrow> Some (w', Inl e)
      | Some (w', Inr _) \<Rightarrow> each_item g xs w')"

text \<open>Over an iterator that still has \<open>xs\<close> to hand out, the loop ends and does what its body does on \<open>xs\<close>.\<close>

lemma for_each_runs:
  assumes step: "\<And>it xs. H it xs \<Longrightarrow>
      (case xs of
         [] \<Rightarrow> \<exists>it'. yields R (f it) (Inr (it', None))
       | x # ys \<Rightarrow> \<exists>it'. yields R (f it) (Inr (it', Some x)) \<and> H it' ys)"
    and "H it xs" "R s"
  shows "\<exists>s'. R s' \<and> for_each f g it w s = map_option (\<lambda>wr. (wr, s')) (each_item g xs w)"
  using assms(2,3)
proof (induction xs arbitrary: it w s)
  case Nil
  then obtain it' s' where "f it s = Some (Inr (it', None), s')" "R s'" using step [of it "[]"] by (fastforce dest: yieldsD)
  then show ?case by (simp add: for_each.simps [of f g it])
next
  case (Cons x xs)
  then obtain it' s' where it': "f it s = Some (Inr (it', Some x), s')" "R s'" "H it' xs"
    using step [of it "x # xs"] by (fastforce dest: yieldsD)
  show ?case
  proof (cases "g x w")
    case None
    then show ?thesis using it' by (auto simp: for_each.simps [of f g it])
  next
    case (Some wr)
    obtain w' r where wr: "wr = (w', r)" by (cases wr)
    show ?thesis
    proof (cases r)
      case (Inl e)
      then show ?thesis using it' Some wr by (auto simp: for_each.simps [of f g it])
    next
      case (Inr u)
      then show ?thesis using Cons.IH [OF it'(3,2), of w'] it' Some wr by (simp add: for_each.simps [of f g it])
    qed
  qed
qed

text \<open>
  The merge in the order of the priorities: it says about a key what the stack of the sources, by
  ascending priority, says.
\<close>

definition by_priority :: "nat list \<Rightarrow> nat list" where
  "by_priority prios = sort_key (\<lambda>i. prios ! i) [0..<length prios]"

lemma newest_filter:
  "newest (map (\<lambda>i. ls i) is) k = (case filter (\<lambda>i. map_of (ls i) k \<noteq> None) is of [] \<Rightarrow> None | i # _ \<Rightarrow> map_of (ls i) k)"
  by (induction "is") (auto split: option.split)

lemma merged_by_priority:
  assumes "length prios = length ls"
  shows "map_of (merged prios ls) k =
    (case filter (\<lambda>i. map_of (ls ! i) k \<noteq> None) (by_priority prios) of [] \<Rightarrow> None | i # _ \<Rightarrow> Some (the (map_of (ls ! i) k), i))"
proof -
  let ?h = "filter (\<lambda>i. map_of (ls ! i) k \<noteq> None) (by_priority prios)"
  have h: "sort_key (\<lambda>i. prios ! i) (holders ls k) = ?h"
    by (simp add: holders_def by_priority_def assms filter_sort)
  have "holders ls k = [] \<longleftrightarrow> ?h = []" unfolding h [symmetric] by (metis length_0_conv length_sort)
  then have k: "k \<in> set (all_keys ls) \<longleftrightarrow> ?h \<noteq> []" unfolding set_all_keys in_all_keys by simp
  have o: "owner prios ls k = hd ?h" by (simp add: owner_def h)
  show ?thesis
    unfolding merged_def pick_def [abs_def] map_of_tabulate k o by (cases ?h) auto
qed

lemma newest_by_priority:
  assumes "length prios = length ls" "\<And>i. i < length ls \<Longrightarrow> map_of (ls' i) k = map_option (h i) (map_of (ls ! i) k)"
  shows "newest (map ls' (by_priority prios)) k = (case map_of (merged prios ls) k of None \<Rightarrow> None | Some (v, i) \<Rightarrow> Some (h i v))"
proof -
  have b: "set (by_priority prios) = {0..<length ls}" by (simp add: by_priority_def assms(1))
  then have f: "filter (\<lambda>i. map_of (ls' i) k \<noteq> None) (by_priority prios) = filter (\<lambda>i. map_of (ls ! i) k \<noteq> None) (by_priority prios)"
    using assms(2) by (intro filter_cong) auto
  show ?thesis
  proof (cases "filter (\<lambda>i. map_of (ls ! i) k \<noteq> None) (by_priority prios)")
    case Nil
    then show ?thesis unfolding newest_filter f merged_by_priority [OF assms(1)] by simp
  next
    case (Cons i js)
    then have "i \<in> set (filter (\<lambda>i. map_of (ls ! i) k \<noteq> None) (by_priority prios))" by simp
    then have "i < length ls" "map_of (ls ! i) k \<noteq> None" using b by auto
    then show ?thesis unfolding newest_filter f merged_by_priority [OF assms(1)] Cons using assms(2) by auto
  qed
qed

lemma by_priority_split: "by_priority ([c..<c + m] @ [0..<c]) = [m..<m + c] @ [0..<m]"
proof -
  let ?p = "[c..<c + m] @ [0..<c]" and ?o = "[m..<m + c] @ [0..<m]"
  have keys: "map ((!) ?p) ?o = [0..<c] @ [c..<c + m]"
    by (rule nth_equalityI) (auto simp: nth_append)
  have "distinct (map ((!) ?p) [0..<length ?p])" by (simp only: map_nth) auto
  then have inj: "inj_on ((!) ?p) (set [0..<length ?p])" by (simp add: distinct_map)
  have "set ?o = set [0..<length ?p]" by auto
  moreover have "sorted (map ((!) ?p) ?o)" "distinct (map ((!) ?p) ?o)" unfolding keys by (auto simp: sorted_append)
  ultimately have "sort_key ((!) ?p) [0..<length ?p] = ?o"
    using inj by (intro map_sorted_distinct_set_unique [where f = "(!) ?p"]) (auto simp: distinct_map)
  then show ?thesis by (simp add: by_priority_def)
qed

section \<open>The output of the loop\<close>

lemma flush_block_total: "w_file w \<noteq> None \<Longrightarrow> flush_block cd io w \<noteq> None"
  by (auto simp: flush_block_def Let_def split: option.splits prod.splits sum.splits)

lemma sst_append_total: "w_file w \<noteq> None \<Longrightarrow> sst_append cd io k v w \<noteq> None"
  by (simp add: sst_append_def Let_def flush_block_total del: not_None_eq)

lemma sst_finish_total: "w_file w \<noteq> None \<Longrightarrow> sst_finish cd io old w \<noteq> None"
  using flush_block_total [of w cd "io.truncate io"]
  by (auto simp: sst_finish_def finish_internal_def Let_def split: option.splits prod.splits sum.splits)

lemma sst_finish_final: "sst_finish cd io old w = Some (final, tmp, Inr u) \<Longrightarrow> final \<noteq> None"
  by (auto simp: sst_finish_def finish_internal_def Let_def split: option.splits prod.splits sum.splits if_splits)

lemma writer_inv_file: "writer_inv cd cmpr lay bl es ws w \<Longrightarrow> w_file w \<noteq> None"
  by (simp add: writer_inv_def)

text \<open>
  What the writer of a compaction has done after the entries \<open>es\<close>: finished files \<open>bss\<close>, all of them
  non-empty, then the entries of the current one. The ids are the next ones from \<open>n0\<close> on.
\<close>

definition output_file :: "('x::linorder) sst_codec \<Rightarrow> layout \<Rightarrow> nat \<Rightarrow> disk \<Rightarrow> 'x sst_reader \<Rightarrow> 'x entry list list \<Rightarrow> bool" where
  "output_file cd lay target d r bs \<longleftrightarrow>
     reader_ok cd r bs \<and> bs \<noteq> [] \<and> r_layout r = lay \<and> r_level r = target \<and> d (target, r_id r) = Some (r_file r)
   \<and> st_entries (r_stats r) = length (concat bs)"

definition open_entries :: "('x::linorder) sst_codec \<Rightarrow> compression_type \<Rightarrow> layout \<Rightarrow> bloom_filter option \<Rightarrow> nat \<Rightarrow> 'x comp_writer \<Rightarrow> 'x entry list \<Rightarrow> bool" where
  "open_entries cd cmpr lay bl n w cur \<longleftrightarrow>
     (case cw_current w of
        None \<Rightarrow> cur = [] \<and> unat (cw_next w) = n
      | Some (sw, sid) \<Rightarrow> cur \<noteq> [] \<and> (\<exists>ws. writer_inv cd cmpr lay bl cur ws sw) \<and> unat sid = n \<and> unat (cw_next w) = Suc n)"

definition output_inv :: "('x::linorder) sst_codec \<Rightarrow> compression_type \<Rightarrow> layout \<Rightarrow> bloom_filter option \<Rightarrow> nat \<Rightarrow> nat \<Rightarrow> 'x entry list
    \<Rightarrow> 'x entry list list list \<Rightarrow> 'x comp_writer \<Rightarrow> bool" where
  "output_inv cd cmpr lay bl target n0 es bss w \<longleftrightarrow>
     list_all2 (output_file cd lay target (cw_disk w)) (cw_new w) bss
   \<and> map (\<lambda>r. unat (r_id r)) (cw_new w) = [n0..<n0 + length bss]
   \<and> (\<exists>cur. es = concat (map concat bss) @ cur \<and> open_entries cd cmpr lay bl (n0 + length bss) w cur)"

lemma open_entries_clock [simp]: "open_entries cd cmpr lay bl n (w\<lparr>cw_clock := t\<rparr>) cur = open_entries cd cmpr lay bl n w cur"
  by (cases "cw_current w") (auto simp: open_entries_def)

text \<open>What holds however the loop ends: ids only grow, and only files with the new ids change.\<close>

definition output_frame :: "nat \<Rightarrow> nat \<Rightarrow> nat \<Rightarrow> disk \<Rightarrow> 'x comp_writer \<Rightarrow> bool" where
  "output_frame target n0 n d w \<longleftrightarrow>
     n0 \<le> unat (cw_next w) \<and> unat (cw_next w) \<le> n \<and> (\<forall>lv sid. unat sid < n0 \<longrightarrow> cw_disk w (lv, sid) = d (lv, sid))"

lemma output_file_update:
  "output_file cd lay target d r bs \<Longrightarrow> r_id r \<noteq> sid \<Longrightarrow> output_file cd lay target (d((target, sid) := x)) r bs"
  by (simp add: output_file_def)

lemma blocks_count:
  assumes "list_all2 (output_file cd lay target d) rs bss"
  shows "length bss \<le> length (concat (map concat bss))"
  using assms
proof (induction rs bss rule: list_all2_induct)
  case (Cons r rs bs bss)
  have "concat bs \<noteq> []" using Cons(1) reader_bounds(2) by (auto simp: output_file_def)
  then have "1 \<le> length (concat bs)" by (cases "concat bs") auto
  moreover have "length (concat (map concat (bs # bss))) = length (concat bs) + length (concat (map concat bss))"
    by (simp only: list.map concat.simps length_append)
  ultimately show ?case using Cons.IH by simp
qed simp

lemma output_inv_count:
  assumes "output_inv cd cmpr lay bl target n0 es bss w"
  shows "unat (cw_next w) \<le> n0 + length es" "n0 + length bss \<le> n0 + length es"
proof -
  obtain cur where cur: "es = concat (map concat bss) @ cur" "open_entries cd cmpr lay bl (n0 + length bss) w cur"
    using assms by (auto simp: output_inv_def)
  have b: "length bss \<le> length (concat (map concat bss))"
    using assms blocks_count unfolding output_inv_def by blast
  show "n0 + length bss \<le> n0 + length es" using b unfolding cur(1) by simp
  have "unat (cw_next w) \<le> n0 + length bss + length cur"
    using cur(2) by (cases cur) (auto simp: open_entries_def split: option.splits)
  then show "unat (cw_next w) \<le> n0 + length es" using b unfolding cur(1) by simp
qed

lemma output_inv_start:
  assumes "unat nx = n0"
  shows "output_inv cd cmpr lay bl target n0 [] [] \<lparr>cw_next = nx, cw_new = [], cw_current = None, cw_bytes = 0, cw_disk = d, cw_clock = 0\<rparr>"
  using assms by (simp add: output_inv_def open_entries_def)

lemma finish_current_step:
  assumes cd: "codec_ok cd" and bl: "\<And>b. bl = Some b \<Longrightarrow> bloom_bits b \<noteq> 0"
    and inv: "output_inv cd cmpr lay bl target n0 es bss w" and s: "ksorted es" and cur: "cw_current w \<noteq> None"
    and fr: "output_frame target n0 n d w"
  shows "\<exists>w' r. finish_current cd target io w = Some (w', r) \<and> output_frame target n0 n d w' \<and> cw_next w' = cw_next w
    \<and> (r = Inr () \<longrightarrow> cw_current w' = None \<and> (\<exists>bss'. output_inv cd cmpr lay bl target n0 es bss' w'))"
proof -
  obtain sw sid where c: "cw_current w = Some (sw, sid)" using cur by auto
  obtain es' ws where es: "es = concat (map concat bss) @ es'" "es' \<noteq> []" "writer_inv cd cmpr lay bl es' ws sw"
      "unat sid = n0 + length bss" "unat (cw_next w) = Suc (n0 + length bss)"
    using inv c by (auto simp: output_inv_def open_entries_def)
  obtain final tmp res where fin: "sst_finish cd (c_finish io) (cw_disk w (target, sid)) sw = Some (final, tmp, res)"
    using sst_finish_total [OF writer_inv_file [OF es(3)], of cd "c_finish io" "cw_disk w (target, sid)"] by auto
  let ?w1 = "w\<lparr>cw_current := None, cw_disk := (cw_disk w)((target, sid) := final)\<rparr>"
  let ?o = "rbind res (\<lambda>_. rbind (ok_or Io final) (\<lambda>f. if c_open io \<and> length f < 2 ^ 64 then sst_open cd sid target f else Inl Io))"
  have f1: "output_frame target n0 n d ?w1" using fr es(4) by (auto simp: output_frame_def)
  show ?thesis
  proof (cases ?o)
    case (Inl e)
    then show ?thesis using f1 by (simp add: finish_current_def c fin)
  next
    case (Inr r)
    then obtain f where f: "res = Inr ()" "final = Some f" "length f < 2 ^ 64" "sst_open cd sid target f = Inr r"
      by (auto simp: rbind_eq_Inr split: if_splits option.splits) (cases final; auto)
    obtain w2 ws2 bytes where W: "writer_inv cd cmpr lay bl es' ws2 w2" "w_block w2 = []"
      "cd_ser_index cd (index_block_of w2) = Some bytes" "f = concat (map snd ws2) @ bytes @ footer cd (length (concat (map snd ws2))) bytes"
      using sst_finish_file [of cd "c_finish io" "cw_disk w (target, sid)" sw f tmp cmpr lay bl es' ws] fin f es(3) by blast
    have s': "ksorted es'" using s es(1) by (simp add: sorted_wrt_append)
    obtain r' where r': "sst_open cd sid target f = Inr r'" "reader_ok cd r' (map fst ws2)" "concat (map fst ws2) = es'"
      "r_id r' = sid" "r_level r' = target" "r_layout r' = lay" "st_entries (r_stats r') = length es'"
      using written_reader_ok [OF cd s' W f(3) bl, of sid target] by auto
    have rf: "r_file r' = f" using r'(1) by (auto simp: sst_open_def Let_def rbind_eq_Inr split: if_splits)
    have rr: "r' = r" using r'(1) f(4) by simp
    let ?w2 = "?w1\<lparr>cw_new := cw_new w @ [r]\<rparr>"
    have la: "list_all2 (output_file cd lay target (cw_disk w)) (cw_new w) bss"
      and ids: "map (\<lambda>r. unat (r_id r)) (cw_new w) = [n0..<n0 + length bss]" using inv by (simp_all add: output_inv_def)
    have "\<forall>r \<in> set (cw_new w). r_id r \<noteq> sid"
    proof
      fix r0 assume "r0 \<in> set (cw_new w)"
      then have "unat (r_id r0) \<in> set (map (\<lambda>r. unat (r_id r)) (cw_new w))" by auto
      then show "r_id r0 \<noteq> sid" unfolding ids using es(4) by auto
    qed
    then have "list_all2 (output_file cd lay target ((cw_disk w)((target, sid) := final))) (cw_new w) bss"
      using la by (auto simp: list_all2_conv_all_nth output_file_update)
    moreover have "output_file cd lay target ((cw_disk w)((target, sid) := final)) r (map fst ws2)"
      using r' rf f(2) es(2) unfolding rr output_file_def by auto
    ultimately have "output_inv cd cmpr lay bl target n0 es (bss @ [map fst ws2]) ?w2"
      using ids es r'(3,4) rr by (auto simp: output_inv_def open_entries_def list_all2_appendI)
    moreover have "finish_current cd target io w = Some (?w2, Inr ())"
      using Inr by (simp add: finish_current_def c fin)
    moreover have "output_frame target n0 n d ?w2" using f1 by (simp add: output_frame_def)
    ultimately show ?thesis by auto
  qed
qed

text \<open>The output file the next entry goes to.\<close>

lemma ensure_writer_step:
  assumes inv: "output_inv cd (compression opt) lay bl target n0 es bss w"
    and bl: "bl = (if 0 < expected then Some (bloom_new (cd_opt_bits cd) (cd_opt_hashes cd) expected) else None)"
    and n: "n0 + length es < n" "n < 2 ^ 64" and fr: "output_frame target n0 n d w"
    and e: "ensure_writer cd opt lay expected io w = (w1, r)"
  shows "output_frame target n0 n d w1"
    "r = Inr (sw, sid) \<Longrightarrow> cw_current w1 = Some (sw, sid) \<and> cw_disk w1 = cw_disk w \<and> cw_new w1 = cw_new w
      \<and> unat sid = n0 + length bss \<and> unat (cw_next w1) = Suc (n0 + length bss)
      \<and> (\<exists>cur ws. writer_inv cd (compression opt) lay bl cur ws sw \<and> es = concat (map concat bss) @ cur)"
proof -
  have N: "unat (cw_next w) < n" using output_inv_count [OF inv] n(1) by simp
  then have S: "unat (cw_next w + 1) = Suc (unat (cw_next w))" using n(2) by (simp add: unat_Suc_u64)
  show "output_frame target n0 n d w1"
    using e fr N S by (auto simp: ensure_writer_def Let_def output_frame_def split: option.splits sum.splits)
  assume r: "r = Inr (sw, sid)"
  show "cw_current w1 = Some (sw, sid) \<and> cw_disk w1 = cw_disk w \<and> cw_new w1 = cw_new w
      \<and> unat sid = n0 + length bss \<and> unat (cw_next w1) = Suc (n0 + length bss)
      \<and> (\<exists>cur ws. writer_inv cd (compression opt) lay bl cur ws sw \<and> es = concat (map concat bss) @ cur)"
  proof (cases "cw_current w")
    case (Some cur)
    then show ?thesis using e r inv by (auto simp: ensure_writer_def output_inv_def open_entries_def)
  next
    case None
    then have es: "es = concat (map concat bss)" "unat (cw_next w) = n0 + length bss"
      using inv by (auto simp: output_inv_def open_entries_def)
    have c: "sst_create cd (c_create io) (block_size_limit opt) (compression opt) expected lay = Inr sw" "sid = cw_next w"
      "w1 = w\<lparr>cw_next := cw_next w + 1, cw_current := Some (sw, sid), cw_bytes := 0\<rparr>"
      using e r None by (auto simp: ensure_writer_def Let_def split: sum.splits)
    then have "c_create io" by (auto simp: sst_create_def split: if_splits)
    then have "writer_inv cd (compression opt) lay bl [] [] sw" using sst_create_inv [of cd "block_size_limit opt" "compression opt" expected lay sw] c(1) bl by simp
    then show ?thesis using c S es by auto
  qed
qed

lemma write_entry_step:
  assumes cd: "codec_ok cd" and bits: "max (cd_opt_bits cd expected) 8 + 7 < 2 ^ 64"
    and bl: "bl = (if 0 < expected then Some (bloom_new (cd_opt_bits cd) (cd_opt_hashes cd) expected) else None)"
    and inv: "output_inv cd (compression opt) lay bl target n0 es bss w" and s: "ksorted (es @ [(k, v)])"
    and n: "n0 + length es < n" "n < 2 ^ 64" and fr: "output_frame target n0 n d w"
  shows "\<exists>w' r. write_entry cd opt lay expected target io k v w = Some (w', r) \<and> output_frame target n0 n d w'
    \<and> (r = Inr () \<longrightarrow> (\<exists>bss'. output_inv cd (compression opt) lay bl target n0 (es @ [(k, v)]) bss' w'))"
proof -
  obtain w1 r1 where e: "ensure_writer cd opt lay expected io w = (w1, r1)" by (cases "ensure_writer cd opt lay expected io w")
  note E = ensure_writer_step [OF inv bl n fr e]
  show ?thesis
  proof (cases r1)
    case (Inl err)
    then show ?thesis using e E(1) by (simp add: write_entry_def)
  next
    case (Inr cur)
    obtain sw sid where c: "cur = (sw, sid)" by (cases cur)
    obtain es' ws where W: "writer_inv cd (compression opt) lay bl es' ws sw" "es = concat (map concat bss) @ es'"
      using E(2) [of sw sid] Inr c by auto
    obtain sw' r2 where a: "sst_append cd (c_append io) k v sw = Some (sw', r2)"
      using sst_append_total [OF writer_inv_file [OF W(1)], of cd "c_append io" k v] by auto
    let ?w3 = "w1\<lparr>cw_bytes := cw_bytes w1 + (key_byte_size k + slot_byte_size v), cw_current := Some (sw', sid)\<rparr>"
    have f3: "output_frame target n0 n d ?w3" using E(1) by (simp add: output_frame_def)
    show ?thesis
    proof (cases r2)
      case Inl
      then show ?thesis using e a f3 \<open>r1 = Inr cur\<close> c by (simp add: write_entry_def Let_def)
    next
      case (Inr u)
      then obtain ws' where W': "writer_inv cd (compression opt) lay bl (es' @ [(k, v)]) ws' sw'"
        using sst_append_inv [OF W(1), of "c_append io" k v sw'] a by auto
      have i3: "output_inv cd (compression opt) lay bl target n0 (es @ [(k, v)]) bss ?w3"
        using E(2) [of sw sid] \<open>r1 = Inr cur\<close> c W(2) W' inv by (auto simp: output_inv_def open_entries_def)
      have "bloom_bits b \<noteq> 0" if "bl = Some b" for b
        using that bloom_new_bits [of expected "cd_opt_bits cd" "cd_opt_hashes cd"] bits by (auto simp: bl split: if_splits)
      from finish_current_step [OF cd this i3 s _ f3, of io]
      obtain w4 r4 where "finish_current cd target io ?w3 = Some (w4, r4)" "output_frame target n0 n d w4"
        "r4 = Inr () \<longrightarrow> (\<exists>bss'. output_inv cd (compression opt) lay bl target n0 (es @ [(k, v)]) bss' w4)"
        by auto
      then show ?thesis using e a i3 f3 \<open>r1 = Inr cur\<close> c Inr by (auto simp: write_entry_def Let_def)
    qed
  qed
qed

text \<open>
  What one compaction makes of the merged entries: values in the target layout, tombstones only where
  a deeper file may hide an older value.
\<close>

definition compacted :: "(layout \<Rightarrow> 'x dbvalue \<Rightarrow> 'x dbvalue) \<Rightarrow> layout \<Rightarrow> ('x dbkey \<Rightarrow> bool) \<Rightarrow> 'x sst_reader list
    \<Rightarrow> 'x dbkey \<times> 'x slot \<times> nat \<Rightarrow> 'x entry option" where
  "compacted f lay gone rs item =
     (let (k, v, i) = item
      in case v of
           Some val \<Rightarrow> Some (k, Some (if r_layout (rs ! i) \<noteq> lay then f (r_layout (rs ! i)) val else val))
         | None \<Rightarrow> if gone k then None else Some (k, None))"

lemma map_filter_simps:
  "List.map_filter g [] = []"
  "List.map_filter g (x # xs) = (case g x of None \<Rightarrow> List.map_filter g xs | Some y \<Rightarrow> y # List.map_filter g xs)"
  by (simp_all add: List.map_filter_def split: option.split)

lemma compacted_keys: "compacted f lay gone rs x = Some y \<Longrightarrow> fst y = fst x"
  by (auto simp: compacted_def split: prod.splits option.splits if_splits)

lemma compacted_keys_subset: "fst ` set (List.map_filter (compacted f lay gone rs) xs) \<subseteq> fst ` set xs"
proof (induction xs)
  case (Cons x xs)
  then show ?case using compacted_keys [of f lay gone rs x] by (cases "compacted f lay gone rs x") (auto simp: map_filter_simps)
qed (simp add: map_filter_simps)

lemma ksorted_compacted: "ksorted items \<Longrightarrow> ksorted (List.map_filter (compacted f lay gone rs) items)"
proof (induction items)
  case (Cons x xs)
  then have "\<forall>k \<in> fst ` set xs. fst x < k" "ksorted xs" by (simp_all add: ksorted_Cons)
  moreover from this have "\<forall>k \<in> fst ` set (List.map_filter (compacted f lay gone rs) xs). fst x < k"
    using compacted_keys_subset [of f lay gone rs xs] by blast
  ultimately show ?case using Cons.IH compacted_keys [of f lay gone rs x]
    by (cases "compacted f lay gone rs x") (simp_all add: map_filter_simps ksorted_Cons)
qed (simp add: map_filter_simps)

lemma each_item_output:
  assumes cd: "codec_ok cd" and bits: "max (cd_opt_bits cd expected) 8 + 7 < 2 ^ 64"
    and bl: "bl = (if 0 < expected then Some (bloom_new (cd_opt_bits cd) (cd_opt_hashes cd) expected) else None)"
    and rw: "rw_total rw f lay" and src: "\<forall>(k, v, i) \<in> set items. i < length rs"
    and inv: "output_inv cd (compression opt) lay bl target n0 es bss w"
    and s: "ksorted (es @ List.map_filter (compacted f lay (drop_tombstone opt target ranges) rs) items)"
    and n: "n0 + length es + length items \<le> n" "n < 2 ^ 64" and fr: "output_frame target n0 n d w"
  shows "\<exists>w' r. each_item (compact_item cd rw opt lay expected target ranges rs ios) items w = Some (w', r) \<and> output_frame target n0 n d w'
    \<and> (r = Inr () \<longrightarrow> (\<exists>bss'. output_inv cd (compression opt) lay bl target n0
          (es @ List.map_filter (compacted f lay (drop_tombstone opt target ranges) rs) items) bss' w'))"
  using src inv s n(1) fr
proof (induction items arbitrary: es bss w)
  case Nil
  then show ?case by (auto simp: map_filter_simps)
next
  case (Cons x items)
  obtain k v i where x: "x = (k, v, i)" by (cases x)
  let ?w = "w\<lparr>cw_clock := Suc (cw_clock w)\<rparr>" and ?c = "compacted f lay (drop_tombstone opt target ranges) rs"
  have i: "i < length rs" using Cons.prems(1) x by simp
  have w: "output_inv cd (compression opt) lay bl target n0 es bss ?w" "output_frame target n0 n d ?w"
    using Cons.prems(2,5) by (simp_all add: output_inv_def output_frame_def)
  show ?case
  proof (cases "?c x")
    case None
    then have "compact_item cd rw opt lay expected target ranges rs ios x w = Some (?w, Inr ())"
      by (auto simp: compact_item_def compacted_def x Let_def split: option.splits if_splits)
    then show ?thesis using Cons.IH [OF _ w(1) _ _ w(2)] Cons.prems None by (simp add: map_filter_simps)
  next
    case (Some y)
    have step: "compact_item cd rw opt lay expected target ranges rs ios x w = write_entry cd opt lay expected target (ios (cw_clock w)) (fst y) (snd y) ?w"
      using Some rw i by (auto simp: compact_item_def compacted_def x Let_def rewrite_from_def rw_total_def split: option.splits if_splits)
    have "ksorted (es @ [(fst y, snd y)])" "n0 + length es < n"
      using Cons.prems(3,4) Some by (auto simp: map_filter_simps sorted_wrt_append)
    from write_entry_step [OF cd bits bl w(1) this n(2) w(2), of "ios (cw_clock w)"]
    obtain w' r where W: "write_entry cd opt lay expected target (ios (cw_clock w)) (fst y) (snd y) ?w = Some (w', r)" "output_frame target n0 n d w'"
      "r = Inr () \<longrightarrow> (\<exists>bss'. output_inv cd (compression opt) lay bl target n0 (es @ [y]) bss' w')"
      by auto
    show ?thesis
    proof (cases r)
      case Inl
      then show ?thesis using step W by simp
    next
      case (Inr u)
      then obtain bss' where I: "output_inv cd (compression opt) lay bl target n0 (es @ [y]) bss' w'" using W(3) by auto
      have "ksorted ((es @ [y]) @ List.map_filter ?c items)" "n0 + length (es @ [y]) + length items \<le> n"
        using Cons.prems(3,4) Some by (simp_all add: map_filter_simps)
      from Cons.IH [OF _ I this W(2)] show ?thesis using step W(1) Inr Some Cons.prems(1) by (simp add: map_filter_simps)
    qed
  qed
qed

section \<open>The merge of the chosen files\<close>

definition l0_newest :: "'x sst_reader list \<Rightarrow> 'x sst_reader list" where
  "l0_newest files = rev (sort_key r_id (filter (\<lambda>r. r_level r = 0) files))"

definition deeper :: "'x sst_reader list \<Rightarrow> 'x sst_reader list" where
  "deeper files = filter (\<lambda>r. r_level r \<noteq> 0) files"

lemma length_l0_newest: "length (l0_newest files) = length (filter (\<lambda>r. r_level r = 0) files)"
  by (simp add: l0_newest_def)

lemma merge_inputs_eq:
  "merge_inputs files =
     zip (deeper files) [length (l0_newest files)..<length (l0_newest files) + length (deeper files)]
     @ zip (l0_newest files) [0..<length (l0_newest files)]"
proof -
  have "rev (map (\<lambda>(i, r). (r, length l0 - 1 - i)) (List.enumerate 0 l0)) = zip (rev l0) [0..<length l0]" for l0 :: "'a sst_reader list"
    by (rule nth_equalityI) (auto simp: rev_nth nth_enumerate_eq)
  then show ?thesis by (simp add: merge_inputs_def Let_def deeper_def l0_newest_def)
qed

lemma merge_inputs_fst: "map fst (merge_inputs files) = deeper files @ l0_newest files"
  by (simp add: merge_inputs_eq map_fst_zip)

lemma merge_inputs_snd:
  "map snd (merge_inputs files) = [length (l0_newest files)..<length (l0_newest files) + length (deeper files)] @ [0..<length (l0_newest files)]"
  by (simp add: merge_inputs_eq map_snd_zip)

lemma set_merge_inputs: "set (deeper files) \<union> set (l0_newest files) = set files"
  by (auto simp: deeper_def l0_newest_def)

lemma sum_list_sort_key: "sum_list (map g (sort_key h xs)) = (sum_list (map g xs) :: nat)"
proof (induction xs)
  case (Cons x xs)
  have "sum_list (map g (insort_key h x ys)) = g x + sum_list (map g ys)" for ys by (induction ys) auto
  with Cons show ?case by simp
qed simp

lemma sum_list_merge_inputs:
  "sum_list (map g (deeper files @ l0_newest files)) = (sum_list (map g files) :: nat)"
proof -
  have "sum_list (map g (l0_newest files)) = sum_list (map g (filter (\<lambda>r. r_level r = 0) files))"
    by (simp add: l0_newest_def sum_list_sort_key flip: rev_map)
  moreover have "sum_list (map g (filter (\<lambda>r. r_level r \<noteq> 0) xs)) + sum_list (map g (filter (\<lambda>r. r_level r = 0) xs)) = sum_list (map g xs)"
    for xs :: "'a sst_reader list"
    by (induction xs) auto
  ultimately show ?thesis by (simp only: deeper_def map_append sum_list_append)
qed

definition file_rows :: "('x sst_reader \<Rightarrow> 'x entry list list) \<Rightarrow> 'x sst_reader list \<Rightarrow> nat" where
  "file_rows C rs = sum_list (map (\<lambda>r. length (concat (C r))) rs)"

lemma length_merged: "length (merged prios ls) \<le> length (concat ls)"
proof -
  have "card (fst ` set (concat ls)) \<le> length (concat ls)" by (metis card_length list.set_map length_map)
  then show ?thesis by (simp add: merged_def all_keys_def)
qed

definition merge_items :: "('x sst_reader \<Rightarrow> ('x::linorder) entry list list) \<Rightarrow> 'x sst_reader list \<Rightarrow> ('x dbkey \<times> 'x slot \<times> nat) list" where
  "merge_items C files = merged (map snd (merge_inputs files)) (map (\<lambda>r. concat (C r)) (deeper files @ l0_newest files))"

lemma length_merge_items: "length (merge_items C files) \<le> file_rows C files"
proof -
  have "length (merge_items C files) \<le> length (concat (map (\<lambda>r. concat (C r)) (deeper files @ l0_newest files)))"
    unfolding merge_items_def by (rule length_merged)
  also have "\<dots> = file_rows C files"
    using sum_list_merge_inputs [of "\<lambda>r. length (concat (C r))" files] by (simp add: file_rows_def length_concat comp_def)
  finally show ?thesis .
qed

lemma merge_items_index: "(k, v, i) \<in> set (merge_items C files) \<Longrightarrow> i < length (deeper files @ l0_newest files)"
proof -
  assume "(k, v, i) \<in> set (merge_items C files)"
  then have "i = owner (map snd (merge_inputs files)) (map (\<lambda>r. concat (C r)) (deeper files @ l0_newest files)) k"
    "k \<in> set (all_keys (map (\<lambda>r. concat (C r)) (deeper files @ l0_newest files)))"
    by (auto simp: merge_items_def merged_def pick_def)
  moreover from this(2) have "holders (map (\<lambda>r. concat (C r)) (deeper files @ l0_newest files)) k \<noteq> []"
    unfolding set_all_keys in_all_keys .
  ultimately show ?thesis using owner_least(1) by fastforce
qed

definition output_bloom :: "'x sst_codec \<Rightarrow> nat \<Rightarrow> bloom_filter option" where
  "output_bloom cd expected = (if 0 < expected then Some (bloom_new (cd_opt_bits cd) (cd_opt_hashes cd) expected) else None)"

definition output_rows :: "('x sst_reader \<Rightarrow> ('x::linorder) entry list list) \<Rightarrow> (layout \<Rightarrow> 'x dbvalue \<Rightarrow> 'x dbvalue) \<Rightarrow> ('x, 'z) lsm_scheme
    \<Rightarrow> nat \<Rightarrow> 'x sst_reader list \<Rightarrow> 'x entry list" where
  "output_rows C f e target files =
     List.map_filter (compacted f (e_layout e) (drop_tombstone (s_options e) target (lower_level_ranges target e)) (deeper files @ l0_newest files))
       (merge_items C files)"

lemma merge_next_steps:
  assumes "merge_holds cd U it xs"
  shows "case xs of
      [] \<Rightarrow> \<exists>it'. yields (coherent cd U) (merge_next cd it) (Inr (it', None))
    | x # ys \<Rightarrow> \<exists>it'. yields (coherent cd U) (merge_next cd it) (Inr (it', Some x)) \<and> merge_holds cd U it' ys"
  using merge_next_yields [OF assms] by (cases xs) auto

lemma write_output_spec:
  assumes cd: "codec_ok cd" and bits: "max (cd_opt_bits cd (expected_entries files)) 8 + 7 < 2 ^ 64"
    and rw: "rw_total rw f (e_layout e)" and ok: "\<forall>r \<in> set files. reader_ok cd r (C r) \<and> U (r_id r) = Some r"
    and c: "coherent cd U c" and n: "unat (s_next_sst e) + file_rows C files < 2 ^ 64"
  shows "\<exists>w r c'. write_output cd rw io target files e c = Some ((w, r), c') \<and> coherent cd U c'
    \<and> output_frame target (unat (s_next_sst e)) (unat (s_next_sst e) + file_rows C files) (s_disk e) w
    \<and> (r = Inr () \<longrightarrow> cw_current w = None \<and> (\<exists>bss. output_inv cd (compression (s_options e)) (e_layout e) (output_bloom cd (expected_entries files))
           target (unat (s_next_sst e)) (output_rows C f e target files) bss w))"
proof -
  let ?rs = "deeper files @ l0_newest files" and ?rps = "merge_inputs files" and ?lo = "unat (s_next_sst e)"
  let ?ini = "\<lparr>cw_next = s_next_sst e, cw_new = [], cw_current = None, cw_bytes = 0, cw_disk = s_disk e, cw_clock = 0\<rparr>"
  let ?hi = "?lo + file_rows C files" and ?lay = "e_layout e" and ?opt = "s_options e" and ?ex = "expected_entries files"
  have rs: "set ?rs = set files" using set_merge_inputs [of files] by simp
  have fst_rps: "map fst ?rps = ?rs" by (rule merge_inputs_fst)
  have t: "tables_ok cd U ?rps (map C ?rs)"
  proof -
    have "fst rp \<in> set files" if "rp \<in> set ?rps" for rp using that rs fst_rps by (metis image_eqI list.set_map)
    then show ?thesis unfolding fst_rps [symmetric] using ok by (auto simp: tables_ok_def list_all2_map2 list_all2_same)
  qed
  have d: "distinct (map snd ?rps)" unfolding merge_inputs_snd by auto
  obtain its where its: "yields (coherent cd U) (act_map (\<lambda>(r, p). bi_new_with_end cd r None None p) ?rps) (Inr its)"
    "iters_hold cd U None None its ?rps (map C ?rs)"
    using bi_new_all [OF t, of None None] by blast
  have rd: "map bi_reader its = ?rs" using its(2) fst_rps by (simp add: iters_hold_def)
  obtain c1 where c1: "act_map (\<lambda>(r, p). bi_new cd r None p) ?rps c = Some (Inr its, c1)" "coherent cd U c1"
    using yieldsD [OF its(1) c] by (auto simp: bi_new_def)
  have all: "filter (key_range None None) xs = xs" for xs :: "'a entry list"
    by (simp add: key_range_def from_start_def within_def)
  have h: "merge_holds cd U (merge_new its) (merge_items C files)"
    unfolding merge_holds_def using iters_hold_sources [OF its(2) d] its(2)
    by (intro exI [of _ "map C ?rs"] exI [of _ "map (\<lambda>r. concat (C r)) ?rs"])
      (simp add: merge_new_def live_def iters_hold_def merge_items_def all comp_def)
  define g where "g = compact_item cd rw ?opt ?lay ?ex target (lower_level_ranges target e) ?rs (ci_merge io)"
  obtain c2 where c2: "coherent cd U c2"
    "for_each (merge_next cd) g (merge_new its) ?ini c1 = map_option (\<lambda>wr. (wr, c2)) (each_item g (merge_items C files) ?ini)"
    using for_each_runs [where H = "merge_holds cd U" and R = "coherent cd U" and f = "merge_next cd" and g = g, OF merge_next_steps h c1(2)] by blast
  have "ksorted (merge_items C files)" unfolding merge_items_def by (rule merged_ascending)
  then have s: "ksorted (output_rows C f e target files)" unfolding output_rows_def by (rule ksorted_compacted)
  have f0: "output_frame target ?lo ?hi (s_disk e) ?ini" unfolding output_frame_def by simp
  note i0 = output_inv_start [OF refl, where d = "s_disk e" and nx = "s_next_sst e" and cd = cd and cmpr = "compression ?opt" and lay = ?lay
      and bl = "output_bloom cd ?ex" and target = target]
  obtain w r where W: "each_item g (merge_items C files) ?ini = Some (w, r)" "output_frame target ?lo ?hi (s_disk e) w"
    "r = Inr () \<longrightarrow> (\<exists>bss. output_inv cd (compression ?opt) ?lay (output_bloom cd ?ex) target ?lo (output_rows C f e target files) bss w)"
    using each_item_output [OF cd bits output_bloom_def rw _ i0 _ _ n f0, where items = "merge_items C files" and rs = ?rs
        and ranges = "lower_level_ranges target e" and ios = "ci_merge io"] s length_merge_items [of C files] merge_items_index [of _ _ _ C files]
    unfolding g_def output_rows_def by fastforce
  show ?thesis
  proof (cases r)
    case (Inl err)
    then show ?thesis using c1 c2 W by (auto simp: write_output_def g_def [symmetric] rd Let_def)
  next
    case (Inr u)
    then obtain bss where B: "output_inv cd (compression ?opt) ?lay (output_bloom cd ?ex) target ?lo (output_rows C f e target files) bss w"
      using W(3) by auto
    have bl: "bloom_bits b \<noteq> 0" if "output_bloom cd ?ex = Some b" for b
      using that bloom_new_bits [of ?ex "cd_opt_bits cd" "cd_opt_hashes cd"] bits by (auto simp: output_bloom_def split: if_splits)
    have "\<exists>w' r'. finish_last cd target (ci_last io) w = Some (w', r') \<and> output_frame target ?lo ?hi (s_disk e) w'
      \<and> (r' = Inr () \<longrightarrow> cw_current w' = None \<and> (\<exists>bss'. output_inv cd (compression ?opt) ?lay (output_bloom cd ?ex) target ?lo (output_rows C f e target files) bss' w'))"
      using finish_current_step [OF cd bl B s _ W(2), of "ci_last io"] B W(2) by (auto simp: finish_last_def)
    then show ?thesis using c1 c2 W(1) Inr by (auto simp: write_output_def g_def [symmetric] rd Let_def)
  qed
qed

end
