(* ===== verification/Compaction_Correct.thy ===== *)
theory Compaction_Correct
  imports Compaction
begin

text \<open>
  Compaction keeps the contents of the engine: lookups before and after a compaction agree, whatever
  fails on the way; the invariant of the level map is kept; and the loop that compacts while a level is
  due ends. The contents are read level by level; the merge of the chosen files, minus the tombstones
  it may drop, takes their place in the target level.
\<close>

section \<open>Lookups level by level\<close>

lemma first_some_None: "first_some xs = None \<longleftrightarrow> (\<forall>x \<in> set xs. x = None)"
  by (induction xs) (auto split: option.splits)

lemma level_files_Cons: "level_files n ((m, fs) # lv) = (if n = m then fs else level_files n lv)"
  by (simp add: level_files_def)

lemma level_files_below: "\<forall>lf \<in> set lv. n < fst lf \<Longrightarrow> level_files n lv = []"
  by (induction lv) (auto simp: level_files_def)

lemma stack_by_levels:
  assumes "ksorted lv" "\<forall>lf \<in> set lv. a \<le> fst lf \<and> fst lf < b"
  shows "newest (map F (concat (map snd lv))) k = first_some (map (\<lambda>n. newest (map F (level_files n lv)) k) [a..<b])"
  using assms
proof (induction lv arbitrary: a)
  case Nil
  then show ?case by (simp add: level_files_def first_some_None [THEN iffD2])
next
  case (Cons lf lv)
  obtain n fs where lf: "lf = (n, fs)" by (cases lf)
  have n: "a \<le> n" "n < b" and later: "\<forall>lf \<in> set lv. n < fst lf" using Cons.prems lf by auto
  have split: "[a..<b] = [a..<n] @ n # [Suc n..<b]"
    using upt_add_eq_append [of a n "b - n"] upt_conv_Cons [OF n(2)] n by simp
  have "level_files m (lf # lv) = []" if "m \<in> set [a..<n]" for m
    using that level_files_below [of lv m] later by (fastforce simp: lf level_files_Cons)
  then have pre: "first_some (map (\<lambda>m. newest (map F (level_files m (lf # lv))) k) [a..<n]) = None"
    by (auto simp: first_some_None)
  have post: "map (\<lambda>m. newest (map F (level_files m (lf # lv))) k) [Suc n..<b] = map (\<lambda>m. newest (map F (level_files m lv)) k) [Suc n..<b]"
    by (auto simp: lf level_files_Cons)
  have "newest (map F (concat (map snd lv))) k = first_some (map (\<lambda>m. newest (map F (level_files m lv)) k) [Suc n..<b])"
    using Cons.prems later by (intro Cons.IH) (auto simp: Suc_le_eq)
  then show ?case unfolding split map_append first_some_append pre
    by (simp add: post) (simp add: lf level_files_Cons newest_append split: option.split)
qed

lemma stack_files_concat: "ksorted lv \<Longrightarrow> stack_files lv = concat (map snd lv)"
proof (cases lv)
  case (Cons lf lv')
  assume s: "ksorted lv"
  have pos: "fst x \<noteq> 0" if "x \<in> set lv'" for x using s that Cons by auto
  then have "map (\<lambda>(n, fs). if n = 0 then [] else fs) lv' = map snd lv'" by (fastforce intro!: map_cong split: prod.splits)
  then have "deep_files lv' = concat (map snd lv')" unfolding deep_files_def by (rule arg_cong)
  moreover have "level_files 0 lv' = []" using pos by (intro level_files_below) auto
  ultimately show ?thesis by (cases lf) (auto simp: Cons stack_files_def deep_files_def level_files_Cons)
qed (simp add: stack_files_def deep_files_def level_files_def)

text \<open>Where at most one table has the key, their order does not matter.\<close>

lemma newest_unique:
  assumes "\<forall>a \<in> set xs. \<forall>b \<in> set xs. map_of (F a) k \<noteq> None \<longrightarrow> map_of (F b) k \<noteq> None \<longrightarrow> a = b"
  shows "newest (map F xs) k = Some v \<longleftrightarrow> (\<exists>a \<in> set xs. map_of (F a) k = Some v)"
proof -
  have hit: "\<exists>a \<in> set xs. map_of (F a) k = Some w" if "newest (map F xs) k = Some w" for w
    using that unfolding newest_hit by force
  show ?thesis
  proof
    assume "\<exists>a \<in> set xs. map_of (F a) k = Some v"
    then obtain a where a: "a \<in> set xs" "map_of (F a) k = Some v" by blast
    then have "newest (map F xs) k \<noteq> None" unfolding newest_None by auto
    then obtain w where w: "newest (map F xs) k = Some w" by blast
    then obtain b where "b \<in> set xs" "map_of (F b) k = Some w" using hit by blast
    then show "newest (map F xs) k = Some v" using assms a w by (metis option.discI)
  qed (rule hit)
qed

lemma file_entries_keys: "map_of (file_entries C lay f r) k \<noteq> None \<longleftrightarrow> k \<in> fst ` set (concat (C r))"
  by (simp add: file_entries_def map_of_eq_None_iff migrated_def image_image)

definition apart :: "('x sst_reader \<Rightarrow> 'x entry list list) \<Rightarrow> ('x::linorder) sst_reader \<Rightarrow> 'x sst_reader \<Rightarrow> bool" where
  "apart C a b \<longleftrightarrow> r_last_key a < file_lo C b \<or> r_last_key b < file_lo C a"

lemma deep_ok_apart:
  assumes "deep_ok C fs" "a \<in> set fs" "b \<in> set fs" "a \<noteq> b"
  shows "apart C a b"
proof -
  obtain i j where "i < length fs" "j < length fs" "a = fs ! i" "b = fs ! j" "i \<noteq> j"
    using assms(2-4) by (metis in_set_conv_nth)
  then show ?thesis using assms(1) unfolding deep_ok_def apart_def
    by (metis linorder_neq_iff sorted_wrt_nth_less)
qed

lemma file_key_bounds:
  assumes "reader_ok cd r (C r)" "k \<in> fst ` set (concat (C r))"
  shows "file_lo C r \<le> k" "k \<le> r_last_key r"
proof -
  have "C r \<noteq> []" using assms(2) by auto
  from reader_bounds(3) [OF assms(1) this] show "file_lo C r \<le> k" "k \<le> r_last_key r"
    using assms(2) by (auto simp: file_lo_def)
qed

lemma apart_unique:
  assumes "\<forall>a \<in> set fs. reader_ok cd a (C a)" "\<forall>a \<in> set fs. \<forall>b \<in> set fs. a \<noteq> b \<longrightarrow> apart C a b"
  shows "\<forall>a \<in> set fs. \<forall>b \<in> set fs. map_of (file_entries C lay f a) k \<noteq> None \<longrightarrow> map_of (file_entries C lay f b) k \<noteq> None \<longrightarrow> a = b"
proof (intro ballI impI)
  fix a b assume a: "a \<in> set fs" "b \<in> set fs" "map_of (file_entries C lay f a) k \<noteq> None" "map_of (file_entries C lay f b) k \<noteq> None"
  have "file_lo C a \<le> k" "k \<le> r_last_key a" "file_lo C b \<le> k" "k \<le> r_last_key b"
    using file_key_bounds assms(1) a unfolding file_entries_keys by blast+
  then have "\<not> apart C a b" unfolding apart_def by force
  then show "a = b" using assms(2) a by blast
qed

section \<open>Sorting the target level\<close>

lemma set_insert_by [simp]: "set (insert_by c x ys) = insert x (set ys)"
  by (induction ys) auto

lemma set_sort_by [simp]: "set (sort_by c xs) = set xs"
  unfolding sort_by_def by (induction xs) auto

lemma distinct_insert_by: "distinct (insert_by c x ys) \<longleftrightarrow> x \<notin> set ys \<and> distinct ys"
  by (induction ys) auto

lemma distinct_sort_by [simp]: "distinct (sort_by c xs) \<longleftrightarrow> distinct xs"
  using set_sort_by [of c] unfolding sort_by_def by (induction xs) (auto simp: distinct_insert_by)

lemma sorted_insert_by:
  assumes "\<forall>y \<in> set ys. c x y = Greater \<longleftrightarrow> g y < g x" "sorted (map g ys)"
  shows "sorted (map g (insert_by c x ys))"
  using assms by (induction ys) (auto simp: not_less intro: less_imp_le order_trans)

lemma sorted_sort_by:
  assumes "\<forall>x \<in> set xs. \<forall>y \<in> set xs. c x y = Greater \<longleftrightarrow> g y < g x"
  shows "sorted (map g (sort_by c xs))"
  using assms
proof (induction xs)
  case (Cons x xs)
  have "set (foldr (insert_by c) xs []) = set xs" using set_sort_by [of c xs] by (simp add: sort_by_def)
  then show ?case using Cons sorted_insert_by [of "sort_by c xs" c x g] by (simp add: sort_by_def)
qed (simp add: sort_by_def)

lemma sort_by_first_key:
  assumes ok: "\<forall>r \<in> set fs. reader_ok cd r (C r) \<and> C r \<noteq> []" and d: "distinct fs"
    and ap: "\<forall>a \<in> set fs. \<forall>b \<in> set fs. a \<noteq> b \<longrightarrow> apart C a b"
  shows "deep_ok C (sort_by first_key_cmp fs)"
proof -
  let ?fs = "sort_by first_key_cmp fs"
  have fk: "sst_first_key r = Some (file_lo C r)" if "r \<in> set fs" for r
    using reader_bounds(1) ok that by (auto simp: file_lo_def)
  then have "sorted (map (file_lo C) ?fs)"
    by (intro sorted_sort_by) (auto simp: first_key_cmp_def cmp_def)
  then have s: "file_lo C (?fs ! i) \<le> file_lo C (?fs ! j)" if "i < j" "j < length ?fs" for i j
    using that by (simp add: sorted_iff_nth_mono_less)
  have "r_last_key (?fs ! i) < file_lo C (?fs ! j)" if ij: "i < j" "j < length ?fs" for i j
  proof -
    have m: "?fs ! i \<in> set fs" "?fs ! j \<in> set fs" using ij set_sort_by [of first_key_cmp fs] nth_mem by (metis order.strict_trans)+
    have "?fs ! i \<noteq> ?fs ! j" using ij d by (simp add: nth_eq_iff_index_eq)
    then have "apart C (?fs ! i) (?fs ! j)" using ap m by blast
    moreover have "file_lo C (?fs ! j) \<le> r_last_key (?fs ! j)" using reader_bounds(4) ok m(2) by (auto simp: file_lo_def)
    ultimately show ?thesis using s [OF ij] by (auto simp: apart_def)
  qed
  then show ?thesis using ok by (simp add: deep_ok_def sorted_wrt_iff_nth_less)
qed

section \<open>The invariant\<close>

lemma level_files_map: "(\<And>n. g n [] = []) \<Longrightarrow> level_files n (map (\<lambda>(n, fs). (n, g n fs)) lv) = g n (level_files n lv)"
  by (induction lv) (auto simp: level_files_def)

lemma level_files_in: "ksorted lv \<Longrightarrow> (n, fs) \<in> set lv \<Longrightarrow> level_files n lv = fs"
  by (simp add: level_files_def map_of_is_SomeI ksorted_distinct)

lemma level_files_mem: "r \<in> set (level_files n lv) \<Longrightarrow> \<exists>fs. (n, fs) \<in> set lv \<and> fs = level_files n lv"
  by (cases "map_of lv n") (auto simp: level_files_def dest: map_of_SomeD)

lemma set_stack_files: "ksorted lv \<Longrightarrow> set (stack_files lv) = (\<Union>n. set (level_files n lv))"
proof -
  assume s: "ksorted lv"
  have "set (stack_files lv) = (\<Union>lf \<in> set lv. set (snd lf))" by (simp add: stack_files_concat [OF s])
  also have "\<dots> = (\<Union>n. set (level_files n lv))"
  proof (intro equalityI subsetI)
    fix r assume "r \<in> (\<Union>lf \<in> set lv. set (snd lf))"
    then obtain n fs where "(n, fs) \<in> set lv" "r \<in> set fs" by auto
    then show "r \<in> (\<Union>n. set (level_files n lv))" using level_files_in [OF s] by blast
  next
    fix r assume "r \<in> (\<Union>n. set (level_files n lv))"
    then show "r \<in> (\<Union>lf \<in> set lv. set (snd lf))" using level_files_mem [of r _ lv] by force
  qed
  finally show ?thesis .
qed

lemma files_ok_levels:
  "files_ok cd U C lv \<longleftrightarrow>
     ksorted lv \<and> (\<forall>n. \<forall>r \<in> set (level_files n lv). reader_ok cd r (C r) \<and> U (r_id r) = Some r)
   \<and> (\<forall>n. n \<noteq> 0 \<longrightarrow> deep_ok C (level_files n lv))" (is "_ = ?r")
proof
  assume ok: "files_ok cd U C lv"
  have "deep_ok C (level_files n lv)" if "n \<noteq> 0" for n
  proof (cases "map_of lv n")
    case (Some fs)
    from files_okD(2) [OF ok map_of_SomeD [OF Some]] show ?thesis using that Some by (simp add: level_files_def)
  qed (simp add: level_files_def deep_ok_def)
  moreover have "ksorted lv" using ok by (simp add: files_ok_def)
  moreover have "\<forall>n. \<forall>r \<in> set (level_files n lv). reader_ok cd r (C r) \<and> U (r_id r) = Some r"
    by (intro allI ballI) (rule files_okD(1) [OF ok])
  ultimately show ?r by simp
next
  assume r: ?r
  moreover have "snd lf = level_files (fst lf) lv" if "lf \<in> set lv" for lf
    using that level_files_in [of lv "fst lf" "snd lf"] r by simp
  ultimately show "files_ok cd U C lv" unfolding files_ok_def by simp
qed

definition lsm_inv :: "('x::linorder) sst_codec \<Rightarrow> (u64 \<rightharpoonup> 'x sst_reader) \<Rightarrow> ('x sst_reader \<Rightarrow> 'x entry list list)
    \<Rightarrow> ('x, 'z) lsm_scheme \<Rightarrow> bool" where
  "lsm_inv cd U C e \<longleftrightarrow>
     read_inv cd U C e
   \<and> (\<forall>n. \<forall>r \<in> set (level_files n (e_sstables e)).
        r_level r = n \<and> C r \<noteq> [] \<and> s_disk e (n, r_id r) = Some (r_file r) \<and> n \<le> max_level (s_options e)
      \<and> st_entries (r_stats r) = length (concat (C r)))
   \<and> sorted_wrt (\<lambda>a b. r_id b < r_id a) (level_files 0 (e_sstables e))
   \<and> (\<forall>i r. U i = Some r \<longrightarrow> unat i < unat (s_next_sst e))"

lemma lsm_invD:
  assumes "lsm_inv cd U C e"
  shows "ksorted (e_sstables e)" "n \<noteq> 0 \<Longrightarrow> deep_ok C (level_files n (e_sstables e))"
    "r \<in> set (level_files n (e_sstables e)) \<Longrightarrow> reader_ok cd r (C r) \<and> U (r_id r) = Some r"
    "r \<in> set (level_files n (e_sstables e)) \<Longrightarrow>
       r_level r = n \<and> C r \<noteq> [] \<and> s_disk e (n, r_id r) = Some (r_file r) \<and> n \<le> max_level (s_options e)
     \<and> st_entries (r_stats r) = length (concat (C r))"
    "r \<in> set (level_files n (e_sstables e)) \<Longrightarrow> sst_first_key r = Some (file_lo C r) \<and> file_lo C r \<le> r_last_key r"
    "r \<in> set (level_files n (e_sstables e)) \<Longrightarrow> unat (r_id r) < unat (s_next_sst e)"
proof -
  have F: "files_ok cd U C (e_sstables e)" using assms by (simp add: lsm_inv_def read_inv_def)
  then show "ksorted (e_sstables e)" "n \<noteq> 0 \<Longrightarrow> deep_ok C (level_files n (e_sstables e))" by (simp_all add: files_ok_levels)
  assume r: "r \<in> set (level_files n (e_sstables e))"
  then show R: "reader_ok cd r (C r) \<and> U (r_id r) = Some r" using F by (simp add: files_ok_levels)
  show L: "r_level r = n \<and> C r \<noteq> [] \<and> s_disk e (n, r_id r) = Some (r_file r) \<and> n \<le> max_level (s_options e)
     \<and> st_entries (r_stats r) = length (concat (C r))"
    using r assms by (simp add: lsm_inv_def)
  show "sst_first_key r = Some (file_lo C r) \<and> file_lo C r \<le> r_last_key r"
    using reader_bounds(1,4) [of cd r "C r"] R L by (simp add: file_lo_def)
  show "unat (r_id r) < unat (s_next_sst e)" using assms R unfolding lsm_inv_def by blast
qed

lemma lsm_inv_same_id:
  assumes "lsm_inv cd U C e" "a \<in> set (level_files n (e_sstables e))" "b \<in> set (level_files m (e_sstables e))" "r_id a = r_id b"
  shows "a = b"
proof -
  have "U (r_id a) = Some a" "U (r_id b) = Some b" using lsm_invD(3) [OF assms(1)] assms(2,3) by blast+
  then show ?thesis unfolding assms(4) by (metis option.inject)
qed

lemma swap_levels_files:
  "level_files n (swap_levels s S T new lv) =
     (if n = Suc s then sort_by first_key_cmp (filter (\<lambda>r. r_id r \<notin> r_id ` set T) (level_files n lv) @ new)
      else if n = s then filter (\<lambda>r. r_id r \<notin> r_id ` set S) (level_files n lv)
      else level_files n lv)"
proof -
  let ?lv1 = "map (\<lambda>(n, fs). (n, if n = s then filter (\<lambda>r. r_id r \<notin> r_id ` set S) fs else fs)) lv"
  have l: "level_files m ?lv1 = (if m = s then filter (\<lambda>r. r_id r \<notin> r_id ` set S) (level_files m lv) else level_files m lv)" for m
    by (rule level_files_map) simp
  have "level_files n (bt_insert (Suc s) x ?lv1) = (if n = Suc s then x else level_files n ?lv1)" for x
    by (simp add: level_files_def)
  then show ?thesis unfolding swap_levels_def Let_def l by (simp add: l)
qed

lemma ksorted_swap_levels: "ksorted lv \<Longrightarrow> ksorted (swap_levels s S T new lv)"
proof -
  have "map fst (map (\<lambda>(n, fs). (n, g n fs)) lv) = map fst lv" for g :: "nat \<Rightarrow> 'a sst_reader list \<Rightarrow> 'a sst_reader list"
    by (induction lv) auto
  then show "ksorted lv \<Longrightarrow> ksorted (swap_levels s S T new lv)"
    unfolding swap_levels_def Let_def by (intro ksorted_bt_insert) (simp only:)
qed

section \<open>What is merged\<close>

text \<open>The files a compaction of level \<open>s\<close> merges: \<open>S\<close> of that level, \<open>T\<close> of the next one.\<close>

definition merge_plan :: "(('x::linorder) sst_reader \<Rightarrow> 'x entry list list) \<Rightarrow> ('x, 'z) lsm_scheme \<Rightarrow> nat \<Rightarrow> 'x sst_reader list
    \<Rightarrow> 'x sst_reader list \<Rightarrow> bool" where
  "merge_plan C e s S T \<longleftrightarrow>
     S \<noteq> [] \<and> set S \<subseteq> set (level_files s (e_sstables e)) \<and> (s = 0 \<longrightarrow> S = level_files 0 (e_sstables e)) \<and> (s \<noteq> 0 \<longrightarrow> (\<exists>x. S = [x]))
   \<and> Suc s \<le> max_level (s_options e)
   \<and> (\<exists>mn mx. T = filter (\<lambda>r. file_lo C r \<le> mx \<and> mn \<le> r_last_key r) (level_files (Suc s) (e_sstables e))
              \<and> (\<forall>r \<in> set S. mn \<le> file_lo C r \<and> r_last_key r \<le> mx))"

lemma find_mem: "List.find P xs = Some x \<Longrightarrow> x \<in> set xs"
  by (auto simp: find_Some_iff)

lemma select_sources_props:
  "set (select_sources s e) \<subseteq> set (level_files s (e_sstables e))"
  "s = 0 \<Longrightarrow> select_sources s e = level_files 0 (e_sstables e)"
  "s \<noteq> 0 \<Longrightarrow> select_sources s e \<noteq> [] \<Longrightarrow> \<exists>x. select_sources s e = [x]"
  "select_sources s e = [] \<longleftrightarrow> level_files s (e_sstables e) = []"
proof -
  show "set (select_sources s e) \<subseteq> set (level_files s (e_sstables e))"
  proof (cases "level_files s (e_sstables e)")
    case (Cons x xs)
    then show ?thesis
      by (cases "s_last_compacted e s") (auto simp: select_sources_def Let_def Cons simp del: find.simps split: option.split dest: find_mem)
  qed (simp add: select_sources_def)
qed (auto simp: select_sources_def Let_def split: list.splits)

lemma widen_range:
  assumes "foldl widen mm rs = (mn, mx)" "\<forall>r \<in> set rs. sst_first_key r = Some (lo r)"
  shows "(\<forall>r \<in> set rs. \<exists>m M. mn = Some m \<and> mx = Some M \<and> m \<le> lo r \<and> r_last_key r \<le> M)
    \<and> (\<forall>m0. fst mm = Some m0 \<longrightarrow> (\<exists>m. mn = Some m \<and> m \<le> m0)) \<and> (\<forall>m0. snd mm = Some m0 \<longrightarrow> (\<exists>m. mx = Some m \<and> m0 \<le> m))"
  using assms
proof (induction rs arbitrary: mm)
  case (Cons r rs)
  obtain m0 M0 where mm: "mm = (m0, M0)" by (cases mm)
  have "sst_first_key r = Some (lo r)" using Cons.prems(2) by simp
  then have "\<exists>a b. widen mm r = (Some a, Some b) \<and> a \<le> lo r \<and> r_last_key r \<le> b
      \<and> (\<forall>m. m0 = Some m \<longrightarrow> a \<le> m) \<and> (\<forall>m. M0 = Some m \<longrightarrow> m \<le> b)"
    by (cases m0; cases M0) (auto simp: widen_def mm not_less)
  then obtain a b where w: "widen mm r = (Some a, Some b)" "a \<le> lo r" "r_last_key r \<le> b"
      "\<forall>m. m0 = Some m \<longrightarrow> a \<le> m" "\<forall>m. M0 = Some m \<longrightarrow> m \<le> b" by blast
  have IH: "\<forall>r \<in> set rs. \<exists>m M. mn = Some m \<and> mx = Some M \<and> m \<le> lo r \<and> r_last_key r \<le> M"
    "\<exists>m. mn = Some m \<and> m \<le> a" "\<exists>m. mx = Some m \<and> b \<le> m"
    using Cons.IH [of "widen mm r"] Cons.prems w(1) by simp_all
  from IH(2,3) obtain m M where mM: "mn = Some m" "m \<le> a" "mx = Some M" "b \<le> M" by blast
  show ?case
  proof (intro conjI ballI allI impI)
    show "\<exists>m M. mn = Some m \<and> mx = Some M \<and> m \<le> lo x \<and> r_last_key x \<le> M" if "x \<in> set (r # rs)" for x
      using that IH(1) mM w(2,3) by auto
    show "\<exists>m. mn = Some m \<and> m \<le> y" if "fst mm = Some y" for y using that mM w(4) mm by auto
    show "\<exists>m. mx = Some m \<and> y \<le> m" if "snd mm = Some y" for y using that mM w(5) mm by auto
  qed
qed simp

lemma overlapping_eq:
  assumes "\<forall>r \<in> set ts. sst_first_key r = Some (lo r)"
  shows "overlapping t mn mx ts = Inr (filter (\<lambda>r. lo r \<le> mx \<and> mn \<le> r_last_key r) ts)"
  using assms by (induction ts) auto

lemma compaction_plan:
  assumes inv: "lsm_inv cd U C e" and S: "S = select_sources s e" "S \<noteq> []" and m: "Suc s \<le> max_level (s_options e)"
  shows "\<exists>T. overlapping_targets (Suc s) S e = Inr T \<and> merge_plan C e s S T"
proof -
  let ?lv = "e_sstables e"
  have sub: "set S \<subseteq> set (level_files s ?lv)" using select_sources_props(1) S(1) by blast
  have fk: "\<forall>r \<in> set (level_files n ?lv). sst_first_key r = Some (file_lo C r)" for n using lsm_invD(5) [OF inv] by blast
  obtain mn mx where r: "source_range S = (mn, mx)" by (cases "source_range S")
  have W: "\<forall>r \<in> set S. \<exists>a b. mn = Some a \<and> mx = Some b \<and> a \<le> file_lo C r \<and> r_last_key r \<le> b"
    using widen_range [of "(None, None)" S mn mx "file_lo C"] r sub fk [of s] by (auto simp: source_range_def)
  then obtain a b where ab: "mn = Some a" "mx = Some b" using S(2) by (cases S) auto
  have "overlapping_targets (Suc s) S e = Inr (filter (\<lambda>r. file_lo C r \<le> b \<and> a \<le> r_last_key r) (level_files (Suc s) ?lv))"
    using overlapping_eq [OF fk] by (simp add: overlapping_targets_def r ab)
  moreover have "\<forall>r \<in> set S. a \<le> file_lo C r \<and> r_last_key r \<le> b" using W ab by simp
  ultimately show ?thesis
    using S m sub select_sources_props(2,3) [of s e] unfolding merge_plan_def by blast
qed

lemma plan_files:
  assumes "lsm_inv cd U C e" "merge_plan C e s S T"
  shows "r \<in> set S \<Longrightarrow> r \<in> set (level_files s (e_sstables e))"
    "r \<in> set T \<Longrightarrow> r \<in> set (level_files (Suc s) (e_sstables e))"
    "r \<in> set (S @ T) \<Longrightarrow> reader_ok cd r (C r) \<and> U (r_id r) = Some r \<and> C r \<noteq> []"
proof -
  show S: "r \<in> set (level_files s (e_sstables e))" if "r \<in> set S" using that assms(2) by (auto simp: merge_plan_def)
  show T: "r \<in> set (level_files (Suc s) (e_sstables e))" if "r \<in> set T" using that assms(2) by (auto simp: merge_plan_def)
  assume "r \<in> set (S @ T)"
  then have "r \<in> set S \<or> r \<in> set T" by simp
  then show "reader_ok cd r (C r) \<and> U (r_id r) = Some r \<and> C r \<noteq> []"
    using S T lsm_invD(3,4) [OF assms(1)] by blast
qed

lemma sort_key_descending:
  fixes h :: "'a \<Rightarrow> 'b::linorder"
  assumes "sorted_wrt (\<lambda>a b. h b < h a) xs"
  shows "sort_key h xs = rev xs"
proof -
  have "sorted_wrt (<) (map h (rev xs))" using assms by (simp add: sorted_wrt_rev sorted_wrt_map flip: rev_map)
  then have r: "sorted (map h (rev xs))" "distinct (map h (rev xs))" by (simp_all add: strict_sorted_iff)
  then have "inj_on h (set xs)" "distinct xs" by (simp_all add: distinct_map)
  with r show ?thesis by (intro map_sorted_distinct_set_unique [where f = h]) (simp_all add: distinct_map)
qed

lemma plan_order:
  assumes inv: "lsm_inv cd U C e" and plan: "merge_plan C e s S T"
  shows "l0_newest (S @ T) @ deeper (S @ T) = S @ T"
proof -
  have lS: "\<forall>r \<in> set S. r_level r = s" using plan_files(1) [OF inv plan] lsm_invD(4) [OF inv] by blast
  have lT: "\<forall>r \<in> set T. r_level r = Suc s" using plan_files(2) [OF inv plan] lsm_invD(4) [OF inv] by blast
  show ?thesis
  proof (cases "s = 0")
    case True
    then have "sorted_wrt (\<lambda>a b. r_id b < r_id a) S" using inv plan by (auto simp: lsm_inv_def merge_plan_def)
    from sort_key_descending [OF this] show ?thesis using lS lT True
      by (simp add: l0_newest_def deeper_def filter_True filter_False filter_empty_conv)
  next
    case False
    then have "filter (\<lambda>r. r_level r = 0) (S @ T) = []" "filter (\<lambda>r. r_level r \<noteq> 0) (S @ T) = S @ T"
      using lS lT by (auto simp: filter_empty_conv filter_id_conv)
    then show ?thesis by (simp add: l0_newest_def deeper_def)
  qed
qed

lemma map_of_compacted:
  assumes "ksorted xs"
  shows "map_of (List.map_filter (compacted f lay gone rs) xs) k =
    (case map_of xs k of None \<Rightarrow> None | Some vi \<Rightarrow> map_option snd (compacted f lay gone rs (k, vi)))"
  using assms
proof (induction xs)
  case (Cons x xs)
  obtain k0 vi where x: "x = (k0, vi)" by (cases x)
  have rest: "map_of xs k0 = None" "ksorted xs" using Cons.prems x by (auto simp: ksorted_Cons map_of_eq_None_iff)
  have key: "compacted f lay gone rs x = Some y \<Longrightarrow> fst y = k0" for y using compacted_keys x by fastforce
  show ?case
  proof (cases "compacted f lay gone rs x")
    case None
    then show ?thesis using Cons.IH [OF rest(2)] rest(1) x by (auto simp: map_filter_simps split: option.split)
  next
    case (Some y)
    then show ?thesis using Cons.IH [OF rest(2)] key [OF Some] x by (cases y) (auto simp: map_filter_simps)
  qed
qed (simp add: map_filter_simps)

abbreviation target_gone :: "('x::linorder, 'z) lsm_scheme \<Rightarrow> nat \<Rightarrow> 'x dbkey \<Rightarrow> bool" where
  "target_gone e t \<equiv> drop_tombstone (s_options e) t (lower_level_ranges t e)"

lemma output_rows_lookup:
  "map_of (output_rows C f e t files) k =
    (case newest (map (file_entries C (e_layout e) f) (l0_newest files @ deeper files)) k of
       None \<Rightarrow> None
     | Some v \<Rightarrow> if v = None \<and> target_gone e t k then None else Some v)"
proof -
  let ?rs = "deeper files @ l0_newest files" and ?lay = "e_layout e"
  let ?m = "length (deeper files)" and ?c = "length (l0_newest files)"
  let ?mig = "\<lambda>i. map_option (\<lambda>v. if r_layout (?rs ! i) \<noteq> ?lay then f (r_layout (?rs ! i)) v else v)"
  have "map (\<lambda>i. ?rs ! i) ([?m..<?m + ?c] @ [0..<?m]) = l0_newest files @ deeper files"
    by (rule nth_equalityI) (auto simp: nth_append)
  then have order: "map (\<lambda>i. file_entries C ?lay f (?rs ! i)) (by_priority (map snd (merge_inputs files)))
      = map (file_entries C ?lay f) (l0_newest files @ deeper files)"
    unfolding merge_inputs_snd by_priority_split by (simp only: map_map [symmetric, unfolded comp_def])
  have len: "length (map snd (merge_inputs files)) = length (map (\<lambda>r. concat (C r)) ?rs)"
    unfolding merge_inputs_snd by simp
  have mig: "map_of (file_entries C ?lay f (?rs ! i)) k = map_option (?mig i) (map_of (map (\<lambda>r. concat (C r)) ?rs ! i) k)"
    if "i < length (map (\<lambda>r. concat (C r)) ?rs)" for i
    unfolding file_entries_def map_of_migrated using that by (simp only: nth_map length_map)
  have N: "newest (map (file_entries C ?lay f) (l0_newest files @ deeper files)) k
      = (case map_of (merge_items C files) k of None \<Rightarrow> None | Some (v, i) \<Rightarrow> Some (?mig i v))"
    unfolding order [symmetric] merge_items_def by (rule newest_by_priority [OF len mig])
  have s: "ksorted (merge_items C files)" unfolding merge_items_def by (rule merged_ascending)
  show ?thesis
  proof (cases "map_of (merge_items C files) k")
    case (Some vi)
    obtain v i where "vi = (v, i)" by (cases vi)
    then show ?thesis unfolding N output_rows_def map_of_compacted [OF s] Some by (cases v) (simp_all add: compacted_def)
  next
    case None
    then show ?thesis unfolding N output_rows_def map_of_compacted [OF s] by simp
  qed
qed

text \<open>A target file that is not merged lies below or above everything that is.\<close>

lemma kept_beside:
  assumes inv: "lsm_inv cd U C e" and plan: "merge_plan C e s S T"
    and u: "u \<in> set (level_files (Suc s) (e_sstables e))" "u \<notin> set T"
  shows "(\<forall>r \<in> set (S @ T). r_last_key r < file_lo C u) \<or> (\<forall>r \<in> set (S @ T). r_last_key u < file_lo C r)"
proof -
  obtain mn mx where T: "T = filter (\<lambda>r. file_lo C r \<le> mx \<and> mn \<le> r_last_key r) (level_files (Suc s) (e_sstables e))"
      and S: "\<forall>r \<in> set S. mn \<le> file_lo C r \<and> r_last_key r \<le> mx" using plan by (auto simp: merge_plan_def)
  have ap: "apart C r u" if "r \<in> set T" for r
    using deep_ok_apart [OF lsm_invD(2) [OF inv], of "Suc s" r u] that u plan_files(2) [OF inv plan] by auto
  have ord: "file_lo C r \<le> r_last_key r" if "r \<in> set (level_files (Suc s) (e_sstables e))" for r using lsm_invD(5) [OF inv that] by simp
  from u have "mx < file_lo C u \<or> r_last_key u < mn" by (auto simp: T)
  then show ?thesis
  proof
    assume a: "mx < file_lo C u"
    have "r_last_key r < file_lo C u" if "r \<in> set T" for r
      using ap [OF that] that a ord [OF u(1)] by (auto simp: T apart_def)
    then show ?thesis using S a by fastforce
  next
    assume a: "r_last_key u < mn"
    have "r_last_key u < file_lo C r" if "r \<in> set T" for r
      using ap [OF that] that a ord [OF u(1)] by (auto simp: T apart_def)
    then show ?thesis using S a by fastforce
  qed
qed

section \<open>The new files\<close>

definition new_contents :: "'x sst_reader list \<Rightarrow> 'x entry list list list \<Rightarrow> ('x sst_reader \<Rightarrow> 'x entry list list) \<Rightarrow> 'x sst_reader \<Rightarrow> 'x entry list list" where
  "new_contents new bss C = (\<lambda>r. case map_of (zip new bss) r of Some bs \<Rightarrow> bs | None \<Rightarrow> C r)"

definition new_readers :: "'x sst_reader list \<Rightarrow> (u64 \<rightharpoonup> 'x sst_reader) \<Rightarrow> (u64 \<rightharpoonup> 'x sst_reader)" where
  "new_readers new U = U ++ map_of (map (\<lambda>r. (r_id r, r)) new)"

definition written :: "('x::linorder) sst_codec \<Rightarrow> layout \<Rightarrow> nat \<Rightarrow> disk \<Rightarrow> nat \<Rightarrow> 'x entry list \<Rightarrow> 'x sst_reader list \<Rightarrow> 'x entry list list list \<Rightarrow> bool" where
  "written cd lay t d n0 rows new bss \<longleftrightarrow>
     list_all2 (output_file cd lay t d) new bss \<and> map (\<lambda>r. unat (r_id r)) new = [n0..<n0 + length bss]
   \<and> rows = concat (map concat bss) \<and> ksorted rows"

lemma ksorted_concat_less:
  assumes "ksorted (concat ls)" "i < j" "j < length ls" "x \<in> set (ls ! i)" "y \<in> set (ls ! j)"
  shows "fst x < fst y"
  using assms
proof (induction ls arbitrary: i j)
  case (Cons l ls)
  obtain j' where j: "j = Suc j'" using Cons.prems(2) by (cases j) auto
  have s: "ksorted (concat ls)" "\<forall>a \<in> fst ` set l. \<forall>b \<in> fst ` set (concat ls). a < b"
    using Cons.prems(1) unfolding concat.simps ksorted_append by blast+
  show ?case
  proof (cases i)
    case 0
    then have "x \<in> set l" "y \<in> set (concat ls)" using Cons.prems(3-5) j by auto
    then show ?thesis using s(2) by blast
  next
    case (Suc i')
    then show ?thesis using Cons.IH [OF s(1), of i' j'] Cons.prems j by simp
  qed
qed simp

lemma written_ids:
  assumes "written cd lay t d n0 rows new bss"
  shows "distinct new" "inj_on r_id (set new)" "r \<in> set new \<Longrightarrow> n0 \<le> unat (r_id r)" "length new = length bss"
    "r \<in> set new \<Longrightarrow> unat (r_id r) < n0 + length bss"
proof -
  have ids: "map (\<lambda>r. unat (r_id r)) new = [n0..<n0 + length bss]" using assms by (simp add: written_def)
  then have "distinct (map (\<lambda>r. unat (r_id r)) new)" by simp
  then show "distinct new" "inj_on r_id (set new)" by (auto simp: distinct_map inj_on_def)
  have "unat (r_id r) \<in> set [n0..<n0 + length bss]" if "r \<in> set new" using that unfolding ids [symmetric] by auto
  then show "r \<in> set new \<Longrightarrow> n0 \<le> unat (r_id r)" "r \<in> set new \<Longrightarrow> unat (r_id r) < n0 + length bss" by auto
  show "length new = length bss" using assms by (auto simp: written_def dest: list_all2_lengthD)
qed

lemma new_contents_nth:
  assumes "written cd lay t d n0 rows new bss" "i < length new"
  shows "new_contents new bss C (new ! i) = bss ! i"
  using assms(2) written_ids(1,4) [OF assms(1)]
  by (simp add: new_contents_def map_of_zip_nth)

lemma map_new_contents: "written cd lay t d n0 rows new bss \<Longrightarrow> map (new_contents new bss C) new = bss"
  using new_contents_nth written_ids(4) by (metis (no_types, lifting) nth_equalityI length_map nth_map)

lemma written_file:
  assumes w: "written cd lay t d n0 rows new bss" and r: "r \<in> set new"
  shows "reader_ok cd r (new_contents new bss C r) \<and> new_contents new bss C r \<noteq> [] \<and> r_layout r = lay \<and> r_level r = t
    \<and> d (t, r_id r) = Some (r_file r) \<and> new_readers new U (r_id r) = Some r \<and> set (concat (new_contents new bss C r)) \<subseteq> set rows
    \<and> st_entries (r_stats r) = length (concat (new_contents new bss C r))"
proof -
  obtain i where i: "i < length new" "r = new ! i" using r by (auto simp: in_set_conv_nth)
  have o: "output_file cd lay t d r (bss ! i)" using w i by (auto simp: written_def list_all2_conv_all_nth)
  have "map_of (map (\<lambda>r. (r_id r, r)) new) (r_id r) = Some r"
    using r written_ids(1,2) [OF w] by (intro map_of_is_SomeI) (auto simp: distinct_map comp_def)
  then have "new_readers new U (r_id r) = Some r" by (simp add: new_readers_def)
  moreover have "set (concat (bss ! i)) \<subseteq> set rows"
    using w i(1) written_ids(4) [OF w] by (fastforce simp: written_def)
  ultimately show ?thesis using o new_contents_nth [OF w i(1), of C] i(2) by (simp add: output_file_def)
qed

lemma written_apart:
  assumes w: "written cd lay t d n0 rows new bss" and r: "a \<in> set new" "b \<in> set new" "a \<noteq> b"
  shows "apart (new_contents new bss C) a b"
proof -
  have step: "r_last_key (new ! i) < file_lo (new_contents new bss C) (new ! j)" if ij: "i < j" "j < length new" for i j
  proof -
    have m: "new ! i \<in> set new" "new ! j \<in> set new" using ij by auto
    note F = written_file [OF w, of _ C "\<lambda>_. None"]
    have "ksorted (concat (map concat bss))" using w unfolding written_def by blast
    moreover have "new_contents new bss C (new ! i) = bss ! i" "new_contents new bss C (new ! j) = bss ! j"
      using ij new_contents_nth [OF w] by simp_all
    moreover from this have "reader_ok cd (new ! i) (bss ! i)" "bss ! i \<noteq> []" "reader_ok cd (new ! j) (bss ! j)" "bss ! j \<noteq> []"
      using F m by metis+
    moreover from this have ne: "concat (bss ! i) \<noteq> []" "concat (bss ! j) \<noteq> []" using reader_bounds(2) by blast+
    moreover have "r_last_key (new ! i) = fst (last (concat (bss ! i)))"
      using calculation by (simp add: reader_ok_def)
    ultimately show ?thesis
      using ksorted_concat_less [of "map concat bss" i j "last (concat (bss ! i))" "hd (concat (bss ! j))"] ij written_ids(4) [OF w]
        last_in_set [OF ne(1)] hd_in_set [OF ne(2)]
      by (simp add: file_lo_def)
  qed
  obtain i j where "i < length new" "j < length new" "a = new ! i" "b = new ! j" "i \<noteq> j"
    using r by (metis in_set_conv_nth)
  then show ?thesis using step [of i j] step [of j i] by (auto simp: apart_def neq_iff)
qed

section \<open>The levels after the swap\<close>

text \<open>
  The facts about one compaction that the following lemmas share: the plan, and what was written for it.
\<close>

definition compaction_done :: "('x::linorder) sst_codec \<Rightarrow> (u64 \<rightharpoonup> 'x sst_reader) \<Rightarrow> ('x sst_reader \<Rightarrow> 'x entry list list)
    \<Rightarrow> (layout \<Rightarrow> 'x dbvalue \<Rightarrow> 'x dbvalue) \<Rightarrow> ('x, 'z) lsm_scheme \<Rightarrow> nat \<Rightarrow> 'x sst_reader list \<Rightarrow> 'x sst_reader list \<Rightarrow> disk
    \<Rightarrow> 'x sst_reader list \<Rightarrow> 'x entry list list list \<Rightarrow> bool" where
  "compaction_done cd U C f e s S T d new bss \<longleftrightarrow>
     lsm_inv cd U C e \<and> merge_plan C e s S T
   \<and> written cd (e_layout e) (Suc s) d (unat (s_next_sst e)) (output_rows C f e (Suc s) (S @ T)) new bss"

lemma compaction_doneD:
  assumes "compaction_done cd U C f e s S T d new bss"
  shows "lsm_inv cd U C e" "merge_plan C e s S T"
    "written cd (e_layout e) (Suc s) d (unat (s_next_sst e)) (output_rows C f e (Suc s) (S @ T)) new bss"
  using assms by (simp_all add: compaction_done_def)

lemma old_file:
  assumes D: "compaction_done cd U C f e s S T d new bss" and r: "r \<in> set (level_files n (e_sstables e))"
  shows "r \<notin> set new" "new_contents new bss C r = C r" "new_readers new U (r_id r) = Some r" "\<forall>x \<in> set new. r_id x \<noteq> r_id r"
proof -
  note w = compaction_doneD(3) [OF D]
  have lt: "unat (r_id r) < unat (s_next_sst e)" by (rule lsm_invD(6) [OF compaction_doneD(1) [OF D] r])
  then show ids: "\<forall>x \<in> set new. r_id x \<noteq> r_id r" using written_ids(3) [OF w] by fastforce
  then show "r \<notin> set new" by blast
  then have "map_of (zip new bss) r = None" using written_ids(4) [OF w] by simp
  then show "new_contents new bss C r = C r" by (simp add: new_contents_def)
  have "map_of (map (\<lambda>r. (r_id r, r)) new) (r_id r) = None" using ids by (auto simp: map_of_eq_None_iff)
  then show "new_readers new U (r_id r) = Some r"
    using lsm_invD(3) [OF compaction_doneD(1) [OF D] r] by (simp add: new_readers_def map_add_def)
qed

lemma retained:
  assumes "lsm_inv cd U C e" "set gone \<subseteq> set (level_files n (e_sstables e))"
  shows "filter (\<lambda>r. r_id r \<notin> r_id ` set gone) (level_files n (e_sstables e)) = filter (\<lambda>r. r \<notin> set gone) (level_files n (e_sstables e))"
proof (rule filter_cong [OF refl])
  fix r assume "r \<in> set (level_files n (e_sstables e))"
  then show "(r_id r \<notin> r_id ` set gone) = (r \<notin> set gone)" using lsm_inv_same_id [OF assms(1)] assms(2) by blast
qed

lemma swapped_files:
  assumes D: "compaction_done cd U C f e s S T d new bss"
  shows "level_files (Suc s) (swap_levels s S T new (e_sstables e))
      = sort_by first_key_cmp (filter (\<lambda>r. r \<notin> set T) (level_files (Suc s) (e_sstables e)) @ new)"
    "level_files s (swap_levels s S T new (e_sstables e)) = filter (\<lambda>r. r \<notin> set S) (level_files s (e_sstables e))"
    "n \<noteq> s \<Longrightarrow> n \<noteq> Suc s \<Longrightarrow> level_files n (swap_levels s S T new (e_sstables e)) = level_files n (e_sstables e)"
proof -
  note I = compaction_doneD(1,2) [OF D]
  have "set S \<subseteq> set (level_files s (e_sstables e))" "set T \<subseteq> set (level_files (Suc s) (e_sstables e))"
    using plan_files(1,2) [OF I] by blast+
  then show "level_files (Suc s) (swap_levels s S T new (e_sstables e))
      = sort_by first_key_cmp (filter (\<lambda>r. r \<notin> set T) (level_files (Suc s) (e_sstables e)) @ new)"
    "level_files s (swap_levels s S T new (e_sstables e)) = filter (\<lambda>r. r \<notin> set S) (level_files s (e_sstables e))"
    unfolding swap_levels_files by (simp_all add: retained [OF I(1)])
  show "n \<noteq> s \<Longrightarrow> n \<noteq> Suc s \<Longrightarrow> level_files n (swap_levels s S T new (e_sstables e)) = level_files n (e_sstables e)"
    by (simp add: swap_levels_files)
qed

lemma swapped_mem:
  assumes "compaction_done cd U C f e s S T d new bss" "r \<in> set (level_files n (swap_levels s S T new (e_sstables e)))"
  shows "r \<in> set (level_files n (e_sstables e)) \<and> r \<notin> set (S @ T) \<or> r \<in> set new \<and> n = Suc s"
proof -
  note I = compaction_doneD(1,2) [OF assms(1)] and F = swapped_files [OF assms(1)]
  have T: "r \<in> set T \<Longrightarrow> r_level r = Suc s" and S: "r \<in> set S \<Longrightarrow> r_level r = s" and n: "r \<in> set (level_files n (e_sstables e)) \<Longrightarrow> r_level r = n"
    using plan_files(1,2) [OF I] lsm_invD(4) [OF I(1)] by blast+
  consider "n = s" | "n = Suc s" | "n \<noteq> s" "n \<noteq> Suc s" by blast
  then show ?thesis
  proof cases
    case 1
    then show ?thesis using assms(2) T n by (auto simp: F(2))
  next
    case 2
    then show ?thesis using assms(2) S n by (auto simp: F(1))
  next
    case 3
    then show ?thesis using assms(2) S T n F(3) by auto
  qed
qed

lemma merged_keys_in: "k \<in> fst ` set (output_rows C f e t files) \<Longrightarrow> \<exists>r \<in> set files. k \<in> fst ` set (concat (C r))"
proof -
  assume "k \<in> fst ` set (output_rows C f e t files)"
  then have "map_of (output_rows C f e t files) k \<noteq> None" by (simp add: map_of_eq_None_iff)
  then have "newest (map (file_entries C (e_layout e) f) (l0_newest files @ deeper files)) k \<noteq> None"
    unfolding output_rows_lookup by (auto split: option.splits)
  then show ?thesis unfolding newest_None using set_merge_inputs [of files] file_entries_keys by fastforce
qed

lemma deep_ok_distinct:
  assumes "deep_ok C fs" "\<forall>r \<in> set fs. file_lo C r \<le> r_last_key r"
  shows "distinct fs"
proof -
  have "fs ! i \<noteq> fs ! j" if "i < j" "j < length fs" for i j
  proof -
    have "r_last_key (fs ! i) < file_lo C (fs ! j)" using assms(1) sorted_wrt_nth_less [OF _ that, of "\<lambda>a b. r_last_key a < file_lo C b"] by (simp add: deep_ok_def)
    moreover have "file_lo C (fs ! j) \<le> r_last_key (fs ! j)" using assms(2) that by simp
    ultimately show ?thesis by auto
  qed
  then show ?thesis by (metis distinct_conv_nth linorder_neq_iff)
qed

text \<open>A new file and a target file that was not merged do not overlap.\<close>

lemma new_file_apart:
  assumes D: "compaction_done cd U C f e s S T d new bss"
    and a: "a \<in> set (level_files (Suc s) (e_sstables e))" "a \<notin> set T" and b: "b \<in> set new"
  shows "apart (new_contents new bss C) a b"
proof -
  note I = compaction_doneD(1,2) [OF D] and w = compaction_doneD(3) [OF D]
  let ?C = "new_contents new bss C"
  note B = written_file [OF w b, of C U]
  have ne: "concat (?C b) \<noteq> []" using reader_bounds(2) B by blast
  have "file_lo ?C b \<in> fst ` set (concat (?C b))" unfolding file_lo_def using hd_in_set [OF ne] by blast
  moreover have "r_last_key b = fst (last (concat (?C b)))" using B unfolding reader_ok_def by blast
  then have "r_last_key b \<in> fst ` set (concat (?C b))" using last_in_set [OF ne] by simp
  moreover have "set (concat (?C b)) \<subseteq> set (output_rows C f e (Suc s) (S @ T))" using B by blast
  then have src: "\<exists>r \<in> set (S @ T). k \<in> fst ` set (concat (C r))" if "k \<in> fst ` set (concat (?C b))" for k
    using that image_mono [of "set (concat (?C b))" _ fst] by (intro merged_keys_in) auto
  ultimately obtain r1 r2 where r: "r1 \<in> set (S @ T)" "file_lo ?C b \<in> fst ` set (concat (C r1))"
      "r2 \<in> set (S @ T)" "r_last_key b \<in> fst ` set (concat (C r2))"
    using src [of "file_lo ?C b"] src [of "r_last_key b"] by blast
  have "file_lo C r1 \<le> file_lo ?C b" using file_key_bounds(1) [of cd r1 C "file_lo ?C b"] r(2) plan_files(3) [OF I r(1)] by blast
  moreover have "r_last_key b \<le> r_last_key r2" using file_key_bounds(2) [of cd r2 C "r_last_key b"] r(4) plan_files(3) [OF I r(3)] by blast
  moreover have "file_lo ?C a = file_lo C a" using old_file(2) [OF D a(1)] by (simp add: file_lo_def)
  moreover have "r_last_key r2 < file_lo C a \<or> r_last_key a < file_lo C r1" using kept_beside [OF I a] r(1,3) by blast
  ultimately show ?thesis unfolding apart_def by auto
qed

lemma swapped_deep_ok:
  assumes D: "compaction_done cd U C f e s S T d new bss" and n: "n \<noteq> 0"
  shows "deep_ok (new_contents new bss C) (level_files n (swap_levels s S T new (e_sstables e)))"
proof -
  note I = compaction_doneD(1,2) [OF D] and w = compaction_doneD(3) [OF D] and F = swapped_files [OF D]
  let ?C = "new_contents new bss C"
  let ?kept = "filter (\<lambda>r. r \<notin> set T) (level_files (Suc s) (e_sstables e))"
  have lo: "file_lo ?C r = file_lo C r" if "r \<in> set (level_files m (e_sstables e))" for m r
    using old_file(2) [OF D that] by (simp add: file_lo_def)
  have old: "deep_ok ?C (level_files n (e_sstables e))"
    using lsm_invD(2) [OF I(1) n] old_file(2) [OF D] lo unfolding deep_ok_def by (auto elim!: sorted_wrt_mono_rel [rotated])
  show ?thesis
  proof (cases "n = Suc s")
    case True
    have ok: "\<forall>r \<in> set (?kept @ new). reader_ok cd r (?C r) \<and> ?C r \<noteq> []"
      using old_file(2) [OF D] lsm_invD(3,4) [OF I(1)] written_file [OF w] by auto
    have dk: "distinct (level_files (Suc s) (e_sstables e))"
      using deep_ok_distinct [OF lsm_invD(2) [OF I(1)]] lsm_invD(5) [OF I(1)] by blast
    have d: "distinct (?kept @ new)" using dk written_ids(1) [OF w] old_file(1) [OF D] by auto
    have sym: "apart ?C a b = apart ?C b a" for a b by (auto simp: apart_def)
    have "apart ?C a b" if ab: "a \<in> set (?kept @ new)" "b \<in> set (?kept @ new)" "a \<noteq> b" for a b
    proof (cases "a \<in> set new"; cases "b \<in> set new")
      assume "a \<notin> set new" "b \<notin> set new"
      then show ?thesis using deep_ok_apart [OF old, of a b] ab True by simp
    next
      assume "a \<in> set new" "b \<notin> set new"
      then show ?thesis using new_file_apart [OF D, of b a] ab sym [of a b] by simp
    next
      assume "a \<notin> set new" "b \<in> set new"
      then show ?thesis using new_file_apart [OF D, of a b] ab by simp
    next
      assume "a \<in> set new" "b \<in> set new"
      then show ?thesis using written_apart [OF w] ab by blast
    qed
    then have "\<forall>a \<in> set (?kept @ new). \<forall>b \<in> set (?kept @ new). a \<noteq> b \<longrightarrow> apart ?C a b" by blast
    from sort_by_first_key [OF ok d this] show ?thesis using True F(1) by simp
  next
    case False
    then show ?thesis using old F(2,3) by (cases "n = s") (auto simp: deep_ok_def sorted_wrt_filter)
  qed
qed

section \<open>Lookups after the swap\<close>

lemma new_entries:
  assumes "r \<in> set new" "written cd lay t d n0 rows new bss"
  shows "file_entries (new_contents new bss C) lay f r = concat (new_contents new bss C r)"
proof -
  have "r_layout r = lay" using written_file [OF assms(2,1)] by blast
  then have "migrated lay f r = (\<lambda>e. e)" by (simp add: migrated_def fun_eq_iff map_option_same)
  then show ?thesis by (simp add: file_entries_def)
qed

lemma newest_new:
  assumes "written cd lay t d n0 rows new bss"
  shows "newest (map (file_entries (new_contents new bss C) lay f) new) k = map_of rows k"
proof -
  have "map (file_entries (new_contents new bss C) lay f) new = map concat (map (new_contents new bss C) new)"
    using new_entries [OF _ assms] by simp
  also have "map (new_contents new bss C) new = bss" by (rule map_new_contents [OF assms])
  finally show ?thesis using assms by (simp add: newest_concat written_def)
qed

lemma old_entries:
  assumes "compaction_done cd U C f e s S T d new bss" "set rs \<subseteq> set (level_files n (e_sstables e))"
  shows "map (file_entries (new_contents new bss C) lay f) rs = map (file_entries C lay f) rs"
  using old_file(2) [OF assms(1)] assms(2) by (auto simp: file_entries_def)

text \<open>A tombstone is dropped only where no deeper level has the key.\<close>

lemma dropped_tombstone:
  assumes inv: "lsm_inv cd U C e" and g: "target_gone e t k" and n: "t < n"
  shows "newest (map (file_entries C lay f) (level_files n (e_sstables e))) k = None"
proof -
  have "map_of (file_entries C lay f r) k = None" if r: "r \<in> set (level_files n (e_sstables e))" for r
  proof -
    have "n \<le> max_level (s_options e)" using lsm_invD(4) [OF inv r] by blast
    then have "t < max_level (s_options e)" using n by simp
    moreover have "(file_lo C r, r_last_key r) \<in> set (lower_level_ranges t e)"
    proof -
      obtain fs where "(n, fs) \<in> set (e_sstables e)" "r \<in> set fs" using level_files_mem [OF r] r by auto
      then show ?thesis using n \<open>t < max_level (s_options e)\<close> lsm_invD(5) [OF inv r]
        by (force simp: lower_level_ranges_def List.map_filter_def)
    qed
    ultimately have "\<not> (file_lo C r \<le> k \<and> k \<le> r_last_key r)" using g by (fastforce simp: drop_tombstone_def list_ex_iff)
    then show ?thesis using lsm_invD(3,4) [OF inv r] by (intro map_of_file_outside [where cd = cd]) auto
  qed
  then show ?thesis by (simp add: newest_None)
qed

lemma first_some_two:
  "first_some (xs @ a # b # ys) = (case first_some xs of Some v \<Rightarrow> Some v | None \<Rightarrow>
     (case a of Some v \<Rightarrow> Some v | None \<Rightarrow> (case b of Some v \<Rightarrow> Some v | None \<Rightarrow> first_some ys)))"
  by (simp add: first_some_append split: option.split)

text \<open>Where at most one table of a level has a key, a part of the level and the rest answer in any order.\<close>

definition one_holder :: "('a \<Rightarrow> ('k \<times> 'v) list) \<Rightarrow> 'k \<Rightarrow> 'a set \<Rightarrow> bool" where
  "one_holder F k X \<longleftrightarrow> (\<forall>a \<in> X. \<forall>b \<in> X. map_of (F a) k \<noteq> None \<longrightarrow> map_of (F b) k \<noteq> None \<longrightarrow> a = b)"

lemma newest_one_holder:
  "one_holder F k (set xs) \<Longrightarrow> newest (map F xs) k = Some v \<longleftrightarrow> (\<exists>a \<in> set xs. map_of (F a) k = Some v)"
  unfolding one_holder_def by (rule newest_unique)

lemma one_holder_subset: "one_holder F k X \<Longrightarrow> Y \<subseteq> X \<Longrightarrow> one_holder F k Y"
  unfolding one_holder_def by blast

lemma newest_parts:
  assumes "one_holder F k (set xs)" "set xs = set ys \<union> set zs"
  shows "newest (map F xs) k = (case newest (map F ys) k of Some v \<Rightarrow> Some v | None \<Rightarrow> newest (map F zs) k)"
proof -
  have oy: "one_holder F k (set ys)" and oz: "one_holder F k (set zs)"
    using one_holder_subset [OF assms(1)] assms(2) by blast+
  show ?thesis
  proof (cases "newest (map F ys) k")
    case (Some v)
    then have "\<exists>a \<in> set xs. map_of (F a) k = Some v" using newest_one_holder [OF oy] assms(2) by blast
    then show ?thesis using newest_one_holder [OF assms(1)] Some by simp
  next
    case None
    show ?thesis
    proof (cases "newest (map F zs) k")
      case (Some v)
      then have "\<exists>a \<in> set xs. map_of (F a) k = Some v" using newest_one_holder [OF oz] assms(2) by blast
      then show ?thesis using newest_one_holder [OF assms(1)] Some None by simp
    next
      case none: None
      then have "newest (map F xs) k = None" using None assms(2) unfolding newest_None by auto
      then show ?thesis using None none by simp
    qed
  qed
qed

lemma newest_excluded:
  assumes "one_holder F k X" "set ys \<subseteq> X" "set zs \<subseteq> X" "set ys \<inter> set zs = {}" "newest (map F ys) k \<noteq> None"
  shows "newest (map F zs) k = None"
proof -
  obtain a where a: "a \<in> set ys" "map_of (F a) k \<noteq> None" using assms(5) unfolding newest_None by auto
  have "map_of (F b) k = None" if "b \<in> set zs" for b
  proof (rule ccontr)
    assume "map_of (F b) k \<noteq> None"
    then have "a = b" using assms(1-3) a that unfolding one_holder_def by blast
    then show False using a(1) that assms(4) by blast
  qed
  then show ?thesis by (simp add: newest_None)
qed

lemma level_one_holder:
  assumes "lsm_inv cd U C e" "n \<noteq> 0"
  shows "one_holder (file_entries C lay f) k (set (level_files n (e_sstables e)))"
  unfolding one_holder_def
  by (rule apart_unique [where cd = cd]) (use lsm_invD(3) [OF assms(1)] deep_ok_apart [OF lsm_invD(2) [OF assms]] in blast)+

lemma source_level_lookup:
  assumes D: "compaction_done cd U C f e s S T d new bss"
  defines "F \<equiv> file_entries C (e_layout e) f" and "rest \<equiv> filter (\<lambda>r. r \<notin> set S) (level_files s (e_sstables e))"
  shows "newest (map F (level_files s (e_sstables e))) k = (case newest (map F S) k of Some v \<Rightarrow> Some v | None \<Rightarrow> newest (map F rest) k)"
    "newest (map F S) k \<noteq> None \<Longrightarrow> newest (map F rest) k = None"
proof -
  note I = compaction_doneD(1,2) [OF D]
  have sub: "set S \<subseteq> set (level_files s (e_sstables e))" using I(2) by (simp add: merge_plan_def)
  have "newest (map F (level_files s (e_sstables e))) k = (case newest (map F S) k of Some v \<Rightarrow> Some v | None \<Rightarrow> newest (map F rest) k)
    \<and> (newest (map F S) k \<noteq> None \<longrightarrow> newest (map F rest) k = None)"
  proof (cases "s = 0")
    case True
    then have "level_files s (e_sstables e) = S" "rest = []" using I(2) by (auto simp: merge_plan_def rest_def)
    then show ?thesis by (simp split: option.split)
  next
    case False
    have o: "one_holder F k (set (level_files s (e_sstables e)))" unfolding F_def by (rule level_one_holder [OF I(1) False])
    have "set (level_files s (e_sstables e)) = set S \<union> set rest" using sub by (auto simp: rest_def)
    then show ?thesis using newest_parts [OF o] newest_excluded [OF o sub, of rest] by (auto simp: rest_def)
  qed
  then show "newest (map F (level_files s (e_sstables e))) k = (case newest (map F S) k of Some v \<Rightarrow> Some v | None \<Rightarrow> newest (map F rest) k)"
    "newest (map F S) k \<noteq> None \<Longrightarrow> newest (map F rest) k = None" by blast+
qed

lemma target_level_lookup:
  assumes D: "compaction_done cd U C f e s S T d new bss"
  defines "F \<equiv> file_entries C (e_layout e) f" and "kept \<equiv> filter (\<lambda>r. r \<notin> set T) (level_files (Suc s) (e_sstables e))"
  shows "newest (map F (level_files (Suc s) (e_sstables e))) k = (case newest (map F T) k of Some v \<Rightarrow> Some v | None \<Rightarrow> newest (map F kept) k)"
    "newest (map F T) k \<noteq> None \<Longrightarrow> newest (map F kept) k = None" "newest (map F S) k \<noteq> None \<Longrightarrow> newest (map F kept) k = None"
proof -
  note I = compaction_doneD(1,2) [OF D]
  have sub: "set T \<subseteq> set (level_files (Suc s) (e_sstables e))" using plan_files(2) [OF I] by blast
  have o: "one_holder F k (set (level_files (Suc s) (e_sstables e)))" unfolding F_def by (rule level_one_holder [OF I(1)]) simp
  have "set (level_files (Suc s) (e_sstables e)) = set T \<union> set kept" using sub by (auto simp: kept_def)
  then show "newest (map F (level_files (Suc s) (e_sstables e))) k = (case newest (map F T) k of Some v \<Rightarrow> Some v | None \<Rightarrow> newest (map F kept) k)"
    by (rule newest_parts [OF o])
  show "newest (map F T) k \<noteq> None \<Longrightarrow> newest (map F kept) k = None"
    by (rule newest_excluded [OF o sub]) (auto simp: kept_def)
  assume "newest (map F S) k \<noteq> None"
  then obtain r where r: "r \<in> set S" "map_of (F r) k \<noteq> None" unfolding newest_None by auto
  have "map_of (F u) k = None" if u: "u \<in> set kept" for u
  proof (rule ccontr)
    assume "map_of (F u) k \<noteq> None"
    then have ku: "k \<in> fst ` set (concat (C u))" and kr: "k \<in> fst ` set (concat (C r))" using r(2) by (simp_all only: F_def file_entries_keys)
    have m: "u \<in> set (level_files (Suc s) (e_sstables e))" "u \<notin> set T" using u by (auto simp: kept_def)
    have "reader_ok cd r (C r)" using plan_files(3) [OF I, of r] r(1) by simp
    note br = file_key_bounds [where C = C, OF this kr]
    have "reader_ok cd u (C u)" using lsm_invD(3) [OF I(1) m(1)] by blast
    note bu = file_key_bounds [where C = C, OF this ku]
    from kept_beside [OF I m] have "r_last_key r < file_lo C u \<or> r_last_key u < file_lo C r" using r(1) by auto
    then show False using br bu by auto
  qed
  then show "newest (map F kept) k = None" by (simp add: newest_None)
qed

lemma new_level_lookup:
  assumes D: "compaction_done cd U C f e s S T d new bss"
  defines "F \<equiv> file_entries C (e_layout e) f" and "G \<equiv> file_entries (new_contents new bss C) (e_layout e) f"
    and "kept \<equiv> filter (\<lambda>r. r \<notin> set T) (level_files (Suc s) (e_sstables e))"
  shows "newest (map G (level_files (Suc s) (swap_levels s S T new (e_sstables e)))) k
    = (case map_of (output_rows C f e (Suc s) (S @ T)) k of Some v \<Rightarrow> Some v | None \<Rightarrow> newest (map F kept) k)"
proof -
  note I = compaction_doneD(1,2) [OF D] and w = compaction_doneD(3) [OF D]
  let ?lv = "level_files (Suc s) (swap_levels s S T new (e_sstables e))" and ?C = "new_contents new bss C"
  have s: "set ?lv = set new \<union> set kept" unfolding swapped_files(1) [OF D] kept_def by auto
  have "reader_ok cd r (?C r)" if "r \<in> set ?lv" for r
    using that written_file [OF w, of r C U] old_file(2) [OF D, of r "Suc s"] lsm_invD(3) [OF I(1), of r "Suc s"] unfolding s by (auto simp: kept_def)
  then have o: "one_holder G k (set ?lv)" unfolding one_holder_def G_def
    by (intro apart_unique [where cd = cd]) (use deep_ok_apart [OF swapped_deep_ok [OF D]] in blast)+
  have "map G kept = map F kept" unfolding F_def G_def by (rule old_entries [OF D]) (auto simp: kept_def)
  then show ?thesis unfolding newest_parts [OF o s] newest_new [OF w, of C f k, folded G_def] by (simp only:)
qed

text \<open>The two levels of a compaction, before and after: what they say about a key, up to a dropped tombstone.\<close>

lemma two_levels:
  assumes D: "compaction_done cd U C f e s S T d new bss"
  defines "F \<equiv> file_entries C (e_layout e) f" and "G \<equiv> file_entries (new_contents new bss C) (e_layout e) f"
    and "lv \<equiv> e_sstables e" and "lv' \<equiv> swap_levels s S T new (e_sstables e)"
  shows "(case newest (map F (level_files s lv)) k of Some v \<Rightarrow> Some v | None \<Rightarrow> newest (map F (level_files (Suc s) lv)) k)
       = (case newest (map G (level_files s lv')) k of Some v \<Rightarrow> Some v | None \<Rightarrow> newest (map G (level_files (Suc s) lv')) k)
    \<or> target_gone e (Suc s) k
      \<and> (case newest (map F (level_files s lv)) k of Some v \<Rightarrow> Some v | None \<Rightarrow> newest (map F (level_files (Suc s) lv)) k) = Some None
      \<and> (case newest (map G (level_files s lv')) k of Some v \<Rightarrow> Some v | None \<Rightarrow> newest (map G (level_files (Suc s) lv')) k) = None"
proof -
  note I = compaction_doneD(1,2) [OF D]
  note src = source_level_lookup [OF D, of k] and tgt = target_level_lookup [OF D, of k] and fin = new_level_lookup [OF D, of k]
  have "map G (level_files s lv') = map F (filter (\<lambda>r. r \<notin> set S) (level_files s lv))"
    unfolding lv'_def lv_def swapped_files(2) [OF D] F_def G_def by (rule old_entries [OF D]) auto
  then show ?thesis
    using src tgt unfolding lv_def lv'_def F_def G_def fin output_rows_lookup plan_order [OF I] map_append newest_append
    by (auto split: option.splits)
qed

lemma swapped_lookup:
  assumes D: "compaction_done cd U C f e s S T d new bss"
  defines "F \<equiv> file_entries C (e_layout e) f" and "G \<equiv> file_entries (new_contents new bss C) (e_layout e) f"
    and "lv \<equiv> e_sstables e" and "lv' \<equiv> swap_levels s S T new (e_sstables e)"
  shows "newest (map G (stack_files lv')) k = newest (map F (stack_files lv)) k
    \<or> newest (map G (stack_files lv')) k = None \<and> newest (map F (stack_files lv)) k = Some None"
proof -
  note I = compaction_doneD(1,2) [OF D]
  let ?N = "\<lambda>n. newest (map F (level_files n lv)) k" and ?M = "\<lambda>n. newest (map G (level_files n lv')) k"
  have "finite (insert (Suc s) (fst ` set lv \<union> fst ` set lv'))" by simp
  then obtain b where "\<forall>n \<in> insert (Suc s) (fst ` set lv \<union> fst ` set lv'). n < b"
    unfolding finite_nat_set_iff_bounded by blast
  then have b: "Suc s < b" "\<forall>lf \<in> set lv. fst lf < b" "\<forall>lf \<in> set lv'. fst lf < b" by blast+
  have srt: "ksorted lv" "ksorted lv'" using lsm_invD(1) [OF I(1)] ksorted_swap_levels by (auto simp: lv_def lv'_def)
  have sp: "[0..<b] = [0..<s] @ s # Suc s # [Suc (Suc s)..<b]"
    using b(1) upt_add_eq_append [of 0 s "b - s"] upt_conv_Cons [of s b] upt_conv_Cons [of "Suc s" b] by simp
  have st: "newest (map F (stack_files lv)) k = first_some (map ?N [0..<b])" "newest (map G (stack_files lv')) k = first_some (map ?M [0..<b])"
    unfolding stack_files_concat [OF srt(1)] stack_files_concat [OF srt(2)]
    using stack_by_levels [OF srt(1), of 0 b] stack_by_levels [OF srt(2), of 0 b] b by simp_all
  have eq: "?M n = ?N n" if "n \<noteq> s" "n \<noteq> Suc s" for n
    unfolding lv_def lv'_def F_def G_def swapped_files(3) [OF D that] old_entries [OF D subset_refl] by (rule refl)
  then have out: "map ?M [0..<s] = map ?N [0..<s]" "map ?M [Suc (Suc s)..<b] = map ?N [Suc (Suc s)..<b]" by auto
  have low: "first_some (map ?N [Suc (Suc s)..<b]) = None" if "target_gone e (Suc s) k"
    using dropped_tombstone [OF I(1) that] unfolding F_def lv_def by (auto simp: first_some_None)
  show ?thesis
    using two_levels [OF D, of k, folded lv'_def, folded F_def G_def lv_def] low
    unfolding st sp map_append list.map out first_some_two by (auto split: option.splits)
qed

section \<open>One compaction\<close>

definition live_files :: "('x, 'z) lsm_scheme \<Rightarrow> 'x sst_reader set" where
  "live_files e = set (stack_files (e_sstables e))"

definition live_rows :: "('x sst_reader \<Rightarrow> 'x entry list list) \<Rightarrow> ('x, 'z) lsm_scheme \<Rightarrow> nat" where
  "live_rows C e = (\<Sum>r \<in> live_files e. length (concat (C r)))"

text \<open>How far the entries still have to sink.\<close>

definition height :: "('x sst_reader \<Rightarrow> 'x entry list list) \<Rightarrow> ('x, 'z) lsm_scheme \<Rightarrow> nat" where
  "height C e = (\<Sum>r \<in> live_files e. length (concat (C r)) * (max_level (s_options e) - r_level r))"

lemma live_levels: "lsm_inv cd U C e \<Longrightarrow> live_files e = (\<Union>n. set (level_files n (e_sstables e)))"
  unfolding live_files_def by (rule set_stack_files [OF lsm_invD(1)])

lemma swapped_live:
  assumes D: "compaction_done cd U C f e s S T d new bss"
  shows "set (stack_files (swap_levels s S T new (e_sstables e))) = (live_files e - set (S @ T)) \<union> set new"
proof -
  note I = compaction_doneD(1,2) [OF D] and F = swapped_files [OF D]
  let ?lv = "swap_levels s S T new (e_sstables e)"
  have st: "set (stack_files ?lv) = (\<Union>n. set (level_files n ?lv))"
    by (intro set_stack_files ksorted_swap_levels lsm_invD(1) [OF I(1)])
  have "r \<in> set (stack_files ?lv)" if r: "r \<in> set (level_files n (e_sstables e))" "r \<notin> set (S @ T)" for r n
  proof -
    have "r \<in> set (level_files n ?lv)" using r by (cases "n = s"; cases "n = Suc s") (simp_all add: F)
    then show ?thesis unfolding st by blast
  qed
  moreover have "set new \<subseteq> set (level_files (Suc s) ?lv)" using F(1) by auto
  then have "set new \<subseteq> set (stack_files ?lv)" unfolding st by blast
  moreover have "r \<in> (\<Union>n. set (level_files n (e_sstables e))) - set (S @ T) \<or> r \<in> set new" if r: "r \<in> set (stack_files ?lv)" for r
  proof -
    obtain n where "r \<in> set (level_files n ?lv)" using r unfolding st by auto
    from swapped_mem [OF D this] show ?thesis by auto
  qed
  ultimately show ?thesis unfolding live_levels [OF I(1)] by (intro equalityI subsetI) blast+
qed

lemma plan_distinct:
  assumes I: "lsm_inv cd U C e" "merge_plan C e s S T"
  shows "distinct (S @ T)"
proof -
  have "distinct (level_files (Suc s) (e_sstables e))"
    using deep_ok_distinct [OF lsm_invD(2) [OF I(1)]] lsm_invD(5) [OF I(1)] by blast
  then have "distinct T" using I(2) by (auto simp: merge_plan_def)
  moreover have "distinct S"
  proof (cases "s = 0")
    case True
    then have "sorted_wrt (\<lambda>a b. r_id b < r_id a) S" using I by (auto simp: lsm_inv_def merge_plan_def)
    then have "i < j \<Longrightarrow> j < length S \<Longrightarrow> S ! i \<noteq> S ! j" for i j using sorted_wrt_nth_less by fastforce
    then show ?thesis by (metis distinct_conv_nth linorder_neq_iff)
  qed (use I(2) in \<open>auto simp: merge_plan_def\<close>)
  moreover have "r_level r = s" if "r \<in> set S" for r using lsm_invD(4) [OF I(1) plan_files(1) [OF I that]] by blast
  moreover have "r_level r = Suc s" if "r \<in> set T" for r using lsm_invD(4) [OF I(1) plan_files(2) [OF I that]] by blast
  ultimately show ?thesis by (metis disjoint_iff distinct_append n_not_Suc_n)
qed

lemma plan_live: "lsm_inv cd U C e \<Longrightarrow> merge_plan C e s S T \<Longrightarrow> set (S @ T) \<subseteq> live_files e"
  using plan_files(1,2) [of cd U C e s S T] unfolding live_levels [of cd U C e] set_append by blast

lemma plan_rows:
  assumes "lsm_inv cd U C e" "merge_plan C e s S T"
  shows "expected_entries (S @ T) = file_rows C (S @ T)" "file_rows C (S @ T) \<le> live_rows C e"
proof -
  have "st_entries (r_stats r) = length (concat (C r))" if "r \<in> set (S @ T)" for r
    using that plan_files(1,2) [OF assms] lsm_invD(4) [OF assms(1)] by auto
  then show "expected_entries (S @ T) = file_rows C (S @ T)"
    unfolding expected_entries_def file_rows_def by (intro arg_cong [where f = sum_list] map_cong) auto
  have "file_rows C (S @ T) = (\<Sum>r \<in> set (S @ T). length (concat (C r)))"
    unfolding file_rows_def by (rule sum_list_distinct_conv_sum_set [OF plan_distinct [OF assms]])
  also have "\<dots> \<le> live_rows C e" unfolding live_rows_def
    using plan_live [OF assms] by (intro sum_mono2) (auto simp: live_files_def)
  finally show "file_rows C (S @ T) \<le> live_rows C e" .
qed

lemma written_rows:
  assumes "written cd lay t d n0 rows new bss"
  shows "(\<Sum>r \<in> set new. length (concat (new_contents new bss C r))) = length rows"
proof -
  have "(\<Sum>r \<in> set new. length (concat (new_contents new bss C r))) = sum_list (map (\<lambda>r. length (concat (new_contents new bss C r))) new)"
    by (rule sum_list_distinct_conv_sum_set [OF written_ids(1) [OF assms], symmetric])
  also have "map (\<lambda>r. length (concat (new_contents new bss C r))) new = map (\<lambda>bs. length (concat bs)) (map (new_contents new bss C) new)"
    by (simp only: map_map comp_def)
  also have "\<dots> = map (\<lambda>bs. length (concat bs)) bss" by (simp only: map_new_contents [OF assms])
  also have "sum_list \<dots> = length rows" using assms by (simp add: written_def length_concat comp_def)
  finally show ?thesis .
qed

lemma length_output_rows: "length (output_rows C f e t files) \<le> file_rows C files"
proof -
  have "length (List.map_filter g xs) \<le> length xs" for g :: "'a dbkey \<times> 'a slot \<times> nat \<Rightarrow> 'a entry option" and xs
    by (induction xs) (auto simp: map_filter_simps split: option.split)
  then have "length (output_rows C f e t files) \<le> length (merge_items C files)" unfolding output_rows_def .
  then show ?thesis using length_merge_items [of C files] by simp
qed

text \<open>The state after the swap.\<close>

definition swapped :: "nat \<Rightarrow> 'x sst_reader list \<Rightarrow> 'x sst_reader list \<Rightarrow> ('x::linorder) sst_reader list \<Rightarrow> ('x, 'z) lsm_scheme \<Rightarrow> ('x, 'z) lsm_scheme \<Rightarrow> bool" where
  "swapped s S T new e e' \<longleftrightarrow>
     e_sstables e' = swap_levels s S T new (e_sstables e) \<and> mems e' = mems e \<and> e_layout e' = e_layout e \<and> s_options e' = s_options e"

lemma delete_keeps: "\<forall>x \<in> set gone. r_id x \<noteq> sid \<Longrightarrow> delete_files keep gone d (n, sid) = d (n, sid)"
  by (auto simp: delete_files_def)

lemma swapped_inv:
  assumes D: "compaction_done cd U C f e s S T d new bss" and e': "swapped s S T new e e'"
    and nx: "unat (s_next_sst e) + length bss \<le> unat (s_next_sst e')"
    and dk: "\<forall>lv sid. unat sid < unat (s_next_sst e) \<longrightarrow> d (lv, sid) = s_disk e (lv, sid)"
    and del: "s_disk e' = delete_files keep (S @ T) d"
  shows "lsm_inv cd (new_readers new U) (new_contents new bss C) e'"
proof -
  note I = compaction_doneD(1,2) [OF D] and w = compaction_doneD(3) [OF D] and F = swapped_files [OF D]
  let ?C = "new_contents new bss C" and ?U = "new_readers new U"
  have lv: "level_files n (e_sstables e') = level_files n (swap_levels s S T new (e_sstables e))" for n
    using e' by (simp add: swapped_def)
  have fok: "reader_ok cd r (?C r) \<and> ?U (r_id r) = Some r \<and> r_level r = n \<and> ?C r \<noteq> [] \<and> s_disk e' (n, r_id r) = Some (r_file r)
      \<and> n \<le> max_level (s_options e') \<and> st_entries (r_stats r) = length (concat (?C r))"
    if r: "r \<in> set (level_files n (e_sstables e'))" for n r
    using swapped_mem [OF D r [unfolded lv]]
  proof
    assume o: "r \<in> set (level_files n (e_sstables e)) \<and> r \<notin> set (S @ T)"
    then have "r_id x \<noteq> r_id r" if x: "x \<in> set (S @ T)" for x
    proof -
      obtain m where "x \<in> set (level_files m (e_sstables e))" using x plan_files(1,2) [OF I] by auto
      then show ?thesis using lsm_inv_same_id [OF I(1), of x m r n] o x by metis
    qed
    then have "s_disk e' (n, r_id r) = d (n, r_id r)" unfolding del by (intro delete_keeps) blast
    then show ?thesis using o old_file [OF D, of r n] lsm_invD(3,4,6) [OF I(1), of r n] dk e' by (simp add: swapped_def)
  next
    assume o: "r \<in> set new \<and> n = Suc s"
    have "r_id x \<noteq> r_id r" if x: "x \<in> set (S @ T)" for x
    proof -
      obtain m where "x \<in> set (level_files m (e_sstables e))" using x plan_files(1,2) [OF I] by auto
      then show ?thesis using old_file(4) [OF D] o by metis
    qed
    then have "s_disk e' (Suc s, r_id r) = d (Suc s, r_id r)" unfolding del by (intro delete_keeps) blast
    moreover have "Suc s \<le> max_level (s_options e')" using I(2) e' by (simp add: merge_plan_def swapped_def)
    ultimately show ?thesis using written_file [OF w, of r C U] o by simp
  qed
  have "ksorted (e_sstables e')" using e' lsm_invD(1) [OF I(1)] by (simp add: swapped_def ksorted_swap_levels)
  moreover have "deep_ok ?C (level_files n (e_sstables e'))" if "n \<noteq> 0" for n using swapped_deep_ok [OF D that] lv by simp
  ultimately have "files_ok cd ?U ?C (e_sstables e')" unfolding files_ok_levels using fok by blast
  then have "read_inv cd ?U ?C e'" using I(1) e' by (simp add: lsm_inv_def read_inv_def swapped_def)
  moreover have "sorted_wrt (\<lambda>a b. r_id b < r_id a) (level_files 0 (e_sstables e'))"
  proof (cases "s = 0")
    case True
    then have "level_files 0 (e_sstables e') = []" using F(2) I(2) unfolding lv by (auto simp: merge_plan_def filter_empty_conv)
    then show ?thesis by simp
  next
    case False
    then show ?thesis using F(3) [of 0] I(1) unfolding lv by (simp add: lsm_inv_def)
  qed
  moreover have "unat i < unat (s_next_sst e')" if "?U i = Some r" for i r
  proof (cases "map_of (map (\<lambda>r. (r_id r, r)) new) i")
    case None
    then have "U i = Some r" using that by (simp add: new_readers_def map_add_def)
    then show ?thesis using I(1) nx unfolding lsm_inv_def by fastforce
  next
    case (Some x)
    then have "x \<in> set new" "i = r_id x" using map_of_SomeD by fastforce+
    then show ?thesis using written_ids(5) [OF w] nx by fastforce
  qed
  ultimately show ?thesis unfolding lsm_inv_def using fok by blast
qed

lemma swapped_progress:
  assumes D: "compaction_done cd U C f e s S T d new bss" and e': "swapped s S T new e e'"
  shows "live_rows (new_contents new bss C) e' \<le> live_rows C e" "height (new_contents new bss C) e' < height C e"
proof -
  note I = compaction_doneD(1,2) [OF D] and w = compaction_doneD(3) [OF D]
  let ?C = "new_contents new bss C" and ?X = "set (S @ T)" and ?m = "max_level (s_options e)"
  let ?n = "\<lambda>C r. length (concat (C r))"
  have live: "live_files e' = (live_files e - ?X) \<union> set new" using swapped_live [OF D] e' by (simp add: live_files_def swapped_def)
  have fin: "finite (live_files e)" by (simp add: live_files_def)
  have old: "r \<notin> set new \<and> ?C r = C r" if "r \<in> live_files e" for r
    using that old_file(1,2) [OF D] unfolding live_levels [OF I(1)] by blast
  have split': "sum (\<lambda>r. ?n ?C r * g r) (live_files e') = sum (\<lambda>r. ?n C r * g r) (live_files e - ?X) + sum (\<lambda>r. ?n ?C r * g r) (set new)" for g :: "'a sst_reader \<Rightarrow> nat"
  proof -
    have "(live_files e - ?X) \<inter> set new = {}" using old by blast
    then have "sum (\<lambda>r. ?n ?C r * g r) (live_files e') = sum (\<lambda>r. ?n ?C r * g r) (live_files e - ?X) + sum (\<lambda>r. ?n ?C r * g r) (set new)"
      unfolding live by (intro sum.union_disjoint) (use fin in auto)
    also have "sum (\<lambda>r. ?n ?C r * g r) (live_files e - ?X) = sum (\<lambda>r. ?n C r * g r) (live_files e - ?X)"
      using old by (intro sum.cong) auto
    finally show ?thesis .
  qed
  have split: "sum (\<lambda>r. ?n C r * g r) (live_files e) = sum (\<lambda>r. ?n C r * g r) (live_files e - ?X) + sum (\<lambda>r. ?n C r * g r) ?X" for g :: "'a sst_reader \<Rightarrow> nat"
    using sum.subset_diff [OF plan_live [OF I] fin] by blast
  have new: "sum (?n ?C) (set new) \<le> sum (?n C) ?X"
  proof -
    have "sum (?n ?C) (set new) = length (output_rows C f e (Suc s) (S @ T))" by (rule written_rows [OF w])
    also have "\<dots> \<le> file_rows C (S @ T)" by (rule length_output_rows)
    also have "\<dots> = sum (?n C) ?X" unfolding file_rows_def by (rule sum_list_distinct_conv_sum_set [OF plan_distinct [OF I]])
    finally show ?thesis .
  qed
  show "live_rows ?C e' \<le> live_rows C e"
    using split' [of "\<lambda>_. 1"] split [of "\<lambda>_. 1"] new by (simp add: live_rows_def)
  have lvl: "r_level r = s" if "r \<in> set S" for r using lsm_invD(4) [OF I(1) plan_files(1) [OF I that]] by blast
  have lvT: "r_level r = Suc s" if "r \<in> set T" for r using lsm_invD(4) [OF I(1) plan_files(2) [OF I that]] by blast
  have s: "Suc s \<le> ?m" using I(2) by (simp add: merge_plan_def)
  have disj: "set S \<inter> set T = {}" using plan_distinct [OF I] by simp
  have "sum (\<lambda>r. ?n ?C r * (?m - r_level r)) (set new) = sum (\<lambda>r. ?n ?C r * (?m - Suc s)) (set new)"
    using written_file [OF w] by (intro sum.cong) auto
  also have "\<dots> = sum (?n ?C) (set new) * (?m - Suc s)" by (rule sum_distrib_right [symmetric])
  also have "\<dots> \<le> sum (?n C) ?X * (?m - Suc s)" using new by (rule mult_le_mono1)
  also have "\<dots> = sum (?n C) (set S) * (?m - Suc s) + sum (?n C) (set T) * (?m - Suc s)"
    using disj by (simp add: sum.union_disjoint add_mult_distrib)
  also have "\<dots> < sum (?n C) (set S) * (?m - s) + sum (?n C) (set T) * (?m - Suc s)"
  proof -
    obtain x where x: "x \<in> set S" using I(2) by (cases S) (auto simp: merge_plan_def)
    have xs: "x \<in> set (S @ T)" using x by simp
    have "concat (C x) \<noteq> []" using plan_files(3) [OF I xs] reader_bounds(2) by blast
    then have "0 < ?n C x" by (cases "concat (C x)") auto
    also have "?n C x \<le> sum (?n C) (set S)" using x by (intro member_le_sum) auto
    finally show ?thesis using s by simp
  qed
  also have "\<dots> = sum (\<lambda>r. ?n C r * (?m - r_level r)) (set S) + sum (\<lambda>r. ?n C r * (?m - r_level r)) (set T)"
    unfolding sum_distrib_right using lvl lvT by (auto intro!: arg_cong2 [where f = "(+)"] sum.cong)
  also have "\<dots> = sum (\<lambda>r. ?n C r * (?m - r_level r)) ?X" using disj by (simp add: sum.union_disjoint)
  finally show "height ?C e' < height C e"
    using split' [of "\<lambda>r. ?m - r_level r"] split [of "\<lambda>r. ?m - r_level r"] e' by (simp add: height_def swapped_def)
qed

text \<open>A failed compaction: the level map is as before; ids may have been used up and files left behind.\<close>

lemma lsm_inv_frame:
  assumes "lsm_inv cd U C e" "e_sstables e' = e_sstables e" "mems e' = mems e" "s_options e' = s_options e"
    and "unat (s_next_sst e) \<le> unat (s_next_sst e')" "\<forall>lv sid. unat sid < unat (s_next_sst e) \<longrightarrow> s_disk e' (lv, sid) = s_disk e (lv, sid)"
  shows "lsm_inv cd U C e'"
proof -
  have "s_disk e' (n, r_id r) = s_disk e (n, r_id r)" if "r \<in> set (level_files n (e_sstables e))" for n r
    using lsm_invD(6) [OF assms(1) that] assms(6) by blast
  then show ?thesis using assms(1-5) unfolding lsm_inv_def read_inv_def by (auto intro: less_le_trans)
qed

lemma db_lookup_frame: "e_sstables e' = e_sstables e \<Longrightarrow> mems e' = mems e \<Longrightarrow> e_layout e' = e_layout e \<Longrightarrow> db_lookup C f e' k = db_lookup C f e k"
  by (simp add: db_lookup_def db_stack_def)

lemma swapped_db_lookup:
  assumes "compaction_done cd U C f e s S T d new bss" "swapped s S T new e e'"
  shows "db_lookup (new_contents new bss C) f e' k = db_lookup C f e k"
  using swapped_lookup [OF assms(1), of k] assms(2)
  by (auto simp: db_lookup_def db_stack_def swapped_def newest_append split: option.split)

text \<open>
  What a compaction, successful or not, keeps: the invariant (for the contents \<open>C'\<close> and readers \<open>U'\<close> that
  include the new files, which have new ids), the coherence of the block cache, every lookup, and the bounds
  on rows and ids; level 0 gets no new file.
\<close>

definition contents_kept :: "('x::linorder) sst_codec \<Rightarrow> (layout \<Rightarrow> 'x dbvalue \<Rightarrow> 'x dbvalue) \<Rightarrow> (u64 \<rightharpoonup> 'x sst_reader) \<Rightarrow> ('x sst_reader \<Rightarrow> 'x entry list list)
    \<Rightarrow> ('x, 'z) lsm_scheme \<Rightarrow> 'x cache \<Rightarrow> (u64 \<rightharpoonup> 'x sst_reader) \<Rightarrow> ('x sst_reader \<Rightarrow> 'x entry list list) \<Rightarrow> ('x, 'z) lsm_scheme \<Rightarrow> bool" where
  "contents_kept cd f U' C' e' c' U C e \<longleftrightarrow>
     U \<subseteq>\<^sub>m U' \<and> lsm_inv cd U' C' e' \<and> coherent cd U' c' \<and> (\<forall>k. db_lookup C' f e' k = db_lookup C f e k)
   \<and> e_layout e' = e_layout e \<and> s_options e' = s_options e \<and> mems e' = mems e \<and> live_rows C' e' \<le> live_rows C e
   \<and> unat (s_next_sst e) \<le> unat (s_next_sst e') \<and> (\<forall>i. unat i < unat (s_next_sst e) \<longrightarrow> U' i = U i)
   \<and> set (level_files 0 (e_sstables e')) \<subseteq> set (level_files 0 (e_sstables e))"

lemma contents_kept_frame:
  assumes "lsm_inv cd U C e" "coherent cd U c'" "e_sstables e' = e_sstables e" "mems e' = mems e" "s_options e' = s_options e" "e_layout e' = e_layout e"
    and "unat (s_next_sst e) \<le> unat (s_next_sst e')" "\<forall>lv sid. unat sid < unat (s_next_sst e) \<longrightarrow> s_disk e' (lv, sid) = s_disk e (lv, sid)"
  shows "contents_kept cd f U C e' c' U C e"
  using lsm_inv_frame [OF assms(1,3-5,7,8)] assms(2-7) db_lookup_frame [OF assms(3,4,6)]
  by (simp add: contents_kept_def live_rows_def live_files_def)

lemma install_frame:
  "install h sn io s S T new e = (e', r) \<Longrightarrow> mems e' = mems e \<and> e_layout e' = e_layout e \<and> s_options e' = s_options e \<and> s_next_sst e' = s_next_sst e
   \<and> (r \<noteq> Inr () \<longrightarrow> e_sstables e' = e_sstables e \<and> s_disk e' = s_disk e)
   \<and> (r = Inr () \<longrightarrow> e_sstables e' = swap_levels s S T new (e_sstables e) \<and> s_disk e' = delete_files (ci_keep io) (S @ T) (s_disk e)
        \<and> (\<exists>j u. sl_append_batch h sn (ci_manifest io) (compaction_edits (S @ T) new) (s_manifest e) = (j, Inr u) \<and> s_manifest e' = j))"
  by (auto simp: install_def Let_def mems_def split: prod.splits sum.splits)

lemma new_readers_extend:
  assumes "compaction_done cd U C f e s S T d new bss"
  shows "U \<subseteq>\<^sub>m new_readers new U"
proof -
  have "map_of (map (\<lambda>r. (r_id r, r)) new) i = None" if "U i = Some r" for i r
  proof -
    have "unat i < unat (s_next_sst e)" using compaction_doneD(1) [OF assms] that unfolding lsm_inv_def by blast
    then show ?thesis using written_ids(3) [OF compaction_doneD(3) [OF assms]] by (fastforce simp: map_of_eq_None_iff)
  qed
  then show ?thesis by (fastforce simp: map_le_def new_readers_def map_add_def)
qed

lemma new_readers_old:
  assumes "compaction_done cd U C f e s S T d new bss" "unat i < unat (s_next_sst e)"
  shows "new_readers new U i = U i"
proof -
  have "map_of (map (\<lambda>r. (r_id r, r)) new) i = None"
    using written_ids(3) [OF compaction_doneD(3) [OF assms(1)]] assms(2) by (fastforce simp: map_of_eq_None_iff)
  then show ?thesis by (simp add: new_readers_def map_add_def)
qed

text \<open>The manifest: it lists the live files by level and id.\<close>

abbreviation file_name :: "'x sst_reader \<Rightarrow> nat \<times> u64" where
  "file_name r \<equiv> (r_level r, r_id r)"

definition manifest_lists :: "('x, 'z) lsm_scheme \<Rightarrow> bool" where
  "manifest_lists e \<longleftrightarrow> sl_state (snd (s_manifest e)) = file_name ` live_files e"

lemma sl_append_batch_state:
  "sl_append_batch h sn io edits j = (j', Inr u) \<Longrightarrow> sl_state (snd j') = apply_batch sn edits (sl_state (snd j))"
  by (auto simp: sl_append_batch_def sl_compact_def Let_def split: prod.splits sum.splits if_splits)

lemma apply_edits:
  assumes "sn_apply sn = manifest_apply"
  shows "apply_batch sn (compaction_edits old new) m = (m - file_name ` set old) \<union> file_name ` set new"
proof -
  have a: "apply_batch sn (map (\<lambda>r. AddSstable (r_level r) (r_id r)) new) m = m \<union> file_name ` set new" for m
    unfolding apply_batch_def assms by (induction new arbitrary: m) auto
  have r: "apply_batch sn (map (\<lambda>r. RemoveSstable (r_level r) (r_id r)) old) m = m - file_name ` set old" for m
    unfolding apply_batch_def assms by (induction old arbitrary: m) auto
  have "apply_batch sn (xs @ ys) m = apply_batch sn ys (apply_batch sn xs m)" for xs ys m by (simp add: apply_batch_def)
  then show ?thesis by (simp add: compaction_edits_def a r)
qed

lemma swapped_manifest:
  assumes D: "compaction_done cd U C f e s S T d new bss" and e': "swapped s S T new e e'" and m: "manifest_lists e"
    and st: "sl_state (snd (s_manifest e')) = (sl_state (snd (s_manifest e)) - file_name ` set (S @ T)) \<union> file_name ` set new"
  shows "manifest_lists e'"
proof -
  note I = compaction_doneD(1,2) [OF D]
  have "inj_on file_name (live_files e)" unfolding live_levels [OF I(1)]
    using lsm_inv_same_id [OF I(1)] by (intro inj_onI) (metis (no_types, lifting) UN_iff prod.inject)
  then have "file_name ` (live_files e - set (S @ T)) = file_name ` live_files e - file_name ` set (S @ T)"
    using plan_live [OF I] by (intro inj_on_image_set_diff) auto
  then show ?thesis using m st swapped_live [OF D] e' by (simp add: manifest_lists_def live_files_def swapped_def image_Un)
qed

lemma compact_level_spec:
  assumes cd: "codec_ok cd" and rw: "rw_total rw f (e_layout e)" and inv: "lsm_inv cd U C e" and c: "coherent cd U c"
    and N: "live_rows C e \<le> N" "\<forall>n \<le> N. max (cd_opt_bits cd n) 8 + 7 < 2 ^ 64" "unat (s_next_sst e) + N < 2 ^ 64"
  shows "\<exists>e' res c' U' C'. compact_level h sn cd rw io s e c = Some ((e', res), c') \<and> contents_kept cd f U' C' e' c' U C e
    \<and> unat (s_next_sst e') \<le> unat (s_next_sst e) + N
    \<and> (res \<noteq> Inr () \<longrightarrow> e_sstables e' = e_sstables e)
    \<and> (res = Inr () \<longrightarrow> Suc s \<le> max_level (s_options e) \<longrightarrow> level_files s (e_sstables e) \<noteq> [] \<longrightarrow> height C' e' < height C e)
    \<and> (sn_apply sn = manifest_apply \<longrightarrow> res = Inr () \<longrightarrow> manifest_lists e \<longrightarrow> manifest_lists e')"
proof -
  let ?S = "select_sources s e"
  show ?thesis
  proof (cases "max_level (s_options e) < Suc s \<or> ?S = []")
    case True
    then have "compact_level h sn cd rw io s e c = Some ((e, Inr ()), c)" by (simp add: compact_level_def Let_def)
    moreover have "contents_kept cd f U C e c U C e" using inv c by (simp add: contents_kept_def)
    ultimately show ?thesis using True select_sources_props(4) [of s e] by (intro exI [of _ e] exI [of _ "Inr ()"] exI [of _ c] exI [of _ U] exI [of _ C]) auto
  next
    case False
    then have m: "Suc s \<le> max_level (s_options e)" and ne: "?S \<noteq> []" by auto
    obtain T where T: "overlapping_targets (Suc s) ?S e = Inr T" and plan: "merge_plan C e s ?S T" using compaction_plan [OF inv refl ne m] by blast
    note R = plan_rows [OF inv plan]
    have ok: "\<forall>r \<in> set (?S @ T). reader_ok cd r (C r) \<and> U (r_id r) = Some r" using plan_files(3) [OF inv plan] by blast
    have bits: "max (cd_opt_bits cd (expected_entries (?S @ T))) 8 + 7 < 2 ^ 64" "unat (s_next_sst e) + file_rows C (?S @ T) < 2 ^ 64"
      using N R by simp_all
    obtain w r c' where W: "write_output cd rw io (Suc s) (?S @ T) e c = Some ((w, r), c')" "coherent cd U c'"
      "output_frame (Suc s) (unat (s_next_sst e)) (unat (s_next_sst e) + file_rows C (?S @ T)) (s_disk e) w"
      "r = Inr () \<longrightarrow> cw_current w = None \<and> (\<exists>bss. output_inv cd (compression (s_options e)) (e_layout e) (output_bloom cd (expected_entries (?S @ T)))
           (Suc s) (unat (s_next_sst e)) (output_rows C f e (Suc s) (?S @ T)) bss w)"
      using write_output_spec [OF cd bits(1) rw ok c bits(2), of io "Suc s"] by blast
    let ?e1 = "e\<lparr>s_next_sst := cw_next w, s_disk := cw_disk w\<rparr>"
    have nx: "unat (s_next_sst e) \<le> unat (cw_next w)" "unat (cw_next w) \<le> unat (s_next_sst e) + N"
      and dk: "\<forall>lv sid. unat sid < unat (s_next_sst e) \<longrightarrow> cw_disk w (lv, sid) = s_disk e (lv, sid)"
      using W(3) R(2) N(1) by (simp_all add: output_frame_def)
    have kept1: "contents_kept cd f U C e' c' U C e" if "e_sstables e' = e_sstables e" "mems e' = mems e" "s_options e' = s_options e" "e_layout e' = e_layout e"
        "s_next_sst e' = cw_next w" "s_disk e' = cw_disk w" for e'
      using that nx(1) dk by (intro contents_kept_frame [OF inv W(2)]) simp_all
    show ?thesis
    proof (cases r)
      case (Inl err)
      then have "compact_level h sn cd rw io s e c = Some ((?e1, Inl err), c')" using False T W(1) by (simp add: compact_level_def Let_def)
      then show ?thesis using kept1 [of ?e1] nx(2)
        by (intro exI [of _ ?e1] exI [of _ "Inl err"] exI [of _ c'] exI [of _ U] exI [of _ C]) (simp add: mems_def)
    next
      case (Inr u)
      obtain e' res where E: "install h sn io s ?S T (cw_new w) ?e1 = (e', res)" by (cases "install h sn io s ?S T (cw_new w) ?e1")
      note IF = install_frame [OF E]
      have run: "compact_level h sn cd rw io s e c = Some ((e', res), c')" using False T W(1) Inr E by (simp add: compact_level_def Let_def)
      obtain bss where B: "cw_current w = None" "output_inv cd (compression (s_options e)) (e_layout e) (output_bloom cd (expected_entries (?S @ T)))
           (Suc s) (unat (s_next_sst e)) (output_rows C f e (Suc s) (?S @ T)) bss w"
        using W(4) Inr by auto
      have "ksorted (output_rows C f e (Suc s) (?S @ T))"
        unfolding output_rows_def by (intro ksorted_compacted) (simp add: merge_items_def merged_ascending)
      then have D: "compaction_done cd U C f e s ?S T (cw_disk w) (cw_new w) bss"
        and nb: "unat (cw_next w) = unat (s_next_sst e) + length bss"
        using B inv plan by (auto simp: compaction_done_def written_def output_inv_def open_entries_def)
      show ?thesis
      proof (cases "res = Inr ()")
        case False
        then show ?thesis using run kept1 [of e'] IF nx(2)
          by (intro exI [of _ e'] exI [of _ res] exI [of _ c'] exI [of _ U] exI [of _ C]) (simp add: mems_def)
      next
        case True
        have sw: "swapped s ?S T (cw_new w) e e'" using IF True by (simp add: swapped_def mems_def)
        let ?C = "new_contents (cw_new w) bss C" and ?U = "new_readers (cw_new w) U"
        have "lsm_inv cd ?U ?C e'" using IF True nb dk by (intro swapped_inv [OF D sw]) simp_all
        moreover have "coherent cd ?U c'"
          using coherent_mono [OF W(2)] new_readers_extend [OF D] by (fastforce simp: map_le_def dom_def)
        moreover have "set (level_files 0 (e_sstables e')) \<subseteq> set (level_files 0 (e_sstables e))"
          using sw by (auto simp: swapped_def swap_levels_files)
        ultimately have "contents_kept cd f ?U ?C e' c' U C e"
          using swapped_db_lookup [OF D sw] swapped_progress(1) [OF D sw] new_readers_extend [OF D] new_readers_old [OF D] sw nx(1) IF
          by (simp add: contents_kept_def swapped_def)
        moreover have "manifest_lists e'" if "sn_apply sn = manifest_apply" "manifest_lists e"
        proof (rule swapped_manifest [OF D sw that(2)])
          obtain j u where "sl_append_batch h sn (ci_manifest io) (compaction_edits (?S @ T) (cw_new w)) (s_manifest ?e1) = (j, Inr u)" "s_manifest e' = j"
            using IF True by blast
          note j = sl_append_batch_state [OF this(1)] this(2)
          show "sl_state (snd (s_manifest e')) = (sl_state (snd (s_manifest e)) - file_name ` set (?S @ T)) \<union> file_name ` set (cw_new w)"
            using j unfolding apply_edits [OF that(1)] by simp
        qed
        ultimately show ?thesis using run swapped_progress(2) [OF D sw] True IF nx(2)
          by (intro exI [of _ e'] exI [of _ res] exI [of _ c'] exI [of _ ?U] exI [of _ ?C]) simp
      qed
    qed
  qed
qed

section \<open>The loop\<close>

lemma find_level_due:
  assumes "find_level_to_compact e = Some level" "validate (s_options e) = Inr ()"
  shows "Suc level \<le> max_level (s_options e)" "level_files level (e_sstables e) \<noteq> []"
proof -
  have v: "1 \<le> max_level (s_options e)" "0 < l0_compaction_threshold (s_options e)" using assms(2) by (simp_all add: validate_iff)
  show "Suc level \<le> max_level (s_options e)" "level_files level (e_sstables e) \<noteq> []"
    using assms(1) v by (auto simp: find_level_to_compact_def Let_def level_files_def find_Some_iff split: option.splits if_splits)
qed

lemma contents_kept_trans:
  assumes "contents_kept cd f U1 C1 e1 c1 U C e" "contents_kept cd f U2 C2 e2 c2 U1 C1 e1"
  shows "contents_kept cd f U2 C2 e2 c2 U C e"
proof -
  note k = assms [unfolded contents_kept_def]
  have "U \<subseteq>\<^sub>m U2" using k map_le_trans by blast
  moreover have "U2 i = U i" if "unat i < unat (s_next_sst e)" for i using that k by (metis less_le_trans)
  moreover have "set (level_files 0 (e_sstables e2)) \<subseteq> set (level_files 0 (e_sstables e))" using k by blast
  ultimately show ?thesis unfolding contents_kept_def using k by simp
qed

lemma compact_if_needed_spec:
  assumes cd: "codec_ok cd" and rw: "rw_total rw f (e_layout e)" and inv: "lsm_inv cd U C e" and c: "coherent cd U c"
    and v: "validate (s_options e) = Inr ()"
    and N: "live_rows C e \<le> N" "\<forall>n \<le> N. max (cd_opt_bits cd n) 8 + 7 < 2 ^ 64" "unat (s_next_sst e) + Suc (height C e) * N < 2 ^ 64"
  shows "\<exists>e' res c' U' C'. compact_if_needed_locked h sn cd rw ios e c = Some ((e', res), c') \<and> contents_kept cd f U' C' e' c' U C e
    \<and> (res = Inr () \<longrightarrow> find_level_to_compact e' = None)"
  using rw inv c v N(1,3)
proof (induction "height C e" arbitrary: e c U C ios rule: less_induct)
  case less
  show ?case
  proof (cases "find_level_to_compact e")
    case None
    then have "compact_if_needed_locked h sn cd rw ios e c = Some ((e, Inr ()), c)" by (simp add: compact_if_needed_locked.simps [of h sn cd rw ios])
    then show ?thesis using None less.prems(2,3)
      by (intro exI [of _ e] exI [of _ "Inr ()"] exI [of _ c] exI [of _ U] exI [of _ C]) (simp add: contents_kept_def)
  next
    case (Some level)
    note due = find_level_due [OF Some less.prems(4)]
    have "unat (s_next_sst e) + N < 2 ^ 64" using less.prems(6) by simp
    then obtain e1 res c1 U1 C1 where S: "compact_level h sn cd rw (ios 0) level e c = Some ((e1, res), c1)" "contents_kept cd f U1 C1 e1 c1 U C e"
      "unat (s_next_sst e1) \<le> unat (s_next_sst e) + N" "res = Inr () \<longrightarrow> height C1 e1 < height C e"
      using compact_level_spec [OF cd less.prems(1-3,5) N(2), of h sn "ios 0" level] due by blast
    show ?thesis
    proof (cases res)
      case (Inl err)
      then have "compact_if_needed_locked h sn cd rw ios e c = Some ((e1, Inl err), c1)"
        using Some S(1) by (simp add: compact_if_needed_locked.simps [of h sn cd rw ios])
      then show ?thesis using S(2) by (intro exI [of _ e1] exI [of _ "Inl err"] exI [of _ c1] exI [of _ U1] exI [of _ C1]) simp
    next
      case (Inr u)
      have run: "compact_if_needed_locked h sn cd rw ios e c = compact_if_needed_locked h sn cd rw (\<lambda>i. ios (Suc i)) e1 c1"
        using Some S(1) Inr by (simp add: compact_if_needed_locked.simps [of h sn cd rw ios])
      have h: "height C1 e1 < height C e" using S(4) Inr by simp
      have "unat (s_next_sst e1) + Suc (height C1 e1) * N \<le> unat (s_next_sst e) + N + height C e * N"
        using S(3) mult_le_mono1 [of "Suc (height C1 e1)" "height C e" N] h by simp
      then have "unat (s_next_sst e1) + Suc (height C1 e1) * N < 2 ^ 64" using less.prems(6) by simp
      moreover have K: "lsm_inv cd U1 C1 e1" "coherent cd U1 c1" "e_layout e1 = e_layout e" "s_options e1 = s_options e" "live_rows C1 e1 \<le> live_rows C e"
        using S(2) unfolding contents_kept_def by blast+
      ultimately obtain e' res' c' U' C' where R: "compact_if_needed_locked h sn cd rw (\<lambda>i. ios (Suc i)) e1 c1 = Some ((e', res'), c')"
        "contents_kept cd f U' C' e' c' U1 C1 e1" "res' = Inr () \<longrightarrow> find_level_to_compact e' = None"
        using less.hyps [OF h, of U1 c1 "\<lambda>i. ios (Suc i)"] less.prems(1,4,5) K by auto
      then show ?thesis using run contents_kept_trans [OF S(2) R(2)]
        by (intro exI [of _ e'] exI [of _ res'] exI [of _ c'] exI [of _ U'] exI [of _ C']) simp
    qed
  qed
qed

section \<open>Properties\<close>

lemma contents_kept_get:
  assumes "contents_kept cd f U' C' e' c' U C e" "lsm_inv cd U C e" "rw_total rw f (e_layout e)"
  shows "\<exists>v. yields (coherent cd U) (eng_get cd rw e k) (Inr v) \<and> yields (coherent cd U') (eng_get cd rw e' k) (Inr v)"
  using eng_get_yields [of cd U C e rw f k] eng_get_yields [of cd U' C' e' rw f k] assms
  by (auto simp: contents_kept_def lsm_inv_def)

text \<open>A store for the witnesses: a level 0 file that is due, above a file of level 2 that keeps its tombstone alive.\<close>

definition demo_deep :: "nat sst_reader" where
  "demo_deep = demo_new\<lparr>r_level := 2, r_stats := (r_stats demo_new)\<lparr>st_entries := 1\<rparr>\<rparr>"

definition demo_manifest :: "snapshot_dir \<times> manifest snapshot_log" where
  "demo_manifest = (\<lparr>d_current = None, d_snap = (\<lambda>g. None), d_log = (\<lambda>g. None)\<rparr>,
     \<lparr>sl_state = {(0, 7), (2, 8)},
      sl_log = \<lparr>fl_file = [], synced = 0, format = MANIFEST_LOG_FORMAT, sync_interval_ms = None, size_bytes = 0\<rparr>,
      sl_generation = 0, sl_format = MANIFEST_LOG_FORMAT, sl_threshold = 1000\<rparr>)"

definition demo_lsm :: "nat lsm" where
  "demo_lsm = \<lparr>e_active = mem_new, e_immutable = [], e_sstables = [(0, [demo_old]), (2, [demo_deep])], e_layout = [],
     s_options = default_options\<lparr>l0_compaction_threshold := 1, block_size_limit := 1\<rparr>, s_next_sst = 9, s_manifest = demo_manifest,
     s_disk = [(0, 7) \<mapsto> r_file demo_old, (2, 8) \<mapsto> r_file demo_deep], s_last_compacted = (\<lambda>n. None)\<rparr>"

definition demo_universe :: "u64 \<rightharpoonup> nat sst_reader" where
  "demo_universe = [7 \<mapsto> demo_old, 8 \<mapsto> demo_deep]"

lemma demo_level_files: "level_files n (e_sstables demo_lsm) = (if n = 0 then [demo_old] else if n = 2 then [demo_deep] else [])"
  by (simp add: demo_lsm_def level_files_def)

lemma demo_lsm_inv: "lsm_inv demo_codec demo_universe demo_contents demo_lsm"
proof -
  have "reader_ok demo_codec demo_deep (demo_contents demo_deep)" "reader_ok demo_codec demo_old (demo_contents demo_old)"
    by (simp_all add: reader_ok_def demo_contents_def demo_blocks_def demo_deep_def demo_new_def demo_old_def demo_reader_def demo_index_def
        demo_rows_def load_block_def demo_codec_def demo_hash_one Let_def All_less_Suc2)
  moreover have "deep_ok demo_contents [demo_deep]"
    by (simp add: deep_ok_def demo_contents_def demo_blocks_def demo_deep_def demo_new_def demo_reader_def)
  moreover have "mem_inv mem_new" by (rule mt.invar_empty)
  moreover have "ksorted (e_sstables demo_lsm)" by (simp add: demo_lsm_def)
  ultimately have "read_inv demo_codec demo_universe demo_contents demo_lsm"
    unfolding read_inv_def files_ok_levels demo_level_files
    by (simp add: demo_lsm_def mems_def demo_universe_def demo_deep_def demo_new_def demo_old_def demo_reader_def deep_ok_def)
  then show ?thesis unfolding lsm_inv_def demo_level_files
    by (simp add: demo_lsm_def demo_universe_def demo_deep_def demo_new_def demo_old_def demo_reader_def demo_contents_def demo_blocks_def
        demo_rows_def demo_index_def default_options_def)
qed

lemma demo_live: "live_files demo_lsm = {demo_old, demo_deep}" "live_rows demo_contents demo_lsm = 3"
    "height demo_contents demo_lsm = 19"
proof -
  show l: "live_files demo_lsm = {demo_old, demo_deep}"
    by (simp add: live_files_def stack_files_def deep_files_def level_files_def demo_lsm_def)
  have "demo_old \<noteq> demo_deep" by (simp add: demo_old_def demo_deep_def demo_new_def demo_reader_def)
  then show "live_rows demo_contents demo_lsm = 3" "height demo_contents demo_lsm = 19"
    unfolding live_rows_def height_def l
    by (simp_all add: demo_contents_def demo_blocks_def demo_rows_def demo_old_def demo_deep_def demo_new_def demo_reader_def demo_lsm_def default_options_def)
qed

lemma demo_budget:
  "coherent demo_codec demo_universe None" "live_rows demo_contents demo_lsm \<le> 3"
  "\<forall>n \<le> 3. max (cd_opt_bits demo_codec n) 8 + 7 < 2 ^ 64" "unat (s_next_sst demo_lsm) + 3 < 2 ^ 64"
  "unat (s_next_sst demo_lsm) + Suc (height demo_contents demo_lsm) * 3 < 2 ^ 64"
proof -
  have "s_next_sst demo_lsm = 9" by (simp add: demo_lsm_def)
  then show "coherent demo_codec demo_universe None" "live_rows demo_contents demo_lsm \<le> 3"
    "\<forall>n \<le> 3. max (cd_opt_bits demo_codec n) 8 + 7 < 2 ^ 64" "unat (s_next_sst demo_lsm) + 3 < 2 ^ 64"
    "unat (s_next_sst demo_lsm) + Suc (height demo_contents demo_lsm) * 3 < 2 ^ 64"
    by (simp_all add: coherent_def demo_live demo_codec_def)
qed

text \<open>
  C2: A compaction of any level keeps the contents of the store. Whatever file operations fail on the way,
  \<open>compact_level\<close> returns; afterwards every \<open>get\<close> gives the value it gave before, deleted keys stay
  deleted although tombstones were dropped, the block cache is coherent, and the level map again has
  disjoint, key-ordered files below level 0 that are all on disk. When it fails the level map is
  unchanged; when it succeeds and the manifest listed the live files before, it lists them afterwards.
\<close>

theorem compaction_keeps_contents:
  assumes "codec_ok cd" "rw_total rw f (e_layout e)" "lsm_inv cd U C e" "coherent cd U c"
    and "live_rows C e \<le> N" "\<forall>n \<le> N. max (cd_opt_bits cd n) 8 + 7 < 2 ^ 64" "unat (s_next_sst e) + N < 2 ^ 64"
  shows "\<exists>e' res c' U' C'. compact_level h (manifest_snapshotable st bt) cd rw io level e c = Some ((e', res), c')
    \<and> (\<forall>k. \<exists>v. yields (coherent cd U) (eng_get cd rw e k) (Inr v) \<and> yields (coherent cd U') (eng_get cd rw e' k) (Inr v))
    \<and> lsm_inv cd U' C' e' \<and> coherent cd U' c'
    \<and> (res \<noteq> Inr () \<longrightarrow> e_sstables e' = e_sstables e) \<and> (res = Inr () \<longrightarrow> manifest_lists e \<longrightarrow> manifest_lists e')"
proof -
  obtain e' res c' U' C' where R: "compact_level h (manifest_snapshotable st bt) cd rw io level e c = Some ((e', res), c')"
    "contents_kept cd f U' C' e' c' U C e" "res \<noteq> Inr () \<longrightarrow> e_sstables e' = e_sstables e"
    "sn_apply (manifest_snapshotable st bt) = manifest_apply \<longrightarrow> res = Inr () \<longrightarrow> manifest_lists e \<longrightarrow> manifest_lists e'"
    using compact_level_spec [OF assms, of h "manifest_snapshotable st bt" io level] by blast
  then show ?thesis using contents_kept_get [OF R(2) assms(3,2)]
    by (intro exI [of _ e'] exI [of _ res] exI [of _ c'] exI [of _ U'] exI [of _ C']) (simp add: contents_kept_def manifest_snapshotable_def)
qed

theorem compaction_keeps_contents_witness:
  "\<forall>h st bt io. \<exists>e' res c' U'. compact_level h (manifest_snapshotable st bt) demo_codec no_rewrite io 0 demo_lsm None = Some ((e', res), c')
    \<and> (\<exists>v. yields (coherent demo_codec demo_universe) (eng_get demo_codec no_rewrite demo_lsm (KInt 1)) (Inr v)
        \<and> yields (coherent demo_codec U') (eng_get demo_codec no_rewrite e' (KInt 1)) (Inr v))"
proof (intro allI)
  fix h st bt io
  show "\<exists>e' res c' U'. compact_level h (manifest_snapshotable st bt) demo_codec no_rewrite io 0 demo_lsm None = Some ((e', res), c')
    \<and> (\<exists>v. yields (coherent demo_codec demo_universe) (eng_get demo_codec no_rewrite demo_lsm (KInt 1)) (Inr v)
        \<and> yields (coherent demo_codec U') (eng_get demo_codec no_rewrite e' (KInt 1)) (Inr v))"
    using compaction_keeps_contents [OF demo_codec_ok no_rewrite_total demo_lsm_inv demo_budget(1-4), of h st bt io 0] by blast
qed

text \<open>
  C3: Compacting while a level is due ends. Under validated options, and with enough unused file ids
  (the number of entries times how many levels they can still sink), \<open>compact_if_needed_locked\<close> returns
  whatever fails; it returns success only when no level is due any more, and every \<open>get\<close> gives the
  value it gave before.
\<close>

theorem compaction_loop_ends:
  assumes "codec_ok cd" "rw_total rw f (e_layout e)" "lsm_inv cd U C e" "coherent cd U c" "validate (s_options e) = Inr ()"
    and "live_rows C e \<le> N" "\<forall>n \<le> N. max (cd_opt_bits cd n) 8 + 7 < 2 ^ 64" "unat (s_next_sst e) + Suc (height C e) * N < 2 ^ 64"
  shows "\<exists>e' res c' U' C'. compact_if_needed_locked h sn cd rw ios e c = Some ((e', res), c')
    \<and> (res = Inr () \<longrightarrow> find_level_to_compact e' = None) \<and> lsm_inv cd U' C' e' \<and> coherent cd U' c'
    \<and> (\<forall>k. \<exists>v. yields (coherent cd U) (eng_get cd rw e k) (Inr v) \<and> yields (coherent cd U') (eng_get cd rw e' k) (Inr v))"
proof -
  obtain e' res c' U' C' where R: "compact_if_needed_locked h sn cd rw ios e c = Some ((e', res), c')"
    "contents_kept cd f U' C' e' c' U C e" "res = Inr () \<longrightarrow> find_level_to_compact e' = None"
    using compact_if_needed_spec [OF assms, of h sn ios] by blast
  then show ?thesis using contents_kept_get [OF R(2) assms(3,2)]
    by (intro exI [of _ e'] exI [of _ res] exI [of _ c'] exI [of _ U'] exI [of _ C']) (simp add: contents_kept_def)
qed

theorem compaction_loop_ends_witness:
  "find_level_to_compact demo_lsm = Some 0 \<and> (\<forall>h sn ios. \<exists>e' res c'. compact_if_needed_locked h sn demo_codec no_rewrite ios demo_lsm None = Some ((e', res), c')
    \<and> (res = Inr () \<longrightarrow> find_level_to_compact e' = None))"
proof -
  have v: "validate (s_options demo_lsm) = Inr ()" by (simp add: validate_iff demo_lsm_def default_options_def)
  have "\<exists>e' res c'. compact_if_needed_locked h sn demo_codec no_rewrite ios demo_lsm None = Some ((e', res), c')
      \<and> (res = Inr () \<longrightarrow> find_level_to_compact e' = None)" for h sn ios
    using compaction_loop_ends [OF demo_codec_ok no_rewrite_total demo_lsm_inv demo_budget(1) v demo_budget(2,3,5), of h sn ios] by blast
  moreover have "find_level_to_compact demo_lsm = Some 0" by (simp add: find_level_to_compact_def demo_lsm_def)
  ultimately show ?thesis by blast
qed

end
