(* ===== verification/Write_Queue.thy ===== *)
theory Write_Queue
  imports Mem_Table
begin

text \<open>
  Group commit in \<^verbatim>\<open>dtdb_storage/src/engine.rs\<close>: writers put tasks into a queue, the writer at its front
  becomes the leader, commits everything queued in one go and hands the result to the others.

  The queue's mutex makes each critical section of \<open>execute_write\<close> one step: submitting a task, waking up
  and looking again, and publishing a result. The commit runs outside the mutex and is a step of its own.
  A writer that parks on its condition variable moves again only when it is notified; the library's
  condition variables do not wake up spuriously. What a commit does to the engine is the parameter
  \<open>commit\<close>. A thread issues one write here; its next write is another thread's.
\<close>

section \<open>State\<close>

record 'x write_task =
  wt_batch :: "'x wal_entry list"
  wt_frame :: "byte list"
  wt_result :: "unit result"
  wt_done :: bool

datatype writer_pc =
    Spinning
  | Parked
  | Woken
  | Leading "nat list"
  | Publishing "nat list" "unit result"
  | Returned "unit result"

record ('x, 's) write_queue =
  q_tasks :: "nat list"
  q_writing :: bool
  q_task :: "nat \<Rightarrow> 'x write_task"
  q_pc :: "nat \<rightharpoonup> writer_pc"
  q_engine :: 's

definition wq_init :: "'s \<Rightarrow> ('x, 's) write_queue" where
  "wq_init s = \<lparr>q_tasks = [], q_writing = False,
     q_task = (\<lambda>_. \<lparr>wt_batch = [], wt_frame = [], wt_result = Inr (), wt_done = False\<rparr>), q_pc = Map.empty, q_engine = s\<rparr>"

definition is_front :: "nat \<Rightarrow> ('x, 's) write_queue \<Rightarrow> bool" where
  "is_front t q \<longleftrightarrow> (case q_tasks q of [] \<Rightarrow> False | u # _ \<Rightarrow> u = t)"

definition set_pc :: "nat \<Rightarrow> writer_pc \<Rightarrow> ('x, 's) write_queue \<Rightarrow> ('x, 's) write_queue" where
  "set_pc t p q = q\<lparr>q_pc := (q_pc q)(t \<mapsto> p)\<rparr>"

section \<open>The steps of a writer\<close>

text \<open>The leader claims the queue and takes every task in it.\<close>

definition lead :: "nat \<Rightarrow> ('x, 's) write_queue \<Rightarrow> ('x, 's) write_queue" where
  "lead t q = set_pc t (Leading (q_tasks q)) (q\<lparr>q_writing := True, q_tasks := []\<rparr>)"

text \<open>With the mutex held: the test of the waiting loop and what follows it.\<close>

definition look :: "nat \<Rightarrow> ('x, 's) write_queue \<Rightarrow> ('x, 's) write_queue" where
  "look t q =
     (if wt_done (q_task q t) then set_pc t (Returned (wt_result (q_task q t))) q
      else if \<not> is_front t q \<or> q_writing q then set_pc t Parked q
      else lead t q)"

text \<open>
  A new task: its frame is built before it is queued, and a failure to do so ends the write. A follower
  gives up the mutex and spins; a task that is at once at the front goes on to lead.
\<close>

definition submit :: "(byte list \<Rightarrow> u32) \<Rightarrow> 'x wal_entry serde \<Rightarrow> nat \<Rightarrow> 'x wal_entry list \<Rightarrow> ('x, 's) write_queue \<Rightarrow> ('x, 's) write_queue" where
  "submit h sd t batch q =
     (case wal_build_frame h sd batch of
        Inl e \<Rightarrow> set_pc t (Returned (Inl e)) q
      | Inr frame \<Rightarrow>
          (let q1 = q\<lparr>q_task := (q_task q)(t := \<lparr>wt_batch = batch, wt_frame = frame, wt_result = Inr (), wt_done = False\<rparr>),
                      q_tasks := q_tasks q @ [t]\<rparr>
           in if q_writing q1 \<or> \<not> is_front t q1 then set_pc t Spinning q1 else look t q1))"

text \<open>Notifying a condition variable wakes the writer parked on it, if it is parked.\<close>

definition notify :: "nat \<Rightarrow> (nat \<rightharpoonup> writer_pc) \<Rightarrow> (nat \<rightharpoonup> writer_pc)" where
  "notify t pc = (if pc t = Some Parked then pc(t \<mapsto> Woken) else pc)"

definition finish_task :: "unit result \<Rightarrow> ('x, 's) write_queue \<Rightarrow> nat \<Rightarrow> ('x, 's) write_queue" where
  "finish_task r q t =
     q\<lparr>q_task := (q_task q)(t := (q_task q t)\<lparr>wt_result := r, wt_done := True\<rparr>), q_pc := notify t (q_pc q)\<rparr>"

definition publish_result :: "nat \<Rightarrow> nat list \<Rightarrow> unit result \<Rightarrow> ('x, 's) write_queue \<Rightarrow> ('x, 's) write_queue" where
  "publish_result t ts r q =
     (let q1 = foldl (finish_task r) q ts; q2 = q1\<lparr>q_writing := False\<rparr>;
          q3 = (case q_tasks q2 of [] \<Rightarrow> q2 | next_leader # _ \<Rightarrow> q2\<lparr>q_pc := notify next_leader (q_pc q2)\<rparr>)
      in set_pc t (Returned r) q3)"

text \<open>Committing empties the batches of the tasks.\<close>

definition drain_tasks :: "nat list \<Rightarrow> (nat \<Rightarrow> 'x write_task) \<Rightarrow> (nat \<Rightarrow> 'x write_task)" where
  "drain_tasks ts tk = (\<lambda>t. if t \<in> set ts then (tk t)\<lparr>wt_batch := []\<rparr> else tk t)"

datatype 'x wq_event = Queued nat "'x wal_entry list" | Group "nat list" "'x write_task list" "unit result"

inductive wq_step :: "('x write_task list \<Rightarrow> 's \<Rightarrow> 's \<Rightarrow> unit result \<Rightarrow> bool) \<Rightarrow> (byte list \<Rightarrow> u32) \<Rightarrow> 'x wal_entry serde
    \<Rightarrow> ('x, 's) write_queue \<Rightarrow> 'x wq_event list \<Rightarrow> ('x, 's) write_queue \<Rightarrow> bool"
  for commit h sd where
    submit: "q_pc q t = None \<Longrightarrow>
      wq_step commit h sd q (case wal_build_frame h sd batch of Inl _ \<Rightarrow> [] | Inr _ \<Rightarrow> [Queued t batch]) (submit h sd t batch q)"
  | look: "q_pc q t = Some p \<Longrightarrow> p = Spinning \<or> p = Woken \<Longrightarrow> wq_step commit h sd q [] (look t q)"
  | commit: "q_pc q t = Some (Leading ts) \<Longrightarrow> commit (map (q_task q) ts) (q_engine q) s' r \<Longrightarrow>
      wq_step commit h sd q [Group ts (map (q_task q) ts) r]
        (set_pc t (Publishing ts r) (q\<lparr>q_task := drain_tasks ts (q_task q), q_engine := s'\<rparr>))"
  | publish: "q_pc q t = Some (Publishing ts r) \<Longrightarrow> wq_step commit h sd q [] (publish_result t ts r q)"

inductive wq_run :: "('x write_task list \<Rightarrow> 's \<Rightarrow> 's \<Rightarrow> unit result \<Rightarrow> bool) \<Rightarrow> (byte list \<Rightarrow> u32) \<Rightarrow> 'x wal_entry serde
    \<Rightarrow> ('x, 's) write_queue \<Rightarrow> 'x wq_event list \<Rightarrow> ('x, 's) write_queue \<Rightarrow> bool"
  for commit h sd q0 where
    start: "wq_run commit h sd q0 [] q0"
  | step: "wq_run commit h sd q0 evs q \<Longrightarrow> wq_step commit h sd q ev q' \<Longrightarrow> wq_run commit h sd q0 (evs @ ev) q'"

text \<open>A step that is not a new write.\<close>

definition wq_internal :: "('x write_task list \<Rightarrow> 's \<Rightarrow> 's \<Rightarrow> unit result \<Rightarrow> bool) \<Rightarrow> (byte list \<Rightarrow> u32) \<Rightarrow> 'x wal_entry serde
    \<Rightarrow> ('x, 's) write_queue \<Rightarrow> ('x, 's) write_queue \<Rightarrow> bool" where
  "wq_internal commit h sd q q' \<longleftrightarrow> dom (q_pc q') = dom (q_pc q) \<and> (\<exists>ev. wq_step commit h sd q ev q')"

section \<open>The invariant\<close>

text \<open>
  \<open>ld\<close> is the leader and \<open>ts\<close> the tasks it took. A task is pending until the leader publishes its result. A
  parked writer has a pending task and somebody who will notify it: it is not at the front, or a leader
  is at work. A woken one finds its task done, or leads.
\<close>

definition writer_ok :: "nat option \<Rightarrow> nat list \<Rightarrow> ('x, 's) write_queue \<Rightarrow> nat \<Rightarrow> writer_pc \<Rightarrow> bool" where
  "writer_ok ld ts q t p \<longleftrightarrow>
     (case p of
        Spinning \<Rightarrow> ld \<noteq> Some t \<and> (wt_done (q_task q t) \<longleftrightarrow> t \<notin> set (ts @ q_tasks q))
      | Parked \<Rightarrow> ld \<noteq> Some t \<and> \<not> wt_done (q_task q t) \<and> t \<in> set (ts @ q_tasks q) \<and> (is_front t q \<longrightarrow> q_writing q)
      | Woken \<Rightarrow> ld \<noteq> Some t \<and> (wt_done (q_task q t) \<longleftrightarrow> t \<notin> set (ts @ q_tasks q))
          \<and> (\<not> wt_done (q_task q t) \<longrightarrow> is_front t q \<and> \<not> q_writing q)
      | Leading us \<Rightarrow> ld = Some t \<and> us = ts
      | Publishing us r \<Rightarrow> ld = Some t \<and> us = ts
      | Returned r \<Rightarrow> ld \<noteq> Some t \<and> t \<notin> set (ts @ q_tasks q))"

definition wq_inv :: "nat option \<Rightarrow> nat list \<Rightarrow> ('x, 's) write_queue \<Rightarrow> bool" where
  "wq_inv ld ts q \<longleftrightarrow>
     distinct (ts @ q_tasks q) \<and> (q_writing q \<longleftrightarrow> ld \<noteq> None) \<and> (ld = None \<longrightarrow> ts = [])
   \<and> (\<forall>t. ld = Some t \<longrightarrow> t \<in> set ts) \<and> set (ts @ q_tasks q) \<subseteq> dom (q_pc q) \<and> finite (dom (q_pc q))
   \<and> (\<forall>t p. q_pc q t = Some p \<longrightarrow> writer_ok ld ts q t p)"

lemma is_front_mem: "is_front t q \<Longrightarrow> t \<in> set (q_tasks q)"
  by (auto simp: is_front_def split: list.splits)

lemma is_front_append: "is_front t (q\<lparr>q_tasks := q_tasks q @ [u]\<rparr>) \<longleftrightarrow> (if q_tasks q = [] then t = u else is_front t q)"
  by (auto simp: is_front_def split: list.splits)

lemma wq_inv_init: "wq_inv None [] (wq_init s)"
  by (simp add: wq_inv_def wq_init_def)

lemma wq_invI:
  assumes "distinct (ts @ q_tasks q)" "q_writing q \<longleftrightarrow> ld \<noteq> None" "ld = None \<Longrightarrow> ts = []" "\<And>t. ld = Some t \<Longrightarrow> t \<in> set ts"
    "set (ts @ q_tasks q) \<subseteq> dom (q_pc q)" "finite (dom (q_pc q))"
    "\<And>t p. q_pc q t = Some p \<Longrightarrow> writer_ok ld ts q t p"
  shows "wq_inv ld ts q"
  using assms by (simp add: wq_inv_def)

lemma wq_invD:
  assumes "wq_inv ld ts q"
  shows "distinct (ts @ q_tasks q)" "q_writing q \<longleftrightarrow> ld \<noteq> None" "ld = None \<Longrightarrow> ts = []" "ld = Some t \<Longrightarrow> t \<in> set ts"
    "set (ts @ q_tasks q) \<subseteq> dom (q_pc q)" "finite (dom (q_pc q))" "q_pc q t = Some p \<Longrightarrow> writer_ok ld ts q t p"
  using assms unfolding wq_inv_def by blast+

lemma is_front_unique: "is_front t q \<Longrightarrow> is_front u q \<Longrightarrow> t = u"
  by (auto simp: is_front_def split: list.splits)

lemma wq_inv_lead:
  assumes inv: "wq_inv None [] q" and t: "is_front t q" "q_pc q t = Some p"
  shows "wq_inv (Some t) (q_tasks q) (lead t q)"
proof (rule wq_invI)
  fix u p'
  assume u: "q_pc (lead t q) u = Some p'"
  show "writer_ok (Some t) (q_tasks q) (lead t q) u p'"
  proof (cases "u = t")
    case True
    then show ?thesis using u by (auto simp: lead_def set_pc_def writer_ok_def)
  next
    case False
    then have "q_pc q u = Some p'" using u by (simp add: lead_def set_pc_def)
    with wq_invD(7) [OF inv this] False is_front_unique [OF t(1), of u] show ?thesis
      by (cases p') (auto simp: writer_ok_def lead_def set_pc_def is_front_def)
  qed
qed (use wq_invD [OF inv] is_front_mem [OF t(1)] t(2) in \<open>auto simp: lead_def set_pc_def\<close>)

lemma wq_inv_set_pc:
  assumes inv: "wq_inv ld ts q" and t: "t \<in> dom (q_pc q) \<or> t \<notin> set (ts @ q_tasks q)" "writer_ok ld ts q t p"
  shows "wq_inv ld ts (set_pc t p q)"
proof (rule wq_invI)
  fix u p'
  assume u: "q_pc (set_pc t p q) u = Some p'"
  have "writer_ok ld ts q u p'" using u t(2) wq_invD(7) [OF inv, of u p'] by (auto simp: set_pc_def split: if_splits)
  then show "writer_ok ld ts (set_pc t p q) u p'"
    by (cases p') (auto simp: writer_ok_def set_pc_def is_front_def)
qed (use wq_invD [OF inv] in \<open>auto simp: set_pc_def\<close>)

lemma wq_inv_stay:
  assumes inv: "wq_inv ld ts q" and t: "q_pc q t = Some p" "p = Spinning \<or> p = Woken"
    and stay: "wt_done (q_task q t) \<or> \<not> is_front t q \<or> q_writing q"
  shows "wq_inv ld ts (look t q)"
    "look t q = set_pc t (if wt_done (q_task q t) then Returned (wt_result (q_task q t)) else Parked) q"
proof -
  show l: "look t q = set_pc t (if wt_done (q_task q t) then Returned (wt_result (q_task q t)) else Parked) q"
    using stay by (auto simp: look_def)
  show "wq_inv ld ts (look t q)"
    unfolding l
  proof (rule wq_inv_set_pc [OF inv])
    show "t \<in> dom (q_pc q) \<or> t \<notin> set (ts @ q_tasks q)" using t(1) by auto
    show "writer_ok ld ts q t (if wt_done (q_task q t) then Returned (wt_result (q_task q t)) else Parked)"
      using wq_invD(7) [OF inv t(1)] t(2) stay by (auto simp: writer_ok_def)
  qed
qed

definition enqueue :: "nat \<Rightarrow> 'x write_task \<Rightarrow> ('x, 's) write_queue \<Rightarrow> ('x, 's) write_queue" where
  "enqueue t tk q = set_pc t Spinning (q\<lparr>q_task := (q_task q)(t := tk), q_tasks := q_tasks q @ [t]\<rparr>)"

lemma wq_inv_enqueue:
  assumes inv: "wq_inv ld ts q" and t: "q_pc q t = None" "\<not> wt_done tk"
  shows "wq_inv ld ts (enqueue t tk q)"
proof (rule wq_invI)
  have new: "t \<notin> set (ts @ q_tasks q)" using wq_invD(5) [OF inv] t(1) by auto
  fix u p'
  assume u: "q_pc (enqueue t tk q) u = Some p'"
  show "writer_ok ld ts (enqueue t tk q) u p'"
  proof (cases "u = t")
    case True
    then have "p' = Spinning" "ld \<noteq> Some t" using u wq_invD(4) [OF inv, of t] new by (auto simp: enqueue_def set_pc_def)
    then show ?thesis using True t(2) by (simp add: writer_ok_def enqueue_def set_pc_def)
  next
    case False
    then have "q_pc q u = Some p'" using u by (simp add: enqueue_def set_pc_def)
    from wq_invD(7) [OF inv this] False show ?thesis
      by (cases p') (auto simp: writer_ok_def enqueue_def set_pc_def is_front_def split: list.splits)
  qed
next
  show "distinct (ts @ q_tasks (enqueue t tk q))"
    using wq_invD(1,5) [OF inv] t(1) by (auto simp: enqueue_def set_pc_def)
qed (use wq_invD [OF inv] in \<open>auto simp: enqueue_def set_pc_def\<close>)

lemma submit_eq:
  "submit h sd t batch q =
     (case wal_build_frame h sd batch of
        Inl e \<Rightarrow> set_pc t (Returned (Inl e)) q
      | Inr frame \<Rightarrow>
          (let q1 = enqueue t \<lparr>wt_batch = batch, wt_frame = frame, wt_result = Inr (), wt_done = False\<rparr> q
           in if q_writing q \<or> q_tasks q \<noteq> [] \<and> \<not> is_front t q then q1 else look t q1))"
  by (auto simp: submit_def enqueue_def set_pc_def look_def lead_def is_front_def Let_def split: sum.splits list.splits)

lemma finish_tasks:
  "foldl (finish_task r) q us =
     q\<lparr>q_task := (\<lambda>t. if t \<in> set us then (q_task q t)\<lparr>wt_result := r, wt_done := True\<rparr> else q_task q t),
       q_pc := (\<lambda>t. if t \<in> set us then notify t (q_pc q) t else q_pc q t)\<rparr>"
proof (induction us arbitrary: q)
  case (Cons u us)
  show ?case unfolding foldl.simps Cons.IH by (rule write_queue.equality) (auto simp: finish_task_def notify_def fun_eq_iff)
qed simp

lemma notify_apply: "notify t pc u = (if u = t \<and> pc u = Some Parked then Some Woken else pc u)"
  by (auto simp: notify_def)

lemma publish_fields:
  "q_tasks (publish_result t ts r q) = q_tasks q" "\<not> q_writing (publish_result t ts r q)" "q_engine (publish_result t ts r q) = q_engine q"
  "q_task (publish_result t ts r q) u = (if u \<in> set ts then (q_task q u)\<lparr>wt_result := r, wt_done := True\<rparr> else q_task q u)"
  "q_pc (publish_result t ts r q) u =
     (if u = t then Some (Returned r)
      else if q_pc q u = Some Parked \<and> (u \<in> set ts \<or> is_front u q) then Some Woken else q_pc q u)"
  by (auto simp: publish_result_def finish_tasks Let_def set_pc_def notify_apply is_front_def split: list.splits)

lemma wq_inv_publish:
  assumes inv: "wq_inv ld ts q" and t: "q_pc q t = Some (Publishing us r)"
  shows "ld = Some t" "us = ts" "wq_inv None [] (publish_result t us r q)"
proof -
  show l: "ld = Some t" "us = ts" using wq_invD(7) [OF inv t] by (auto simp: writer_ok_def)
  have d: "distinct (ts @ q_tasks q)" and m: "t \<in> set ts" using wq_invD(1,4) [OF inv] l by auto
  show "wq_inv None [] (publish_result t us r q)"
  proof (rule wq_invI)
    fix u p'
    assume u: "q_pc (publish_result t us r q) u = Some p'"
    show "writer_ok None [] (publish_result t us r q) u p'"
    proof (cases "u = t")
      case True
      then show ?thesis using u d m l by (auto simp: publish_fields writer_ok_def)
    next
      case False
      then obtain p where p: "q_pc q u = Some p" "p' = (if p = Parked \<and> (u \<in> set ts \<or> is_front u q) then Woken else p)"
        using u l by (cases "q_pc q u") (auto simp: publish_fields split: if_splits)
      have f: "is_front u (publish_result t vs r q) \<longleftrightarrow> is_front u q" for vs by (simp add: is_front_def publish_fields)
      show ?thesis using wq_invD(7) [OF inv p(1)] False p(2) l d is_front_mem [of u q]
        by (cases p) (auto simp: writer_ok_def publish_fields f)
    qed
  next
    have "dom (q_pc (publish_result t us r q)) = insert t (dom (q_pc q))"
      by (auto simp: publish_fields dom_def)
    then show "set ([] @ q_tasks (publish_result t us r q)) \<subseteq> dom (q_pc (publish_result t us r q))"
      "finite (dom (q_pc (publish_result t us r q)))"
      using wq_invD(5,6) [OF inv] by (auto simp: publish_fields)
  qed (use d in \<open>auto simp: publish_fields\<close>)
qed

definition committed_state :: "nat \<Rightarrow> nat list \<Rightarrow> 's \<Rightarrow> unit result \<Rightarrow> ('x, 's) write_queue \<Rightarrow> ('x, 's) write_queue" where
  "committed_state t ts s' r q = set_pc t (Publishing ts r) (q\<lparr>q_task := drain_tasks ts (q_task q), q_engine := s'\<rparr>)"

lemma wq_inv_commit:
  assumes inv: "wq_inv ld ts q" and t: "q_pc q t = Some (Leading us)"
  shows "ld = Some t" "us = ts" "wq_inv ld ts (committed_state t us s' r q)"
proof -
  show l: "ld = Some t" "us = ts" using wq_invD(7) [OF inv t] by (auto simp: writer_ok_def)
  let ?q = "q\<lparr>q_task := drain_tasks us (q_task q), q_engine := s'\<rparr>"
  have dn: "wt_done (drain_tasks us (q_task q) u) = wt_done (q_task q u)" for u by (simp add: drain_tasks_def)
  have w: "writer_ok ld ts ?q u p = writer_ok ld ts q u p" for u p
    by (cases p) (simp_all add: writer_ok_def is_front_def dn)
  have "wq_inv ld ts ?q" using inv by (simp add: wq_inv_def w)
  then show "wq_inv ld ts (committed_state t us s' r q)"
    unfolding committed_state_def using t l by (intro wq_inv_set_pc) (auto simp: writer_ok_def)
qed

section \<open>The history\<close>

fun queued :: "'x wq_event list \<Rightarrow> (nat \<times> 'x wal_entry list) list" where
  "queued [] = []"
| "queued (Queued t b # evs) = (t, b) # queued evs"
| "queued (Group ts tks r # evs) = queued evs"

fun groups :: "'x wq_event list \<Rightarrow> (nat list \<times> 'x write_task list \<times> unit result) list" where
  "groups [] = []"
| "groups (Queued t b # evs) = groups evs"
| "groups (Group ts tks r # evs) = (ts, tks, r) # groups evs"

definition committed :: "'x wq_event list \<Rightarrow> nat list" where
  "committed evs = concat (map fst (groups evs))"

text \<open>The engine after the commits of a list of groups, one after the other.\<close>

fun commit_groups :: "('x write_task list \<Rightarrow> 's \<Rightarrow> 's \<Rightarrow> unit result \<Rightarrow> bool) \<Rightarrow> (nat list \<times> 'x write_task list \<times> unit result) list
    \<Rightarrow> 's \<Rightarrow> 's \<Rightarrow> bool" where
  "commit_groups commit [] s s' \<longleftrightarrow> s' = s"
| "commit_groups commit ((ts, tks, r) # gs) s s' \<longleftrightarrow> (\<exists>s1. commit tks s s1 r \<and> commit_groups commit gs s1 s')"

definition answered :: "'x wq_event list \<Rightarrow> nat \<Rightarrow> unit result \<Rightarrow> bool" where
  "answered evs t r \<longleftrightarrow> (\<exists>ts tks. (ts, tks, r) \<in> set (groups evs) \<and> t \<in> set ts)"

definition task_of :: "(byte list \<Rightarrow> u32) \<Rightarrow> 'x wal_entry serde \<Rightarrow> 'x wq_event list \<Rightarrow> nat \<Rightarrow> 'x write_task \<Rightarrow> bool" where
  "task_of h sd evs t tk \<longleftrightarrow> (t, wt_batch tk) \<in> set (queued evs) \<and> wal_build_frame h sd (wt_batch tk) = Inr (wt_frame tk)"

lemma queued_append [simp]: "queued (xs @ ys) = queued xs @ queued ys"
  by (induction xs rule: queued.induct) auto

lemma groups_append [simp]: "groups (xs @ ys) = groups xs @ groups ys"
  by (induction xs rule: groups.induct) auto

lemma commit_groups_snoc:
  "commit_groups commit gs s s1 \<Longrightarrow> commit tks s1 s' r \<Longrightarrow> commit_groups commit (gs @ [(ts, tks, r)]) s s'"
  by (induction gs arbitrary: s) (auto, blast)

text \<open>The leader's tasks until they are committed.\<close>

definition uncommitted :: "nat option \<Rightarrow> nat list \<Rightarrow> ('x, 's) write_queue \<Rightarrow> nat list" where
  "uncommitted ld ts q = (case ld of None \<Rightarrow> [] | Some t \<Rightarrow> (case q_pc q t of Some (Leading _) \<Rightarrow> ts | _ \<Rightarrow> []))"

definition answer_ok :: "'x wq_event list \<Rightarrow> ('x, 's) write_queue \<Rightarrow> nat \<Rightarrow> writer_pc \<Rightarrow> bool" where
  "answer_ok evs q t p \<longleftrightarrow>
     (case p of
        Publishing us r \<Rightarrow> (\<exists>tks. (us, tks, r) \<in> set (groups evs))
      | Returned r \<Rightarrow> t \<in> fst ` set (queued evs) \<longrightarrow> answered evs t r
      | _ \<Rightarrow> wt_done (q_task q t) \<longrightarrow> answered evs t (wt_result (q_task q t)))"

definition wq_hist :: "('x write_task list \<Rightarrow> 's \<Rightarrow> 's \<Rightarrow> unit result \<Rightarrow> bool) \<Rightarrow> (byte list \<Rightarrow> u32) \<Rightarrow> 'x wal_entry serde
    \<Rightarrow> 's \<Rightarrow> 'x wq_event list \<Rightarrow> nat list \<Rightarrow> ('x, 's) write_queue \<Rightarrow> bool" where
  "wq_hist commit h sd s0 evs us q \<longleftrightarrow>
     map fst (queued evs) = committed evs @ us @ q_tasks q \<and> distinct (committed evs @ us @ q_tasks q)
   \<and> set (committed evs @ us @ q_tasks q) \<subseteq> dom (q_pc q)
   \<and> (\<forall>t \<in> set (us @ q_tasks q). task_of h sd evs t (q_task q t))
   \<and> (\<forall>(ts, tks, r) \<in> set (groups evs). list_all2 (task_of h sd evs) ts tks)
   \<and> commit_groups commit (groups evs) s0 (q_engine q)
   \<and> (\<forall>t p. q_pc q t = Some p \<longrightarrow> answer_ok evs q t p)"

lemma wq_hist_init: "wq_hist commit h sd s [] [] (wq_init s)"
  by (simp add: wq_hist_def wq_init_def committed_def)

lemma wq_histI:
  assumes "map fst (queued evs) = committed evs @ us @ q_tasks q" "distinct (committed evs @ us @ q_tasks q)"
    "set (committed evs @ us @ q_tasks q) \<subseteq> dom (q_pc q)"
    "\<And>t. t \<in> set (us @ q_tasks q) \<Longrightarrow> task_of h sd evs t (q_task q t)"
    "\<And>ts tks r. (ts, tks, r) \<in> set (groups evs) \<Longrightarrow> list_all2 (task_of h sd evs) ts tks"
    "commit_groups commit (groups evs) s0 (q_engine q)" "\<And>t p. q_pc q t = Some p \<Longrightarrow> answer_ok evs q t p"
  shows "wq_hist commit h sd s0 evs us q"
  unfolding wq_hist_def using assms by blast

lemma wq_histD:
  assumes "wq_hist commit h sd s0 evs us q"
  shows "map fst (queued evs) = committed evs @ us @ q_tasks q" "distinct (committed evs @ us @ q_tasks q)"
    "set (committed evs @ us @ q_tasks q) \<subseteq> dom (q_pc q)"
    "t \<in> set (us @ q_tasks q) \<Longrightarrow> task_of h sd evs t (q_task q t)"
    "(ts, tks, r) \<in> set (groups evs) \<Longrightarrow> list_all2 (task_of h sd evs) ts tks"
    "commit_groups commit (groups evs) s0 (q_engine q)" "q_pc q t = Some p \<Longrightarrow> answer_ok evs q t p"
  using assms unfolding wq_hist_def by blast+

lemma wq_hist_set_pc:
  assumes H: "wq_hist commit h sd s0 evs us q" and a: "answer_ok evs q t p"
  shows "wq_hist commit h sd s0 evs us (set_pc t p q)"
proof (rule wq_histI)
  fix u p'
  assume u: "q_pc (set_pc t p q) u = Some p'"
  have "answer_ok evs q u p'" using u a wq_histD(7) [OF H, of u p'] by (auto simp: set_pc_def split: if_splits)
  then show "answer_ok evs (set_pc t p q) u p'"
    by (cases p') (simp_all add: answer_ok_def set_pc_def)
next
  show "set (committed evs @ us @ q_tasks (set_pc t p q)) \<subseteq> dom (q_pc (set_pc t p q))"
    using wq_histD(3) [OF H] by (auto simp: set_pc_def simp del: set_append)
qed (use wq_histD [OF H] in \<open>simp_all add: set_pc_def\<close>)

lemma wq_hist_lead:
  assumes H: "wq_hist commit h sd s0 evs [] q" and t: "q_pc q t = Some p" "p = Spinning \<or> p = Woken"
  shows "wq_hist commit h sd s0 evs (q_tasks q) (lead t q)"
proof -
  have "answer_ok evs q t (Leading (q_tasks q))" using wq_histD(7) [OF H t(1)] t(2) by (auto simp: answer_ok_def)
  from wq_hist_set_pc [OF H this] show ?thesis
    unfolding wq_hist_def lead_def set_pc_def answer_ok_def by (simp cong: writer_pc.case_cong)
qed

lemma answered_more: "answered evs t r \<Longrightarrow> answered (evs @ ev) t r"
  by (auto simp: answered_def)

lemma task_of_more: "task_of h sd evs t tk \<Longrightarrow> task_of h sd (evs @ ev) t tk"
  by (auto simp: task_of_def)

lemma wq_hist_enqueue:
  assumes H: "wq_hist commit h sd s0 evs us q" and t: "q_pc q t = None" "wal_build_frame h sd (wt_batch tk) = Inr (wt_frame tk)" "\<not> wt_done tk"
  shows "wq_hist commit h sd s0 (evs @ [Queued t (wt_batch tk)]) us (enqueue t tk q)"
proof (rule wq_histI)
  let ?ev = "[Queued t (wt_batch tk)]"
  have new: "t \<notin> set (committed evs @ us @ q_tasks q)" using wq_histD(3) [OF H] t(1) by blast
  have c: "committed (evs @ ?ev) = committed evs" by (simp add: committed_def)
  show "map fst (queued (evs @ ?ev)) = committed (evs @ ?ev) @ us @ q_tasks (enqueue t tk q)"
    "distinct (committed (evs @ ?ev) @ us @ q_tasks (enqueue t tk q))"
    "set (committed (evs @ ?ev) @ us @ q_tasks (enqueue t tk q)) \<subseteq> dom (q_pc (enqueue t tk q))"
    using wq_histD(1-3) [OF H] new unfolding c by (auto simp: enqueue_def set_pc_def)
  show "task_of h sd (evs @ ?ev) u (q_task (enqueue t tk q) u)" if "u \<in> set (us @ q_tasks (enqueue t tk q))" for u
    using that new wq_histD(4) [OF H, of u] t(2) task_of_more [of h sd evs u "q_task q u" ?ev]
    by (auto simp: enqueue_def set_pc_def task_of_def)
  show "list_all2 (task_of h sd (evs @ ?ev)) ts tks" if "(ts, tks, r) \<in> set (groups (evs @ ?ev))" for ts tks r
    using wq_histD(5) [OF H, of ts tks r] that by (auto intro: task_of_more elim!: list_all2_mono)
  show "answer_ok (evs @ ?ev) (enqueue t tk q) u p" if u: "q_pc (enqueue t tk q) u = Some p" for u p
  proof (cases "u = t")
    case True
    then show ?thesis using u t(3) by (auto simp: answer_ok_def enqueue_def set_pc_def)
  next
    case False
    then have "answer_ok evs q u p" using u wq_histD(7) [OF H, of u p] by (auto simp: enqueue_def set_pc_def)
    then show ?thesis using False by (cases p) (auto simp: answer_ok_def enqueue_def set_pc_def answered_def)
  qed
qed (use wq_histD(6) [OF H] in \<open>simp add: enqueue_def set_pc_def\<close>)

lemma wq_hist_commit:
  assumes H: "wq_hist commit h sd s0 evs ts q" and t: "q_pc q t = Some (Leading ts)" and c: "commit (map (q_task q) ts) (q_engine q) s' r"
  shows "wq_hist commit h sd s0 (evs @ [Group ts (map (q_task q) ts) r]) [] (committed_state t ts s' r q)"
proof (rule wq_histI)
  let ?ev = "[Group ts (map (q_task q) ts) r]" and ?q = "committed_state t ts s' r q"
  have co: "committed (evs @ ?ev) = committed evs @ ts" by (simp add: committed_def)
  show "map fst (queued (evs @ ?ev)) = committed (evs @ ?ev) @ [] @ q_tasks ?q" "distinct (committed (evs @ ?ev) @ [] @ q_tasks ?q)"
    "set (committed (evs @ ?ev) @ [] @ q_tasks ?q) \<subseteq> dom (q_pc ?q)"
    using wq_histD(1-3) [OF H] unfolding co by (auto simp: committed_state_def set_pc_def)
  show "task_of h sd (evs @ ?ev) u (q_task ?q u)" if "u \<in> set ([] @ q_tasks ?q)" for u
  proof -
    have "u \<in> set (q_tasks q)" using that by (simp add: committed_state_def set_pc_def)
    moreover from this have "u \<notin> set ts" using wq_histD(2) [OF H] by auto
    ultimately show ?thesis using wq_histD(4) [OF H, of u] by (auto simp: committed_state_def set_pc_def drain_tasks_def task_of_def)
  qed
  show "list_all2 (task_of h sd (evs @ ?ev)) us tks" if "(us, tks, r') \<in> set (groups (evs @ ?ev))" for us tks r'
  proof (cases "(us, tks, r') \<in> set (groups evs)")
    case True
    then show ?thesis using wq_histD(5) [OF H, of us tks r'] by (auto intro: task_of_more elim!: list_all2_mono)
  next
    case False
    then have "us = ts" "tks = map (q_task q) ts" using that by auto
    then show ?thesis using wq_histD(4) [OF H] by (auto simp: list_all2_map2 list_all2_same task_of_def)
  qed
  show "commit_groups commit (groups (evs @ ?ev)) s0 (q_engine ?q)"
    using commit_groups_snoc [of commit "groups evs" s0 "q_engine q", OF wq_histD(6) [OF H] c]
    by (simp add: committed_state_def set_pc_def)
  show "answer_ok (evs @ ?ev) ?q u p" if u: "q_pc ?q u = Some p" for u p
  proof (cases "u = t")
    case True
    then show ?thesis using u by (auto simp: answer_ok_def committed_state_def set_pc_def)
  next
    case False
    then have "answer_ok evs q u p" using u wq_histD(7) [OF H, of u p] by (auto simp: committed_state_def set_pc_def)
    moreover have "wt_done (q_task ?q u) = wt_done (q_task q u)" "wt_result (q_task ?q u) = wt_result (q_task q u)"
      by (simp_all add: committed_state_def set_pc_def drain_tasks_def)
    ultimately show ?thesis by (cases p) (auto simp: answer_ok_def answered_def)
  qed
qed

lemma wq_hist_publish:
  assumes H: "wq_hist commit h sd s0 evs [] q" and t: "q_pc q t = Some (Publishing ts r)" "t \<in> set ts"
    and o: "\<And>u us. q_pc q u = Some (Leading us) \<or> (\<exists>r'. q_pc q u = Some (Publishing us r')) \<Longrightarrow> u = t"
  shows "wq_hist commit h sd s0 evs [] (publish_result t ts r q)"
proof (rule wq_histI)
  let ?q = "publish_result t ts r q"
  obtain tks where g: "(ts, tks, r) \<in> set (groups evs)" using wq_histD(7) [OF H t(1)] by (auto simp: answer_ok_def)
  have ans: "answered evs u r" if "u \<in> set ts" for u using that g by (auto simp: answered_def)
  have dom: "dom (q_pc ?q) = insert t (dom (q_pc q))" by (auto simp: publish_fields dom_def)
  show "map fst (queued evs) = committed evs @ [] @ q_tasks ?q" "distinct (committed evs @ [] @ q_tasks ?q)"
    "set (committed evs @ [] @ q_tasks ?q) \<subseteq> dom (q_pc ?q)"
    using wq_histD(1-3) [OF H] unfolding dom publish_fields by auto
  show "task_of h sd evs u (q_task ?q u)" if "u \<in> set ([] @ q_tasks ?q)" for u
  proof -
    have u: "u \<in> set (q_tasks q)" using that by (simp add: publish_fields)
    have "set ts \<subseteq> set (committed evs)" using g by (force simp: committed_def)
    then have "u \<notin> set ts" using u wq_histD(2) [OF H] by auto
    then show ?thesis using wq_histD(4) [OF H, of u] u by (simp add: publish_fields)
  qed
  show "answer_ok evs ?q u p" if u: "q_pc ?q u = Some p" for u p
  proof (cases "u = t")
    case True
    then show ?thesis using u ans t(2) by (auto simp: answer_ok_def publish_fields)
  next
    case False
    then obtain p0 where p0: "q_pc q u = Some p0" "p = p0 \<or> p0 = Parked \<and> p = Woken"
      using u by (cases "q_pc q u") (auto simp: publish_fields split: if_splits)
    show ?thesis using wq_histD(7) [OF H p0(1)] p0 o [of u] False ans [of u]
      by (cases p0) (auto simp: answer_ok_def publish_fields)
  qed
qed (use wq_histD(5,6) [OF H] in \<open>auto simp: publish_fields\<close>)

definition wq_good :: "('x write_task list \<Rightarrow> 's \<Rightarrow> 's \<Rightarrow> unit result \<Rightarrow> bool) \<Rightarrow> (byte list \<Rightarrow> u32) \<Rightarrow> 'x wal_entry serde
    \<Rightarrow> 's \<Rightarrow> 'x wq_event list \<Rightarrow> ('x, 's) write_queue \<Rightarrow> bool" where
  "wq_good commit h sd s0 evs q \<longleftrightarrow> (\<exists>ld ts. wq_inv ld ts q \<and> wq_hist commit h sd s0 evs (uncommitted ld ts q) q)"

lemma wq_goodI: "wq_inv ld ts q \<Longrightarrow> uncommitted ld ts q = us \<Longrightarrow> wq_hist commit h sd s0 evs us q \<Longrightarrow> wq_good commit h sd s0 evs q"
  unfolding wq_good_def by blast

lemma uncommitted_cong: "(\<And>t. ld = Some t \<Longrightarrow> q_pc q' t = q_pc q t) \<Longrightarrow> uncommitted ld ts q' = uncommitted ld ts q"
  by (simp add: uncommitted_def split: option.splits)

lemma wq_good_look:
  assumes "wq_good commit h sd s0 evs q" and t: "q_pc q t = Some p" "p = Spinning \<or> p = Woken"
  shows "wq_good commit h sd s0 evs (look t q)"
proof -
  obtain ld ts where inv: "wq_inv ld ts q" and H: "wq_hist commit h sd s0 evs (uncommitted ld ts q) q"
    using assms(1) by (auto simp: wq_good_def)
  show ?thesis
  proof (cases "wt_done (q_task q t) \<or> \<not> is_front t q \<or> q_writing q")
    case True
    note stay = wq_inv_stay [OF inv t True]
    have "ld \<noteq> Some t" using wq_invD(7) [OF inv t(1)] t(2) by (auto simp: writer_ok_def)
    then have u: "uncommitted ld ts (look t q) = uncommitted ld ts q" by (intro uncommitted_cong) (auto simp: stay(2) set_pc_def)
    have "answer_ok evs q t p" using wq_histD(7) [OF H t(1)] .
    then have "wq_hist commit h sd s0 evs (uncommitted ld ts q) (look t q)"
      unfolding stay(2) using t(2) by (intro wq_hist_set_pc [OF H]) (auto simp: answer_ok_def)
    then show ?thesis unfolding wq_good_def using stay(1) u by metis
  next
    case False
    then have l: "ld = None" "ts = []" using wq_invD(2,3) [OF inv] by auto
    have lk: "look t q = lead t q" using False by (simp add: look_def)
    have "wq_inv (Some t) (q_tasks q) (lead t q)" using wq_inv_lead [of q t p] inv l False t(1) by simp
    moreover have "uncommitted (Some t) (q_tasks q) (lead t q) = q_tasks q" by (simp add: uncommitted_def lead_def set_pc_def)
    moreover have "wq_hist commit h sd s0 evs (q_tasks q) (lead t q)"
      using wq_hist_lead [OF _ t] H l by (simp add: uncommitted_def)
    ultimately show ?thesis unfolding wq_good_def lk by metis
  qed
qed

lemma wq_good_submit:
  assumes "wq_good commit h sd s0 evs q" and t: "q_pc q t = None"
  shows "wq_good commit h sd s0 (evs @ (case wal_build_frame h sd b of Inl _ \<Rightarrow> [] | Inr _ \<Rightarrow> [Queued t b])) (submit h sd t b q)"
proof -
  obtain ld ts where inv: "wq_inv ld ts q" and H: "wq_hist commit h sd s0 evs (uncommitted ld ts q) q"
    using assms(1) by (auto simp: wq_good_def)
  have new: "t \<notin> set (ts @ q_tasks q)" using wq_invD(5) [OF inv] t by blast
  then have ld: "ld \<noteq> Some t" using wq_invD(4) [OF inv, of t] by auto
  show ?thesis
  proof (cases "wal_build_frame h sd b")
    case (Inl e)
    have "t \<notin> set (map fst (queued evs))" using wq_histD(1,3) [OF H] t by auto
    then have "wq_hist commit h sd s0 evs (uncommitted ld ts q) (set_pc t (Returned (Inl e)) q)"
      by (intro wq_hist_set_pc [OF H]) (auto simp: answer_ok_def)
    moreover have "wq_inv ld ts (set_pc t (Returned (Inl e)) q)"
      using new ld by (intro wq_inv_set_pc [OF inv]) (auto simp: writer_ok_def)
    moreover have "uncommitted ld ts (set_pc t (Returned (Inl e)) q) = uncommitted ld ts q"
      using ld by (intro uncommitted_cong) (auto simp: set_pc_def)
    ultimately show ?thesis unfolding submit_eq Inl by (simp add: wq_goodI)
  next
    case (Inr frame)
    let ?tk = "\<lparr>wt_batch = b, wt_frame = frame, wt_result = Inr (), wt_done = False\<rparr>"
    have "wq_inv ld ts (enqueue t ?tk q)" using wq_inv_enqueue [OF inv t] by simp
    moreover have "wq_hist commit h sd s0 (evs @ [Queued t b]) (uncommitted ld ts q) (enqueue t ?tk q)"
      using wq_hist_enqueue [OF H t, of ?tk] Inr by simp
    moreover have "uncommitted ld ts (enqueue t ?tk q) = uncommitted ld ts q"
      using ld by (intro uncommitted_cong) (auto simp: enqueue_def set_pc_def)
    ultimately have g: "wq_good commit h sd s0 (evs @ [Queued t b]) (enqueue t ?tk q)" unfolding wq_good_def by metis
    have "q_pc (enqueue t ?tk q) t = Some Spinning" by (simp add: enqueue_def set_pc_def)
    from g wq_good_look [OF g this] show ?thesis unfolding submit_eq Inr by (simp add: Let_def)
  qed
qed

lemma wq_good_step:
  assumes "wq_step commit h sd q ev q'" "wq_good commit h sd s0 evs q"
  shows "wq_good commit h sd s0 (evs @ ev) q'"
  using assms
proof (cases rule: wq_step.cases)
  case (submit t batch)
  then show ?thesis using wq_good_submit [OF assms(2)] by simp
next
  case (look t p)
  then show ?thesis using wq_good_look [OF assms(2)] by simp
next
  case (commit t ts s' r)
  obtain ld us where inv: "wq_inv ld us q" and H: "wq_hist commit h sd s0 evs (uncommitted ld us q) q"
    using assms(2) by (auto simp: wq_good_def)
  note c = wq_inv_commit [OF inv commit(3)]
  have u: "uncommitted ld us q = ts" "uncommitted ld us (committed_state t ts s' r q) = []"
    using c(1,2) commit(3) by (simp_all add: uncommitted_def committed_state_def set_pc_def)
  have "wq_hist commit h sd s0 (evs @ ev) [] (committed_state t ts s' r q)"
    using wq_hist_commit [OF H [unfolded u] commit(3,4)] commit(1) by simp
  moreover have "q' = committed_state t ts s' r q" using commit(2) by (simp add: committed_state_def)
  ultimately show ?thesis unfolding wq_good_def using c(3) u(2) by metis
next
  case (publish t ts r)
  obtain ld us where inv: "wq_inv ld us q" and H: "wq_hist commit h sd s0 evs (uncommitted ld us q) q"
    using assms(2) by (auto simp: wq_good_def)
  note p = wq_inv_publish [OF inv publish(3)]
  have o: "u = t" if "q_pc q u = Some (Leading vs) \<or> (\<exists>r'. q_pc q u = Some (Publishing vs r'))" for u vs
    using wq_invD(7) [OF inv, of u] that p(1) by (auto simp: writer_ok_def)
  have "uncommitted ld us q = []" using p(1) publish(3) by (simp add: uncommitted_def)
  then have "wq_hist commit h sd s0 evs [] q'"
    using wq_hist_publish [OF _ publish(3) _ o] H wq_invD(4) [OF inv p(1)] p(2) publish(2) by simp
  then show ?thesis using wq_goodI [OF p(3), of "[]"] publish(1,2) by (simp add: uncommitted_def)
qed

lemma wq_good_run: "wq_run commit h sd (wq_init s0) evs q \<Longrightarrow> wq_good commit h sd s0 evs q"
proof (induction rule: wq_run.induct)
  case start
  show ?case unfolding wq_good_def
    by (rule exI [of _ None], rule exI [of _ "[]"]) (simp add: wq_inv_init wq_hist_init uncommitted_def)
next
  case (step evs q ev q')
  show ?case by (rule wq_good_step [OF step.hyps(2) step.IH])
qed

section \<open>Progress\<close>

fun pc_weight :: "writer_pc \<Rightarrow> nat" where
  "pc_weight Spinning = 5"
| "pc_weight Parked = 4"
| "pc_weight Woken = 3"
| "pc_weight (Leading ts) = 2"
| "pc_weight (Publishing ts r) = 1"
| "pc_weight (Returned r) = 0"

definition work :: "('x, 's) write_queue \<Rightarrow> nat" where
  "work q = (\<Sum>t \<in> dom (q_pc q). pc_weight (the (q_pc q t)))"

definition all_returned :: "('x, 's) write_queue \<Rightarrow> bool" where
  "all_returned q \<longleftrightarrow> (\<forall>t p. q_pc q t = Some p \<longrightarrow> (\<exists>r. p = Returned r))"

lemma work_less:
  assumes "finite (dom (q_pc q))" "dom (q_pc q') = dom (q_pc q)" "t \<in> dom (q_pc q)" "pc_weight (the (q_pc q' t)) < pc_weight (the (q_pc q t))"
    "\<And>u. u \<in> dom (q_pc q) \<Longrightarrow> pc_weight (the (q_pc q' u)) \<le> pc_weight (the (q_pc q u))"
  shows "work q' < work q"
  unfolding work_def assms(2) using assms by (intro sum_strict_mono_ex1) auto

lemma work_bound: "finite (dom (q_pc q)) \<Longrightarrow> work q \<le> 5 * card (dom (q_pc q))"
proof -
  have "pc_weight p \<le> 5" for p by (cases p) auto
  then show "finite (dom (q_pc q)) \<Longrightarrow> work q \<le> 5 * card (dom (q_pc q))"
    unfolding work_def using sum_bounded_above [of "dom (q_pc q)" "\<lambda>t. pc_weight (the (q_pc q t))" 5] by (simp add: mult.commute)
qed

lemma look_weight:
  assumes inv: "wq_inv ld ts q" and t: "q_pc q t = Some p" "p = Spinning \<or> p = Woken"
  shows "\<exists>p'. q_pc (look t q) = (q_pc q)(t \<mapsto> p') \<and> pc_weight p' < pc_weight p"
proof -
  have "p = Woken \<Longrightarrow> \<not> wt_done (q_task q t) \<Longrightarrow> is_front t q \<and> \<not> q_writing q"
    using wq_invD(7) [OF inv t(1)] by (auto simp: writer_ok_def)
  then show ?thesis using t(2) by (auto simp: look_def lead_def set_pc_def)
qed

lemma internal_less:
  assumes inv: "wq_inv ld ts q" and s: "wq_internal commit h sd q q'"
  shows "work q' < work q"
proof -
  obtain ev where d: "dom (q_pc q') = dom (q_pc q)" and st: "wq_step commit h sd q ev q'" using s by (auto simp: wq_internal_def)
  note fin = wq_invD(6) [OF inv]
  have single: "work q' < work q" if "q_pc q t = Some p" "q_pc q' = (q_pc q)(t \<mapsto> p')" "pc_weight p' < pc_weight p" for t p p'
    using that by (intro work_less [OF fin d, of t]) auto
  show ?thesis
    using st
  proof (cases rule: wq_step.cases)
    case (submit t batch)
    have "t \<in> dom (q_pc q')" unfolding submit(2) submit_eq
      by (auto simp: Let_def enqueue_def set_pc_def look_def lead_def split: sum.splits)
    then show ?thesis using submit(3) d by auto
  next
    case (look t p)
    then show ?thesis using look_weight [OF inv look(3,4)] single by auto
  next
    case (commit t ts s' r)
    then show ?thesis using single by (auto simp: set_pc_def)
  next
    case (publish t us r)
    show ?thesis
    proof (rule work_less [OF fin d])
      show "t \<in> dom (q_pc q)" "pc_weight (the (q_pc q' t)) < pc_weight (the (q_pc q t))"
        using publish by (auto simp: publish_fields)
      show "pc_weight (the (q_pc q' u)) \<le> pc_weight (the (q_pc q u))" for u
        using publish by (auto simp: publish_fields)
    qed
  qed
qed

lemma internal_enabled:
  assumes inv: "wq_inv ld ts q" and total: "\<And>tks s. \<exists>s' r. commit tks s s' r" and busy: "\<not> all_returned q"
  shows "\<exists>q'. wq_internal commit h sd q q'"
proof -
  have go: "\<exists>q'. wq_internal commit h sd q q'" if t: "q_pc q t = Some p" "p \<noteq> Parked" "\<nexists>r. p = Returned r" for t p
  proof -
    consider "p = Spinning \<or> p = Woken" | us where "p = Leading us" | us r where "p = Publishing us r" using t by (cases p) auto
    then show ?thesis
    proof cases
      case 1
      have "dom (q_pc (look t q)) = dom (q_pc q)" using t(1) by (auto simp: look_def lead_def set_pc_def)
      then show ?thesis using wq_step.look [OF t(1) 1] unfolding wq_internal_def by blast
    next
      case 2
      obtain s' r where c: "commit (map (q_task q) us) (q_engine q) s' r" using total by blast
      let ?q = "set_pc t (Publishing us r) (q\<lparr>q_task := drain_tasks us (q_task q), q_engine := s'\<rparr>)"
      have "dom (q_pc ?q) = dom (q_pc q)" using t(1) by (auto simp: set_pc_def)
      then show ?thesis using wq_step.commit [where commit = commit, OF t(1) [unfolded 2] c] unfolding wq_internal_def by blast
    next
      case 3
      have "dom (q_pc (publish_result t us r q)) = dom (q_pc q)" using t(1) by (auto simp: publish_fields dom_def)
      then show ?thesis using wq_step.publish [OF t(1) [unfolded 3]] unfolding wq_internal_def by blast
    qed
  qed
  obtain t p where t: "q_pc q t = Some p" "\<nexists>r. p = Returned r" using busy by (auto simp: all_returned_def)
  show ?thesis
  proof (cases "p = Parked")
    case False
    then show ?thesis using go [OF t(1)] t(2) by blast
  next
    case True
    then have m: "t \<in> set (ts @ q_tasks q)" using wq_invD(7) [OF inv t(1)] by (auto simp: writer_ok_def)
    define f where "f = (case ld of Some l \<Rightarrow> l | None \<Rightarrow> hd (q_tasks q))"
    have f: "f \<in> set (ts @ q_tasks q)" "ld = None \<longrightarrow> is_front f q"
      using m wq_invD(3,4) [OF inv] by (cases ld; cases "q_tasks q"; force simp: f_def is_front_def)+
    then obtain pf where pf: "q_pc q f = Some pf" using wq_invD(5) [OF inv] by blast
    have "pf \<noteq> Parked" "\<nexists>r. pf = Returned r"
      using wq_invD(7) [OF inv pf] wq_invD(2) [OF inv] f by (cases ld; auto simp: writer_ok_def f_def)+
    then show ?thesis using go [OF pf] by blast
  qed
qed

lemma internal_inv:
  assumes "wq_good commit h sd s0 evs q" "(wq_internal commit h sd ^^ n) q q'"
  shows "(\<exists>evs'. wq_good commit h sd s0 evs' q') \<and> dom (q_pc q') = dom (q_pc q) \<and> work q' + n \<le> work q"
  using assms(2)
proof (induction n arbitrary: q')
  case 0
  then show ?case using assms(1) by auto
next
  case (Suc n)
  then obtain q1 where q1: "(wq_internal commit h sd ^^ n) q q1" "wq_internal commit h sd q1 q'" by auto
  obtain evs1 where g: "wq_good commit h sd s0 evs1 q1" and d: "dom (q_pc q1) = dom (q_pc q)" "work q1 + n \<le> work q"
    using Suc.IH [OF q1(1)] by blast
  obtain ev where st: "wq_step commit h sd q1 ev q'" "dom (q_pc q') = dom (q_pc q1)" using q1(2) by (auto simp: wq_internal_def)
  have "work q' < work q1" using g internal_less [OF _ q1(2)] by (auto simp: wq_good_def)
  then show ?case using wq_good_step [OF st(1) g] st(2) d by auto
qed

section \<open>Properties\<close>

definition demo_commit :: "'x write_task list \<Rightarrow> byte list \<Rightarrow> byte list \<Rightarrow> unit result \<Rightarrow> bool" where
  "demo_commit tks s s' r \<longleftrightarrow> s' = s @ concat (map wt_frame tks) \<and> r = Inr ()"

text \<open>Two writers: the first leads and is about to commit, the second waits.\<close>

definition demo_queue :: "(nat, byte list) write_queue" where
  "demo_queue = submit demo_hash demo_wal_serde 1 [WDelete (KInt 1)] (submit demo_hash demo_wal_serde 0 [WDelete (KInt 1)] (wq_init []))"

lemma demo_frame: "\<exists>f. wal_build_frame demo_hash demo_wal_serde [WDelete (KInt 1)] = Inr f"
  by (simp add: wal_build_frame_def build_frame_def demo_wal_serde_def)

lemma demo_queue_pc: "q_pc demo_queue = [0 \<mapsto> Leading [0], 1 \<mapsto> Spinning]"
  using demo_frame by (auto simp: demo_queue_def submit_def look_def lead_def set_pc_def is_front_def wq_init_def Let_def)

lemma demo_queue_run:
  "wq_run demo_commit demo_hash demo_wal_serde (wq_init []) [Queued 0 [WDelete (KInt 1)], Queued 1 [WDelete (KInt 1)]] demo_queue"
proof -
  let ?run = "wq_run demo_commit demo_hash demo_wal_serde (wq_init [])" and ?b = "[WDelete (KInt 1)] :: nat wal_entry list"
  obtain f where f: "wal_build_frame demo_hash demo_wal_serde ?b = Inr f" using demo_frame by blast
  let ?q = "submit demo_hash demo_wal_serde 0 ?b (wq_init [])"
  have st: "?run (evs @ [Queued t ?b]) (submit demo_hash demo_wal_serde t ?b q)" if "?run evs q" "q_pc q t = None" for evs t q
    using wq_run.step [OF that(1) wq_step.submit [where batch = ?b, OF that(2)]] f by simp
  have "?run ([] @ [Queued 0 ?b]) ?q" by (rule st [OF wq_run.start]) (simp add: wq_init_def)
  moreover have "q_pc ?q 1 = None" using f by (simp add: submit_def look_def lead_def set_pc_def is_front_def wq_init_def Let_def)
  ultimately have "?run (([] @ [Queued 0 ?b]) @ [Queued 1 ?b]) (submit demo_hash demo_wal_serde 1 ?b ?q)" by (rule st)
  then show ?thesis unfolding demo_queue_def by simp
qed

text \<open>
  C4: Group commit serves writes in the order in which they are queued and each exactly once. The tasks
  committed so far, the leader's tasks and the queue are together the queued tasks, in their order; every
  group that is committed has the batches its writers submitted and the frames built from them; the engine
  is what these commits, one after the other, made of it; there is at most one leader; and a writer that
  returns after queueing its task returns the result of the commit its task was part of.
\<close>

theorem group_commit_order:
  assumes "wq_run commit h sd (wq_init s0) evs q"
  shows "(\<exists>us. map fst (queued evs) = committed evs @ us @ q_tasks q) \<and> distinct (map fst (queued evs))
    \<and> (\<forall>(ts, tks, r) \<in> set (groups evs). list_all2 (task_of h sd evs) ts tks)
    \<and> commit_groups commit (groups evs) s0 (q_engine q)
    \<and> (\<forall>t u p p'. q_pc q t = Some p \<and> q_pc q u = Some p' \<and> pc_weight p \<in> {1, 2} \<and> pc_weight p' \<in> {1, 2} \<longrightarrow> t = u)
    \<and> (\<forall>t r. q_pc q t = Some (Returned r) \<and> t \<in> fst ` set (queued evs) \<longrightarrow> answered evs t r)"
proof -
  obtain ld ts where inv: "wq_inv ld ts q" and H: "wq_hist commit h sd s0 evs (uncommitted ld ts q) q"
    using wq_good_run [OF assms] by (auto simp: wq_good_def)
  have lead: "ld = Some t" if "q_pc q t = Some p" "pc_weight p \<in> {1, 2}" for t p
    using wq_invD(7) [OF inv that(1)] that(2) by (cases p) (auto simp: writer_ok_def)
  have ret: "answered evs t r" if "q_pc q t = Some (Returned r)" "t \<in> fst ` set (queued evs)" for t r
    using wq_histD(7) [OF H that(1)] that(2) by (simp add: answer_ok_def)
  have "distinct (map fst (queued evs))" using wq_histD(1,2) [OF H] by simp
  moreover have "\<forall>(ts, tks, r) \<in> set (groups evs). list_all2 (task_of h sd evs) ts tks" using wq_histD(5) [OF H] by blast
  ultimately show ?thesis using wq_histD(1,6) [OF H] lead ret by (metis option.inject)
qed

theorem group_commit_order_witness:
  "\<exists>us. [0, 1] = us @ q_tasks demo_queue"
  using group_commit_order [OF demo_queue_run] by (simp add: committed_def)

text \<open>
  C5: No wake-up is lost. When every commit ends, then from any reachable state, as long as no new write
  arrives, at most five steps per writer can be taken, and while a writer has not returned there is a
  step to take: every execution ends with all writers returned.
\<close>

theorem group_commit_live:
  assumes "wq_run commit h sd (wq_init s0) evs q" "\<forall>tks s. \<exists>s' r. commit tks s s' r" "(wq_internal commit h sd ^^ n) q q'"
  shows "n \<le> 5 * card (dom (q_pc q)) \<and> (all_returned q' \<or> (\<exists>q''. wq_internal commit h sd q' q''))"
proof -
  note g = wq_good_run [OF assms(1)]
  note i = internal_inv [OF g assms(3)]
  have "finite (dom (q_pc q))" using g wq_invD(6) by (auto simp: wq_good_def)
  moreover obtain ld ts where "wq_inv ld ts q'" using i by (auto simp: wq_good_def)
  ultimately show ?thesis using i work_bound [of q] internal_enabled [of ld ts q' commit] assms(2) by fastforce
qed

theorem group_commit_live_witness:
  "(\<exists>q'. wq_internal demo_commit demo_hash demo_wal_serde demo_queue q')
   \<and> (\<nexists>q'. (wq_internal demo_commit demo_hash demo_wal_serde ^^ 11) demo_queue q')"
proof -
  have total: "\<forall>tks s. \<exists>s' r. demo_commit tks s s' r" by (simp add: demo_commit_def)
  have "card (dom (q_pc demo_queue)) = 2" by (simp add: demo_queue_pc)
  moreover have "\<not> all_returned demo_queue" by (auto simp: all_returned_def demo_queue_pc intro!: exI [of _ 0])
  ultimately show ?thesis
    using group_commit_live [OF demo_queue_run total, of 0 demo_queue] group_commit_live [OF demo_queue_run total, of 11] by fastforce
qed

end
