(* ===== verification/Engine_Write.thy ===== *)
theory Engine_Write
  imports Compaction_Correct Write_Queue
begin

text \<open>
  The write path of \<^verbatim>\<open>dtdb_storage/src/engine.rs\<close>: committing a group of writes, sealing the full
  memtable behind a fresh WAL segment, flushing sealed memtables to level 0 and retiring their segments,
  and the gates that hold writers and background tasks back.

  The store is the state of compaction with the write-ahead log and the counters of the gates. WAL segment
  files are named by their id. A function that would wait for another thread says so with its result
  \<open>None\<close> or is guarded by a predicate. Flushes of different memtables run side by side, so a flush is three
  steps: claiming the slot, writing the file, and retiring segments; the step relation interleaves them with
  commits, seals, reads and compactions.
\<close>

section \<open>State\<close>

record 'x store = "'x lsm" +
  w_wal :: framed_log
  w_active_id :: u64
  w_next_id :: u64
  w_segments :: "u64 \<rightharpoonup> byte list"
  w_imm_count :: nat
  w_flush_down :: bool
  w_l0_down :: bool
  w_bg_down :: bool
  w_bg_active :: nat

record seal_io =
  si_open :: io
  si_dir :: dir_sync

record flush_io =
  fi_create :: bool
  fi_append :: "nat \<Rightarrow> io"
  fi_finish :: sst_io
  fi_manifest :: sl_io
  fi_open :: bool

record retire_io =
  ri_remove :: bool
  ri_dir :: dir_sync

section \<open>Backpressure\<close>

definition l0_count :: "('x, 'z) engine_scheme \<Rightarrow> nat" where
  "l0_count e = length (level_files 0 (e_sstables e))"

text \<open>\<open>await_l0_limit\<close> returns in exactly the states where this holds.\<close>

definition l0_limit_ok :: "'x store \<Rightarrow> bool" where
  "l0_limit_ok st \<longleftrightarrow> w_l0_down st \<or> l0_count st < l0_stop_writes_trigger (s_options st)"

text \<open>How long \<open>maybe_slowdown_writes\<close> sleeps; a shift takes its distance modulo 64 in a release build.\<close>

definition slowdown_ms :: "'x store \<Rightarrow> u64 option" where
  "slowdown_ms st =
     (let opt = s_options st; n = l0_count st
      in if l0_slowdown_writes_trigger opt \<le> n \<and> n < l0_stop_writes_trigger opt
         then Some (min (push_bit ((n - l0_slowdown_writes_trigger opt) mod 64) 1) (of_nat (l0_slowdown_max_sleep_ms opt)))
         else None)"

definition immutable_cap :: "engine_options \<Rightarrow> nat" where
  "immutable_cap opt = max_write_buffer_number opt - 1"

text \<open>\<open>await_flush_slot\<close> returns in exactly the states where this holds.\<close>

definition flush_slot_free :: "'x store \<Rightarrow> bool" where
  "flush_slot_free st \<longleftrightarrow> w_imm_count st < immutable_cap (s_options st) \<or> w_flush_down st"

section \<open>Committing\<close>

text \<open>
  \<open>commit_coalesced\<close> up to its decision whether to flush: the frames of all tasks are appended in one
  write, and only then are the batches applied.
\<close>

definition commit_write :: "io \<Rightarrow> ('x::linorder) write_task list \<Rightarrow> 'x store \<Rightarrow> 'x store \<times> bool result" where
  "commit_write io tasks st =
     (let (l, r) = append_prebuilt_bytes io (concat (map wt_frame tasks)) (w_wal st);
          st1 = st\<lparr>w_wal := l, w_segments := (w_segments st)(w_active_id st \<mapsto> fl_file l)\<rparr>;
          merged = concat (map wt_batch tasks)
      in case r of
           Inl e \<Rightarrow> (st1, Inl e)
         | Inr _ \<Rightarrow>
             (let m = apply_drain merged (e_active st1);
                  mem_full = memtable_size_limit (s_options st) \<le> mem_byte_size m;
                  wal_full = wal_size_limit (s_options st) \<le> size_bytes l
              in (st1\<lparr>e_active := m\<rparr>, Inr (mem_full \<or> wal_full))))"

definition seal_active :: "seal_io \<Rightarrow> 'x store \<Rightarrow> 'x store \<times> 'x imm_memtable option result" where
  "seal_active io st =
     (if mem_is_empty (e_active st) then (st, Inr None)
      else let sealed_wal_id = w_active_id st; sst_id = s_next_sst st; new_wal_id = w_next_id st;
               (f, r) = wal_open (si_open io) (wal_sync_interval_ms (s_options st)) (w_segments st new_wal_id);
               st1 = st\<lparr>s_next_sst := sst_id + 1, w_next_id := new_wal_id + 1,
                        w_segments := (w_segments st)(new_wal_id \<mapsto> f)\<rparr>
           in case rbind r (\<lambda>new_wal. rbind (fsync_parent_dir (si_dir io)) (\<lambda>_. Inr new_wal)) of
                Inl e \<Rightarrow> (st1, Inl e)
              | Inr new_wal \<Rightarrow>
                  (let imm = \<lparr>imm_table = e_active st, imm_wal_id = sealed_wal_id, imm_sst_id = sst_id, imm_slot = Pending\<rparr>
                   in (st1\<lparr>w_wal := new_wal, w_active_id := new_wal_id, e_active := mem_new,
                          e_immutable := imm # e_immutable st, w_imm_count := w_imm_count st + 1\<rparr>, Inr (Some imm))))"

text \<open>With nobody else running, the whole of \<open>commit_coalesced\<close>; \<open>None\<close> where it waits for a flush or a compaction.\<close>

definition flush_active_in_background :: "seal_io \<Rightarrow> 'x store \<Rightarrow> ('x store \<times> unit result) option" where
  "flush_active_in_background io st =
     (if \<not> flush_slot_free st then None
      else case seal_active io st of
             (st', Inl e) \<Rightarrow> Some (st', Inl e)
           | (st', Inr _) \<Rightarrow> Some (st', Inr ()))"

definition commit_coalesced :: "io \<Rightarrow> seal_io \<Rightarrow> ('x::linorder) write_task list \<Rightarrow> 'x store \<Rightarrow> ('x store \<times> unit result) option" where
  "commit_coalesced io sio tasks st =
     (if \<not> l0_limit_ok st then None
      else case commit_write io tasks st of
             (st1, Inl e) \<Rightarrow> Some (st1, Inl e)
           | (st1, Inr trigger_flush) \<Rightarrow> if trigger_flush then flush_active_in_background sio st1 else Some (st1, Inr ()))"

section \<open>Flushing\<close>

definition register_l0 :: "'x sst_reader \<Rightarrow> 'x levels \<Rightarrow> 'x levels" where
  "register_l0 r lv = bt_insert 0 (insert_l0_sorted r (level_files 0 lv)) lv"

text \<open>No file reaches \<open>2 ^ 64\<close> bytes; that is folded into the outcome of opening it, as in a compaction.\<close>

definition write_immutable_sstable :: "(byte list \<Rightarrow> u32) \<Rightarrow> (manifest, manifest_edit) snapshotable \<Rightarrow> ('x::linorder) sst_codec
    \<Rightarrow> flush_io \<Rightarrow> 'x imm_memtable \<Rightarrow> 'x store \<Rightarrow> ('x store \<times> unit result) option" where
  "write_immutable_sstable h sn cd io imm st =
     (let entries = mem_entries (imm_table imm); sst_id = imm_sst_id imm; opt = s_options st
      in case sst_create cd (fi_create io) (block_size_limit opt) (compression opt) (length entries) (e_layout st) of
           Inl e \<Rightarrow> Some (st, Inl e)
         | Inr w \<Rightarrow>
             (case sst_append_all cd (fi_append io) entries w of
                None \<Rightarrow> None
              | Some (w', Inl e) \<Rightarrow> Some (st, Inl e)
              | Some (w', Inr _) \<Rightarrow>
                  (case sst_finish cd (fi_finish io) (s_disk st (0, sst_id)) w' of
                     None \<Rightarrow> None
                   | Some (final, _, res) \<Rightarrow>
                       (let st1 = st\<lparr>s_disk := (s_disk st)((0, sst_id) := final)\<rparr>
                        in case res of
                             Inl e \<Rightarrow> Some (st1, Inl e)
                           | Inr _ \<Rightarrow>
                               (let (m, r) = sl_append h sn (fi_manifest io) (AddSstable 0 sst_id) (s_manifest st1);
                                    st2 = st1\<lparr>s_manifest := m\<rparr>
                                in case rbind r (\<lambda>_. rbind (ok_or Io final) (\<lambda>f.
                                          if fi_open io \<and> length f < 2 ^ 64 then sst_open cd sst_id 0 f else Inl Io)) of
                                     Inl e \<Rightarrow> Some (st2, Inl e)
                                   | Inr reader \<Rightarrow> Some (st2\<lparr>e_sstables := register_l0 reader (e_sstables st2)\<rparr>, Inr ()))))))"

definition mark :: "u64 \<Rightarrow> slot_state \<Rightarrow> 'x imm_memtable \<Rightarrow> 'x imm_memtable" where
  "mark sid s imm = (if imm_sst_id imm = sid then imm\<lparr>imm_slot := s\<rparr> else imm)"

definition set_slot :: "u64 \<Rightarrow> slot_state \<Rightarrow> 'x store \<Rightarrow> 'x store" where
  "set_slot sid s st = st\<lparr>e_immutable := map (mark sid s) (e_immutable st)\<rparr>"

text \<open>The flush of a memtable whose slot this thread has claimed: the file, then the new state of the slot.\<close>

definition flush_claimed :: "(byte list \<Rightarrow> u32) \<Rightarrow> (manifest, manifest_edit) snapshotable \<Rightarrow> ('x::linorder) sst_codec
    \<Rightarrow> flush_io \<Rightarrow> 'x imm_memtable \<Rightarrow> 'x store \<Rightarrow> ('x store \<times> unit result) option" where
  "flush_claimed h sn cd io imm st =
     (case write_immutable_sstable h sn cd io imm st of
        None \<Rightarrow> None
      | Some (st1, r) \<Rightarrow> Some (set_slot (imm_sst_id imm) (case r of Inr _ \<Rightarrow> Completed | Inl _ \<Rightarrow> Pending) st1, r))"

text \<open>One turn of the loop of \<open>retire_durable_prefix\<close>, and whether to go on.\<close>

definition retire_oldest :: "retire_io \<Rightarrow> 'x store \<Rightarrow> 'x store \<times> bool result" where
  "retire_oldest io st =
     (if e_immutable st = [] then (st, Inr False)
      else let oldest = last (e_immutable st)
           in if imm_slot oldest \<noteq> Completed then (st, Inr False)
              else if w_segments st (imm_wal_id oldest) = None \<or> \<not> ri_remove io then (st, Inl Io)
              else let st1 = st\<lparr>w_segments := (w_segments st)(imm_wal_id oldest := None)\<rparr>
                   in case fsync_parent_dir (ri_dir io) of
                        Inl e \<Rightarrow> (st1, Inl e)
                      | Inr _ \<Rightarrow> (st1\<lparr>e_immutable := butlast (e_immutable st), w_imm_count := w_imm_count st - 1\<rparr>, Inr True))"

lemma retire_oldest_shorter: "retire_oldest io st = (st', Inr True) \<Longrightarrow> length (e_immutable st') < length (e_immutable st)"
  by (auto simp: retire_oldest_def Let_def split: if_splits sum.splits)

function retire_durable_prefix :: "(nat \<Rightarrow> retire_io) \<Rightarrow> 'x store \<Rightarrow> 'x store \<times> unit result" where
  "retire_durable_prefix ios st =
     (case retire_oldest (ios 0) st of
        (st1, Inl e) \<Rightarrow> (st1, Inl e)
      | (st1, Inr again) \<Rightarrow> if again then retire_durable_prefix (\<lambda>i. ios (Suc i)) st1 else (st1, Inr ()))"
  by pat_completeness auto
termination
  by (relation "measure (\<lambda>(ios, st). length (e_immutable st))") (auto dest: retire_oldest_shorter [OF sym])

declare retire_durable_prefix.simps [simp del]

text \<open>\<open>None\<close> where it waits for the thread that has claimed the slot, or panics.\<close>

definition flush_immutable :: "(byte list \<Rightarrow> u32) \<Rightarrow> (manifest, manifest_edit) snapshotable \<Rightarrow> ('x::linorder) sst_codec
    \<Rightarrow> flush_io \<Rightarrow> (nat \<Rightarrow> retire_io) \<Rightarrow> 'x imm_memtable \<Rightarrow> 'x store \<Rightarrow> ('x store \<times> unit result) option" where
  "flush_immutable h sn cd io rio imm st =
     (case imm_slot imm of
        InFlight \<Rightarrow> None
      | Completed \<Rightarrow> Some (retire_durable_prefix rio st)
      | Pending \<Rightarrow>
          (case flush_claimed h sn cd io imm (set_slot (imm_sst_id imm) InFlight st) of
             None \<Rightarrow> None
           | Some (st1, Inl e) \<Rightarrow> Some (st1, Inl e)
           | Some (st1, Inr _) \<Rightarrow> Some (retire_durable_prefix rio st1)))"

partial_function (option) flush_pending :: "(byte list \<Rightarrow> u32) \<Rightarrow> (manifest, manifest_edit) snapshotable \<Rightarrow> ('x::linorder) sst_codec
    \<Rightarrow> (nat \<Rightarrow> flush_io) \<Rightarrow> (nat \<Rightarrow> nat \<Rightarrow> retire_io) \<Rightarrow> 'x store \<Rightarrow> ('x store \<times> unit result) option" where
  "flush_pending h sn cd fio rio st =
     (if e_immutable st = [] then Some (st, Inr ())
      else case flush_immutable h sn cd (fio 0) (rio 0) (last (e_immutable st)) st of
             None \<Rightarrow> None
           | Some (st1, Inl e) \<Rightarrow> Some (st1, Inl e)
           | Some (st1, Inr _) \<Rightarrow> flush_pending h sn cd (\<lambda>i. fio (Suc i)) (\<lambda>i. rio (Suc i)) st1)"

text \<open>\<open>flush_memtable\<close> without the request for a background compaction at its end.\<close>

definition flush_memtable :: "(byte list \<Rightarrow> u32) \<Rightarrow> (manifest, manifest_edit) snapshotable \<Rightarrow> ('x::linorder) sst_codec
    \<Rightarrow> seal_io \<Rightarrow> (nat \<Rightarrow> flush_io) \<Rightarrow> (nat \<Rightarrow> nat \<Rightarrow> retire_io) \<Rightarrow> 'x store \<Rightarrow> ('x store \<times> unit result) option" where
  "flush_memtable h sn cd sio fio rio st =
     (case seal_active sio st of
        (st1, Inl e) \<Rightarrow> Some (st1, Inl e)
      | (st1, Inr _) \<Rightarrow> flush_pending h sn cd fio rio st1)"

definition eng_compact :: "(byte list \<Rightarrow> u32) \<Rightarrow> (manifest, manifest_edit) snapshotable \<Rightarrow> ('x::linorder) sst_codec \<Rightarrow> 'x rewriter
    \<Rightarrow> seal_io \<Rightarrow> (nat \<Rightarrow> flush_io) \<Rightarrow> (nat \<Rightarrow> nat \<Rightarrow> retire_io) \<Rightarrow> (nat \<Rightarrow> compaction_io) \<Rightarrow> 'x store \<Rightarrow> 'x cache
    \<Rightarrow> (('x store \<times> unit result) \<times> 'x cache) option" where
  "eng_compact h sn cd rw sio fio rio cio st c =
     (case flush_memtable h sn cd sio fio rio st of
        None \<Rightarrow> None
      | Some (st1, Inl e) \<Rightarrow> Some ((st1, Inl e), c)
      | Some (st1, Inr _) \<Rightarrow>
          (case (if level_files 0 (e_sstables st1) \<noteq> [] then compact_level h sn cd rw (cio 0) 0 st1 c
                 else Some ((st1, Inr ()), c)) of
             None \<Rightarrow> None
           | Some ((st2, Inl e), c') \<Rightarrow> Some ((st2, Inl e), c')
           | Some ((st2, Inr _), c') \<Rightarrow> compact_if_needed_locked h sn cd rw (\<lambda>i. cio (Suc i)) st2 c'))"

section \<open>Background work and shutdown\<close>

definition enter_background :: "'x store \<Rightarrow> 'x store option" where
  "enter_background st = (if w_bg_down st then None else Some (st\<lparr>w_bg_active := w_bg_active st + 1\<rparr>))"

definition leave_background :: "'x store \<Rightarrow> 'x store" where
  "leave_background st = st\<lparr>w_bg_active := w_bg_active st - 1\<rparr>"

text \<open>\<open>quiesce\<close> raises the three flags and then waits until no background task is active.\<close>

definition quiesce :: "'x store \<Rightarrow> 'x store" where
  "quiesce st = st\<lparr>w_flush_down := True, w_l0_down := True, w_bg_down := True\<rparr>"

definition quiesced :: "'x store \<Rightarrow> bool" where
  "quiesced st \<longleftrightarrow> w_bg_down st \<and> w_bg_active st = 0"

definition sync_wal :: "io \<Rightarrow> 'x store \<Rightarrow> 'x store \<times> unit result" where
  "sync_wal io st = (let (l, r) = fl_sync io (w_wal st) in (st\<lparr>w_wal := l\<rparr>, r))"

section \<open>Interleavings\<close>

text \<open>The number of rows in the files, by their own statistics: a bound for what a compaction reads.\<close>

definition store_rows :: "('x, 'z) engine_scheme \<Rightarrow> nat" where
  "store_rows e = sum_list (map (\<lambda>r. st_entries (r_stats r)) (stack_files (e_sstables e)))"

definition bloom_fits :: "'x sst_codec \<Rightarrow> nat \<Rightarrow> bool" where
  "bloom_fits cd n \<longleftrightarrow> max (cd_opt_bits cd n) 8 + 7 < 2 ^ 64"

text \<open>
  The steps other threads take while a writer waits or between commits. Ids and filter sizes stay within
  64 bits. A compaction runs while no file of a memtable that still waits for its retirement is in level 0;
  the source does not ask for that, and without it a newer file that has moved to level 1 would be shadowed
  by the file of an older memtable that is flushed after it.
\<close>

inductive eng_bg :: "(byte list \<Rightarrow> u32) \<Rightarrow> (manifest, manifest_edit) snapshotable \<Rightarrow> ('x::linorder) sst_codec \<Rightarrow> 'x rewriter
    \<Rightarrow> 'x store \<times> 'x cache \<Rightarrow> 'x store \<times> 'x cache \<Rightarrow> bool"
  for h sn cd rw where
    seal: "seal_active io st = (st', r) \<Longrightarrow> unat (s_next_sst st) + 1 < 2 ^ 64 \<Longrightarrow> eng_bg h sn cd rw (st, c) (st', c)"
  | claim: "i \<in> set (e_immutable st) \<Longrightarrow> imm_slot i = Pending \<Longrightarrow> eng_bg h sn cd rw (st, c) (set_slot (imm_sst_id i) InFlight st, c)"
  | flush: "i \<in> set (e_immutable st) \<Longrightarrow> imm_slot i = InFlight \<Longrightarrow> bloom_fits cd (length (mt_map (imm_table i))) \<Longrightarrow>
      flush_claimed h sn cd io i st = Some (st', r) \<Longrightarrow> eng_bg h sn cd rw (st, c) (st', c)"
  | retire: "retire_oldest rio st = (st', b) \<Longrightarrow> eng_bg h sn cd rw (st, c) (st', c)"
  | compact: "\<forall>i \<in> set (e_immutable st). imm_slot i \<noteq> Completed \<Longrightarrow> \<forall>n \<le> store_rows st. bloom_fits cd n \<Longrightarrow>
      unat (s_next_sst st) + store_rows st < 2 ^ 64 \<Longrightarrow>
      compact_level h sn cd rw cio level st c = Some ((st', r), c') \<Longrightarrow> eng_bg h sn cd rw (st, c) (st', c')"
  | get: "eng_get cd rw st k c = Some (v, c') \<Longrightarrow> eng_bg h sn cd rw (st, c) (st, c')"
  | sync: "sync_wal io st = (st', r) \<Longrightarrow> eng_bg h sn cd rw (st, c) (st', c)"

text \<open>
  A commit among them: the leader waits for the limit on level 0, appends and applies, and when a buffer is
  full waits for a free slot and seals. A failed seal fails the commit although it has been applied.
\<close>

definition eng_commit :: "(byte list \<Rightarrow> u32) \<Rightarrow> (manifest, manifest_edit) snapshotable \<Rightarrow> ('x::linorder) sst_codec \<Rightarrow> 'x rewriter
    \<Rightarrow> 'x write_task list \<Rightarrow> 'x store \<times> 'x cache \<Rightarrow> 'x store \<times> 'x cache \<Rightarrow> unit result \<Rightarrow> bool" where
  "eng_commit h sn cd rw tks s s' r \<longleftrightarrow>
     (\<exists>st1 c1 io st2 res. (eng_bg h sn cd rw)\<^sup>*\<^sup>* s (st1, c1) \<and> l0_limit_ok st1 \<and> commit_write io tks st1 = (st2, res)
      \<and> (case res of
           Inl e \<Rightarrow> r = Inl e \<and> s' = (st2, c1)
         | Inr trigger_flush \<Rightarrow>
             if \<not> trigger_flush then r = Inr () \<and> s' = (st2, c1)
             else \<exists>st3 c3 sio st4 res4. (eng_bg h sn cd rw)\<^sup>*\<^sup>* (st2, c1) (st3, c3) \<and> flush_slot_free st3 \<and> seal_active sio st3 = (st4, res4)
                    \<and> unat (s_next_sst st3) + 1 < 2 ^ 64 \<and> s' = (st4, c3) \<and> r = rbind res4 (\<lambda>_. Inr ())))"

text \<open>With nobody else running, a commit that does not wait is one of these.\<close>

lemma commit_coalesced_eng_commit:
  assumes "commit_coalesced io sio tks st = Some (st', r)" "unat (s_next_sst st) + 1 < 2 ^ 64"
  shows "eng_commit h sn cd rw tks (st, c) (st', c) r"
proof -
  obtain st1 res where w: "commit_write io tks st = (st1, res)" by fastforce
  then have "s_next_sst st1 = s_next_sst st" by (auto simp: commit_write_def Let_def split: prod.splits sum.splits)
  moreover have "l0_limit_ok st" using assms(1) by (auto simp: commit_coalesced_def split: if_splits)
  ultimately show ?thesis using assms w
    by (cases res) (auto simp: commit_coalesced_def flush_active_in_background_def eng_commit_def split: if_splits prod.splits sum.splits, fastforce+)
qed

text \<open>Shutting down releases every writer that waits at a gate.\<close>

lemma quiesce_releases_writers: "\<exists>st' r. commit_coalesced io sio tks (quiesce st) = Some (st', r)"
proof -
  obtain st1 res where w: "commit_write io tks (quiesce st) = (st1, res)" by fastforce
  then have "flush_slot_free st1" by (auto simp: commit_write_def quiesce_def flush_slot_free_def Let_def split: prod.splits sum.splits)
  then show ?thesis using w
    by (cases res) (auto simp: commit_coalesced_def flush_active_in_background_def l0_limit_ok_def quiesce_def split: prod.splits sum.splits)
qed

section \<open>Level 0\<close>

lemma insert_l0_split:
  assumes "sorted_wrt (\<lambda>a b. r_id b < r_id a) l"
  shows "insert_l0_sorted r l = takeWhile (\<lambda>x. r_id r < r_id x) l @ r # dropWhile (\<lambda>x. r_id r < r_id x) l"
proof -
  have "sorted_wrt (\<lambda>x y. r_id r < r_id y \<longrightarrow> r_id r < r_id x) l"
    using assms by (rule sorted_wrt_mono_rel [rotated]) auto
  from partition_point_takeWhile [OF this] show ?thesis
    by (simp add: insert_l0_sorted_def Let_def takeWhile_eq_take [symmetric] dropWhile_eq_drop [symmetric])
qed

lemma insert_l0_set: "sorted_wrt (\<lambda>a b. r_id b < r_id a) l \<Longrightarrow> set (insert_l0_sorted r l) = insert r (set l)"
  unfolding insert_l0_split by (metis list.simps(15) set_append takeWhile_dropWhile_id Un_insert_right)

lemma insert_l0_desc:
  assumes l: "sorted_wrt (\<lambda>a b. r_id b < r_id a) l" and new: "\<forall>x \<in> set l. r_id x \<noteq> r_id r"
  shows "sorted_wrt (\<lambda>a b. r_id b < r_id a) (insert_l0_sorted r l)"
proof -
  let ?P = "\<lambda>x. r_id r < r_id x"
  have parts: "sorted_wrt (\<lambda>a b. r_id b < r_id a) (takeWhile ?P l @ dropWhile ?P l)" using l by simp
  have low: "r_id x < r_id r" if x: "x \<in> set (dropWhile ?P l)" for x
  proof -
    have ne: "dropWhile ?P l \<noteq> []" using x by (metis empty_iff list.set(1))
    have h: "\<not> ?P (hd (dropWhile ?P l))" "hd (dropWhile ?P l) \<in> set l"
      using hd_dropWhile [OF ne] set_dropWhileD [OF list.set_sel(1) [OF ne]] by auto
    have "x = hd (dropWhile ?P l) \<or> r_id x < r_id (hd (dropWhile ?P l))"
      using x parts by (cases "dropWhile ?P l") (auto simp: sorted_wrt_append)
    moreover have "r_id (hd (dropWhile ?P l)) < r_id r" using h new linorder_less_linear by blast
    ultimately show ?thesis using order_less_trans by blast
  qed
  have high: "r_id r < r_id x" if "x \<in> set (takeWhile ?P l)" for x using that by (auto dest: set_takeWhileD)
  show ?thesis unfolding insert_l0_split [OF l] sorted_wrt_append sorted_wrt.simps
    using parts [unfolded sorted_wrt_append] low high by (metis order_less_trans set_ConsD)
qed

lemma level_files_register: "level_files n (register_l0 r lv) = (if n = 0 then insert_l0_sorted r (level_files 0 lv) else level_files n lv)"
  by (simp add: register_l0_def level_files_def)

lemma ksorted_register: "ksorted lv \<Longrightarrow> ksorted (register_l0 r lv)"
  by (simp add: register_l0_def ksorted_bt_insert)

section \<open>Writing a sealed memtable\<close>

lemma sst_append_all_total: "writer_inv cd cmpr lay bl es0 ws w \<Longrightarrow> sst_append_all cd ios es w \<noteq> None"
proof (induction cd ios es w arbitrary: es0 ws rule: sst_append_all.induct)
  case (2 cd ios e es w)
  obtain w1 r where a: "sst_append cd (ios 0) (fst e) (snd e) w = Some (w1, r)"
    using sst_append_total [OF writer_inv_file [OF 2(2)], of cd "ios 0" "fst e" "snd e"] by auto
  show ?case
  proof (cases r)
    case (Inr u)
    then obtain ws1 where "writer_inv cd cmpr lay bl (es0 @ [(fst e, snd e)]) ws1 w1" using sst_append_inv [OF 2(2), of "ios 0" "fst e" "snd e" w1] a by auto
    then show ?thesis using 2(1) [OF a refl Inr] a Inr by simp
  qed (use a in auto)
qed simp

lemma sst_open_file:
  assumes "sst_open cd sid level f = Inr r"
  shows "r_file r = f"
proof -
  have if_Inr: "(if b then Inl e else y) = Inr x \<longleftrightarrow> \<not> b \<and> y = Inr x" for b e and y :: "'b result" and x by simp
  show ?thesis using assms unfolding sst_open_def Let_def if_Inr rbind_eq_Inr by clarsimp
qed

lemma finished_file:
  assumes cd: "codec_ok cd" and s: "ksorted es" "es \<noteq> []" and w: "writer_inv cd cmpr lay bl es ws w" and bl: "\<And>b. bl = Some b \<Longrightarrow> bloom_bits b \<noteq> 0"
    and fin: "sst_finish cd io old w = Some (Some f, tmp, Inr ())" and len: "length f < 2 ^ 64" and rd: "sst_open cd sid level f = Inr rd"
    and d: "d (level, sid) = Some f"
  shows "\<exists>bs. output_file cd lay level d rd bs \<and> r_id rd = sid \<and> concat bs = es"
proof (rule sst_finish_file [OF fin w])
  fix w2 ws2 bytes
  assume W2: "writer_inv cd cmpr lay bl es ws2 w2" "w_block w2 = []"
    "cd_ser_index cd (index_block_of w2) = Some bytes" "f = concat (map snd ws2) @ bytes @ footer cd (length (concat (map snd ws2))) bytes"
  obtain r where r: "sst_open cd sid level f = Inr r" "reader_ok cd r (map fst ws2)" "concat (map fst ws2) = es"
    "r_id r = sid" "r_level r = level" "r_layout r = lay" and st: "r_stats r = \<lparr>st_entries = length es,
      st_tombstones = length (filter (\<lambda>e. snd e = None) es), st_bytes = sum_list (map entry_byte_size es),
      st_min_key = (if es = [] then None else Some (fst (hd es))), st_max_key = (if es = [] then None else Some (fst (last es)))\<rparr>"
    using written_reader_ok [OF cd s(1) W2 len bl, of sid level] by blast
  then have "st_entries (r_stats r) = length es" by simp
  moreover note r
  moreover have "r_file r = f" using r(1) by (rule sst_open_file)
  moreover have "r = rd" using r(1) rd by simp
  moreover have "map fst ws2 \<noteq> []" using r(3) s(2) by auto
  ultimately show ?thesis using d by (intro exI [of _ "map fst ws2"]) (simp add: output_file_def)
qed

text \<open>What a successful flush leaves: a file of level 0 with the entries of the memtable.\<close>

definition flushed_file :: "('x::linorder) sst_codec \<Rightarrow> 'x imm_memtable \<Rightarrow> 'x store \<Rightarrow> 'x store \<Rightarrow> 'x sst_reader \<Rightarrow> 'x entry list list \<Rightarrow> bool" where
  "flushed_file cd imm st st' r bs \<longleftrightarrow>
     e_sstables st' = register_l0 r (e_sstables st) \<and> output_file cd (e_layout st) 0 (s_disk st') r bs
   \<and> r_id r = imm_sst_id imm \<and> concat bs = mt_map (imm_table imm)"

definition flush_frame :: "'x store \<Rightarrow> 'x store \<Rightarrow> bool" where
  "flush_frame st st' \<longleftrightarrow>
     e_active st' = e_active st \<and> e_immutable st' = e_immutable st \<and> e_layout st' = e_layout st \<and> s_options st' = s_options st
   \<and> s_next_sst st' = s_next_sst st \<and> w_wal st' = w_wal st \<and> w_active_id st' = w_active_id st \<and> w_next_id st' = w_next_id st
   \<and> w_segments st' = w_segments st \<and> w_imm_count st' = w_imm_count st"

lemma write_immutable_frame:
  assumes "write_immutable_sstable h sn cd io imm st = Some (st', r)"
  shows "flush_frame st st'" "p \<noteq> (0, imm_sst_id imm) \<Longrightarrow> s_disk st' p = s_disk st p" "r \<noteq> Inr () \<Longrightarrow> e_sstables st' = e_sstables st"
  using assms unfolding write_immutable_sstable_def Let_def flush_frame_def
  by (auto split: sum.splits option.splits prod.splits)

lemma write_immutable_runs:
  assumes "write_immutable_sstable h sn cd io imm st = None"
  shows False
proof -
  let ?es = "mem_entries (imm_table imm)" and ?opt = "s_options st"
  obtain w where w: "sst_create cd (fi_create io) (block_size_limit ?opt) (compression ?opt) (length ?es) (e_layout st) = Inr w"
    using assms by (cases "sst_create cd (fi_create io) (block_size_limit ?opt) (compression ?opt) (length ?es) (e_layout st)")
      (simp_all add: write_immutable_sstable_def Let_def)
  then obtain bl where wi: "writer_inv cd (compression ?opt) (e_layout st) bl [] [] w"
    using sst_create_inv [of cd "block_size_limit ?opt" "compression ?opt" "length ?es" "e_layout st" w] by (cases "fi_create io") (auto simp: sst_create_def)
  obtain w' r where a: "sst_append_all cd (fi_append io) ?es w = Some (w', r)" using sst_append_all_total [OF wi, of "fi_append io" ?es] by auto
  obtain u where u: "r = Inr u" using assms w a by (cases r) (simp_all add: write_immutable_sstable_def Let_def)
  then obtain ws where wi': "writer_inv cd (compression ?opt) (e_layout st) bl ([] @ ?es) ws w'" using sst_append_all_inv [OF wi, of "fi_append io" ?es w'] a by auto
  obtain final tmp res where fin: "sst_finish cd (fi_finish io) (s_disk st (0, imm_sst_id imm)) w' = Some (final, tmp, res)"
    using sst_finish_total [OF writer_inv_file [OF wi'], of cd "fi_finish io" "s_disk st (0, imm_sst_id imm)"] by auto
  then show False using assms w a u by (simp add: write_immutable_sstable_def Let_def split: sum.splits prod.splits)
qed

lemma write_immutable_done:
  assumes cd: "codec_ok cd" and bits: "max (cd_opt_bits cd (length (mt_map (imm_table imm)))) 8 + 7 < 2 ^ 64"
    and s: "ksorted (mt_map (imm_table imm))" "mt_map (imm_table imm) \<noteq> []"
    and run: "write_immutable_sstable h sn cd io imm st = Some (st', Inr ())"
  shows "\<exists>rd bs. flushed_file cd imm st st' rd bs"
    "\<exists>m. sl_append h sn (fi_manifest io) (AddSstable 0 (imm_sst_id imm)) (s_manifest st) = (m, Inr ()) \<and> s_manifest st' = m"
proof -
  let ?es = "mt_map (imm_table imm)" and ?opt = "s_options st" and ?sid = "imm_sst_id imm"
  let ?bl = "Some (bloom_new (cd_opt_bits cd) (cd_opt_hashes cd) (length ?es))"
  note W = run [unfolded write_immutable_sstable_def Let_def mem_entries_def]
  obtain w where w: "sst_create cd (fi_create io) (block_size_limit ?opt) (compression ?opt) (length ?es) (e_layout st) = Inr w"
    using W by (auto split: sum.splits)
  then have wi: "writer_inv cd (compression ?opt) (e_layout st) ?bl [] [] w"
    using sst_create_inv [of cd "block_size_limit ?opt" "compression ?opt" "length ?es" "e_layout st" w] s(2) by (cases "fi_create io") (auto simp: sst_create_def)
  obtain w' where a: "sst_append_all cd (fi_append io) ?es w = Some (w', Inr ())"
    using W w by (auto split: option.splits prod.splits sum.splits)
  then obtain ws where wi': "writer_inv cd (compression ?opt) (e_layout st) ?bl ?es ws w'"
    using sst_append_all_inv [OF wi, of "fi_append io" ?es w'] by auto
  obtain final tmp where fin: "sst_finish cd (fi_finish io) (s_disk st (0, ?sid)) w' = Some (final, tmp, Inr ())"
    using W w a by (auto split: option.splits prod.splits sum.splits)
  obtain m r2 where m: "sl_append h sn (fi_manifest io) (AddSstable 0 ?sid) (s_manifest st) = (m, r2)" by fastforce
  let ?o = "rbind r2 (\<lambda>_. rbind (ok_or Io final) (\<lambda>f. if fi_open io \<and> length f < 2 ^ 64 then sst_open cd ?sid 0 f else Inl Io))"
  obtain rd where rd: "?o = Inr rd" "st' = st\<lparr>s_disk := (s_disk st)((0, ?sid) := final), s_manifest := m, e_sstables := register_l0 rd (e_sstables st)\<rparr>"
    using W w a fin m by (auto split: sum.splits)
  then obtain f where f: "r2 = Inr ()" "final = Some f" "length f < 2 ^ 64" "sst_open cd ?sid 0 f = Inr rd"
    by (auto simp: rbind_eq_Inr split: if_splits option.splits) (cases final; auto)
  have b: "bloom_bits b \<noteq> 0" if "?bl = Some b" for b
    using that bloom_new_bits [of "length ?es" "cd_opt_bits cd" "cd_opt_hashes cd"] bits s(2) by auto
  obtain bs where "output_file cd (e_layout st) 0 (s_disk st') rd bs" "r_id rd = ?sid" "concat bs = ?es"
    using finished_file [OF cd s wi' b fin [unfolded f(2)] f(3,4), where d = "s_disk st'"] f(2) rd(2) by auto
  then have "flushed_file cd imm st st' rd bs" using rd(2) by (simp add: flushed_file_def)
  then show "\<exists>rd bs. flushed_file cd imm st st' rd bs" by blast
  show "\<exists>m. sl_append h sn (fi_manifest io) (AddSstable 0 (imm_sst_id imm)) (s_manifest st) = (m, Inr ()) \<and> s_manifest st' = m"
    using m f(1) rd(2) by simp
qed

section \<open>The invariant of the store\<close>

text \<open>
  Sealed memtables have ids in the order of sealing, below the next one. The slot of one says whether its
  file is in level 0. A file of level 0 with an id from the queue's range on belongs to a memtable of the
  queue, so that what is flushed out of order is never older than what is retired.
\<close>

definition sealed_ok :: "(u64 \<rightharpoonup> 'x sst_reader) \<Rightarrow> ('x sst_reader \<Rightarrow> 'x entry list list) \<Rightarrow> ('x::linorder) store \<Rightarrow> 'x imm_memtable \<Rightarrow> bool" where
  "sealed_ok U C st imm \<longleftrightarrow>
     unat (imm_sst_id imm) < unat (s_next_sst st) \<and> mt_map (imm_table imm) \<noteq> []
   \<and> (imm_slot imm = Completed \<longrightarrow> (\<exists>r \<in> set (level_files 0 (e_sstables st)).
        r_id r = imm_sst_id imm \<and> r_layout r = e_layout st \<and> concat (C r) = mt_map (imm_table imm)))
   \<and> (imm_slot imm \<noteq> Completed \<longrightarrow> U (imm_sst_id imm) = None)"

definition store_inv :: "('x::linorder) sst_codec \<Rightarrow> (u64 \<rightharpoonup> 'x sst_reader) \<Rightarrow> ('x sst_reader \<Rightarrow> 'x entry list list) \<Rightarrow> 'x store \<Rightarrow> bool" where
  "store_inv cd U C st \<longleftrightarrow>
     lsm_inv cd U C st \<and> sorted_wrt (\<lambda>a b. imm_sst_id b < imm_sst_id a) (e_immutable st)
   \<and> (\<forall>imm \<in> set (e_immutable st). sealed_ok U C st imm)
   \<and> (\<forall>r \<in> set (level_files 0 (e_sstables st)). \<forall>imm \<in> set (e_immutable st). imm_sst_id imm \<le> r_id r \<longrightarrow>
        (\<exists>i \<in> set (e_immutable st). imm_sst_id i = r_id r \<and> imm_slot i = Completed))"

lemma store_invD:
  assumes "store_inv cd U C st"
  shows "lsm_inv cd U C st" "sorted_wrt (\<lambda>a b. imm_sst_id b < imm_sst_id a) (e_immutable st)"
    "imm \<in> set (e_immutable st) \<Longrightarrow> sealed_ok U C st imm"
    "r \<in> set (level_files 0 (e_sstables st)) \<Longrightarrow> imm \<in> set (e_immutable st) \<Longrightarrow> imm_sst_id imm \<le> r_id r \<Longrightarrow>
       \<exists>i \<in> set (e_immutable st). imm_sst_id i = r_id r \<and> imm_slot i = Completed"
    "m \<in> set (mems st) \<Longrightarrow> mem_inv m" "sorted_wrt (\<lambda>a b. r_id b < r_id a) (level_files 0 (e_sstables st))"
  using assms unfolding store_inv_def lsm_inv_def read_inv_def by blast+

lemma sealed_unique:
  assumes "store_inv cd U C st" "a \<in> set (e_immutable st)" "b \<in> set (e_immutable st)" "imm_sst_id a = imm_sst_id b"
  shows "a = b"
proof -
  have "distinct (map imm_sst_id (e_immutable st))"
    using store_invD(2) [OF assms(1)] by (auto simp: distinct_conv_nth sorted_wrt_iff_nth_less nth_map linorder_neq_iff)
  then show ?thesis using assms(2-4) by (metis distinct_map inj_onD)
qed

section \<open>Committing a group\<close>

text \<open>What a write does to the contents of the database.\<close>

fun apply_write :: "'x wal_entry \<Rightarrow> ('x dbkey \<Rightarrow> 'x dbvalue option) \<Rightarrow> ('x dbkey \<Rightarrow> 'x dbvalue option)" where
  "apply_write (WPut k v) m = m(k := Some v)"
| "apply_write (WDelete k) m = m(k := None)"
| "apply_write (WBatch es) m = fold apply_write es m"

lemma replay_over:
  "\<not> is_batch e \<Longrightarrow> (\<lambda>k. Option.bind ((rest ++ replay e c) k) (\<lambda>s. s)) = apply_write e (\<lambda>k. Option.bind ((rest ++ c) k) (\<lambda>s. s))"
  by (cases e) (auto simp: fun_eq_iff map_add_def)

lemma fold_replay_over:
  "\<forall>e \<in> set es. \<not> is_batch e \<Longrightarrow> (\<lambda>k. Option.bind ((rest ++ fold replay es c) k) (\<lambda>s. s))
     = fold apply_write es (\<lambda>k. Option.bind ((rest ++ c) k) (\<lambda>s. s))"
proof (induction es arbitrary: c)
  case (Cons e es)
  then show ?case using replay_over [of e rest c] by simp
qed simp

definition group_batch :: "'x write_task list \<Rightarrow> 'x wal_entry list" where
  "group_batch tks = concat (map wt_batch tks)"

definition flat_group :: "'x write_task list \<Rightarrow> bool" where
  "flat_group tks \<longleftrightarrow> (\<forall>e \<in> set (group_batch tks). \<not> is_batch e)"

text \<open>The contents below the active memtable.\<close>

definition below :: "('x sst_reader \<Rightarrow> 'x entry list list) \<Rightarrow> (layout \<Rightarrow> 'x dbvalue \<Rightarrow> 'x dbvalue) \<Rightarrow> ('x, 'z) engine_scheme \<Rightarrow> 'x dbkey \<rightharpoonup> 'x slot" where
  "below C f e = newest (map (\<lambda>imm. mt_map (imm_table imm)) (e_immutable e) @ map (file_entries C (e_layout e) f) (stack_files (e_sstables e)))"

lemma db_lookup_below: "db_lookup C f e = (\<lambda>k. Option.bind ((below C f e ++ map_of (mt_map (e_active e))) k) (\<lambda>s. s))"
  by (simp add: fun_eq_iff db_lookup_def db_stack_def mems_def below_def map_add_def comp_def)

lemma below_cong: "e_immutable e' = e_immutable e \<Longrightarrow> e_sstables e' = e_sstables e \<Longrightarrow> e_layout e' = e_layout e \<Longrightarrow> below C f e' = below C f e"
  by (simp add: below_def)

lemma commit_write_fields:
  assumes "commit_write io tks st = (st', r)"
  shows "e_immutable st' = e_immutable st" "e_sstables st' = e_sstables st" "e_layout st' = e_layout st" "s_options st' = s_options st"
    "s_next_sst st' = s_next_sst st" "s_disk st' = s_disk st" "s_manifest st' = s_manifest st" "w_active_id st' = w_active_id st" "w_next_id st' = w_next_id st"
    "w_imm_count st' = w_imm_count st" "e_active st' = (case r of Inl _ \<Rightarrow> e_active st | Inr _ \<Rightarrow> apply_drain (group_batch tks) (e_active st))"
  using assms by (auto simp: commit_write_def group_batch_def Let_def split: prod.splits sum.splits)

lemma store_inv_active:
  assumes inv: "store_inv cd U C st" and m: "mem_inv (e_active st')" "e_immutable st' = e_immutable st" "e_sstables st' = e_sstables st" "e_layout st' = e_layout st"
    "s_options st' = s_options st" "s_next_sst st' = s_next_sst st" "s_disk st' = s_disk st"
  shows "store_inv cd U C st'"
  using inv m unfolding store_inv_def lsm_inv_def read_inv_def sealed_ok_def mems_def by simp

lemma store_inv_commit:
  assumes inv: "store_inv cd U C st" and c: "commit_write io tks st = (st', r)"
  shows "store_inv cd U C st'"
    "flat_group tks \<Longrightarrow> db_lookup C f st' = (case r of Inl _ \<Rightarrow> db_lookup C f st | Inr _ \<Rightarrow> fold apply_write (group_batch tks) (db_lookup C f st))"
proof -
  note F = commit_write_fields [OF c]
  have act: "mem_inv (e_active st)" using store_invD(5) [OF inv] by (simp add: mems_def)
  then have "mem_inv (e_active st')" unfolding F(11) by (auto simp: apply_drain_inv split: sum.splits)
  then show "store_inv cd U C st'" by (rule store_inv_active [OF inv]) (rule F)+
  assume flat: "flat_group tks"
  show "db_lookup C f st' = (case r of Inl _ \<Rightarrow> db_lookup C f st | Inr _ \<Rightarrow> fold apply_write (group_batch tks) (db_lookup C f st))"
  proof (cases r)
    case (Inl e)
    then show ?thesis using F(11) below_cong [OF F(1-3)] by (simp add: db_lookup_below)
  next
    case (Inr b)
    have fl: "\<forall>e \<in> set (group_batch tks). \<not> is_batch e" using flat by (simp add: flat_group_def)
    then have "map_of (mt_map (e_active st')) = fold replay (group_batch tks) (map_of (mt_map (e_active st)))"
      unfolding F(11) Inr using mem_get_fold [of "group_batch tks" "e_active st"] by (simp add: apply_drain_flat mem_get_eq)
    then show ?thesis using fold_replay_over [OF fl] below_cong [OF F(1-3)] Inr by (simp add: db_lookup_below)
  qed
qed

section \<open>Sealing\<close>

lemma seal_active_cases:
  assumes "seal_active io st = (st', r)"
  obtains (empty) "st' = st" "r = Inr None"
  | (failed) e where "r = Inl e" "mt_map (e_active st) \<noteq> []" "e_active st' = e_active st" "e_immutable st' = e_immutable st" "s_next_sst st' = s_next_sst st + 1"
      "e_sstables st' = e_sstables st" "e_layout st' = e_layout st" "s_options st' = s_options st" "s_disk st' = s_disk st"
  | (sealed) imm where "r = Inr (Some imm)" "mt_map (e_active st) \<noteq> []" "e_active st' = mem_new" "e_immutable st' = imm # e_immutable st" "s_next_sst st' = s_next_sst st + 1"
      "e_sstables st' = e_sstables st" "e_layout st' = e_layout st" "s_options st' = s_options st" "s_disk st' = s_disk st"
      "imm_table imm = e_active st" "imm_sst_id imm = s_next_sst st" "imm_slot imm = Pending" "w_imm_count st' = w_imm_count st + 1"
  using assms by (auto simp: seal_active_def mem_is_empty_def Let_def split: if_splits prod.splits sum.splits)

lemma store_inv_next:
  assumes inv: "store_inv cd U C st" and e: "e_active st' = e_active st" "e_immutable st' = e_immutable st"
    "e_sstables st' = e_sstables st" "e_layout st' = e_layout st" "s_options st' = s_options st" "s_disk st' = s_disk st"
    and n: "unat (s_next_sst st) \<le> unat (s_next_sst st')"
  shows "store_inv cd U C st'" "db_lookup C f st' = db_lookup C f st"
proof -
  have "lsm_inv cd U C st'" using e n by (intro lsm_inv_frame [OF store_invD(1) [OF inv]]) (simp_all add: mems_def)
  moreover have "sealed_ok U C st' imm" if "sealed_ok U C st imm" for imm
    using that n unfolding sealed_ok_def e by (auto intro: less_le_trans)
  ultimately show "store_inv cd U C st'" using inv unfolding store_inv_def e by blast
  show "db_lookup C f st' = db_lookup C f st" using e(1) below_cong [OF e(2-4)] by (simp add: db_lookup_below)
qed

lemma store_inv_seal:
  assumes inv: "store_inv cd U C st" and s: "seal_active io st = (st', r)" and n: "unat (s_next_sst st) + 1 < 2 ^ 64"
  shows "store_inv cd U C st'" "db_lookup C f st' = db_lookup C f st" "r = Inr (Some imm) \<Longrightarrow> e_immutable st' = imm # e_immutable st"
    "e_layout st' = e_layout st" "s_options st' = s_options st"
proof -
  have n': "unat (s_next_sst st + 1) = unat (s_next_sst st) + 1" using unat_Suc_u64 [OF n] .
  have "store_inv cd U C st' \<and> db_lookup C f st' = db_lookup C f st \<and> (\<forall>imm. r = Inr (Some imm) \<longrightarrow> e_immutable st' = imm # e_immutable st)
      \<and> e_layout st' = e_layout st \<and> s_options st' = s_options st"
    using s
  proof (cases rule: seal_active_cases)
    case empty
    then show ?thesis using inv by simp
  next
    case (failed e)
    then show ?thesis using store_inv_next [OF inv failed(3,4,6-9)] n' by simp
  next
    case (sealed imm)
    let ?st = "st\<lparr>s_next_sst := s_next_sst st + 1\<rparr>"
    have I: "store_inv cd U C ?st" "lsm_inv cd U C ?st"
      using store_inv_next(1) [OF inv, of ?st] store_invD(1) n' by simp_all
    have ids: "imm_sst_id i < s_next_sst st" if "i \<in> set (e_immutable st)" for i
      using store_invD(3) [OF inv that] by (simp add: sealed_ok_def word_less_nat_alt)
    have l0: "r_id r < s_next_sst st" if "r \<in> set (level_files 0 (e_sstables st))" for r
      using lsm_invD(6) [OF store_invD(1) [OF inv] that] by (simp add: word_less_nat_alt)
    have "U (s_next_sst st) = None"
      using store_invD(1) [OF inv] unfolding lsm_inv_def by (metis not_None_eq order_less_irrefl)
    moreover have "lsm_inv cd U C st'"
      using I(2) sealed unfolding lsm_inv_def read_inv_def mems_def by simp
    moreover have "sealed_ok U C st' i" if "sealed_ok U C ?st i" for i using that sealed(5-7) by (simp add: sealed_ok_def)
    moreover have "sorted_wrt (\<lambda>a b. imm_sst_id b < imm_sst_id a) (e_immutable st')"
      using sealed ids store_invD(2) [OF inv] by simp
    moreover have "\<forall>r \<in> set (level_files 0 (e_sstables st')). \<forall>i \<in> set (e_immutable st'). imm_sst_id i \<le> r_id r \<longrightarrow>
        (\<exists>j \<in> set (e_immutable st'). imm_sst_id j = r_id r \<and> imm_slot j = Completed)"
      using sealed l0 store_invD(4) [OF inv] by (auto simp: not_le [symmetric])
    moreover have "sealed_ok U C st' imm" using sealed n' \<open>U (s_next_sst st) = None\<close> by (simp add: sealed_ok_def)
    ultimately have "store_inv cd U C st'"
      using store_invD(3) [OF I(1)] sealed(4) unfolding store_inv_def by simp
    moreover have "db_lookup C f st' = db_lookup C f st"
      using sealed by (simp add: fun_eq_iff db_lookup_below below_def mem_new_def map_add_def)
    ultimately show ?thesis using sealed by simp
  qed
  then show "store_inv cd U C st'" "db_lookup C f st' = db_lookup C f st" "r = Inr (Some imm) \<Longrightarrow> e_immutable st' = imm # e_immutable st"
    "e_layout st' = e_layout st" "s_options st' = s_options st"
    by blast+
qed

section \<open>Flushing a sealed memtable\<close>

lemma mark_fields [simp]: "imm_sst_id (mark sid s i) = imm_sst_id i" "imm_table (mark sid s i) = imm_table i" "imm_wal_id (mark sid s i) = imm_wal_id i"
  by (simp_all add: mark_def)

lemma set_slot_fields [simp]:
  "e_immutable (set_slot sid s st) = map (mark sid s) (e_immutable st)" "e_sstables (set_slot sid s st) = e_sstables st"
  "e_layout (set_slot sid s st) = e_layout st" "s_next_sst (set_slot sid s st) = s_next_sst st" "e_active (set_slot sid s st) = e_active st"
  "s_disk (set_slot sid s st) = s_disk st" "s_options (set_slot sid s st) = s_options st" "s_manifest (set_slot sid s st) = s_manifest st"
  "w_segments (set_slot sid s st) = w_segments st" "w_imm_count (set_slot sid s st) = w_imm_count st"
  "w_wal (set_slot sid s st) = w_wal st" "w_active_id (set_slot sid s st) = w_active_id st" "w_next_id (set_slot sid s st) = w_next_id st"
  by (simp_all add: set_slot_def)

lemma mems_set_slot [simp]: "mems (set_slot sid s st) = mems st"
  by (simp add: mems_def comp_def)

lemma lookup_set_slot [simp]: "db_lookup C f (set_slot sid s st) = db_lookup C f st"
  by (simp add: fun_eq_iff db_lookup_def db_stack_def)

lemma lsm_inv_set_slot: "lsm_inv cd U C st \<Longrightarrow> lsm_inv cd U C (set_slot sid s st)"
  by (rule lsm_inv_frame [of cd U C st]) simp_all

lemma store_inv_slots:
  assumes inv: "store_inv cd U C st" and s: "s \<noteq> Completed" and i: "i \<in> set (e_immutable st)" "imm_slot i \<noteq> Completed"
  shows "store_inv cd U C (set_slot (imm_sst_id i) s st)"
proof -
  let ?g = "mark (imm_sst_id i) s" and ?st = "set_slot (imm_sst_id i) s st"
  have other: "?g j = j" if "j \<in> set (e_immutable st)" "j \<noteq> i" for j
    using sealed_unique [OF inv that(1) i(1)] that(2) by (auto simp: mark_def)
  have "sealed_ok U C ?st (?g j)" if j: "j \<in> set (e_immutable st)" for j
  proof (cases "j = i")
    case True
    then show ?thesis using store_invD(3) [OF inv i(1)] i(2) s by (simp add: sealed_ok_def mark_def)
  next
    case False
    then show ?thesis using store_invD(3) [OF inv j] other [OF j False] by (simp add: sealed_ok_def)
  qed
  moreover have "\<exists>j' \<in> set (e_immutable ?st). imm_sst_id j' = r_id r \<and> imm_slot j' = Completed"
    if r: "r \<in> set (level_files 0 (e_sstables st))" "j \<in> set (e_immutable st)" "imm_sst_id j \<le> r_id r" for r j
  proof -
    obtain j' where j': "j' \<in> set (e_immutable st)" "imm_sst_id j' = r_id r" "imm_slot j' = Completed"
      using store_invD(4) [OF inv r] by blast
    then have "?g j' = j'" using other i(2) by blast
    then have "j' \<in> set (e_immutable ?st)" using j'(1) by (metis imageI list.set_map set_slot_fields(1))
    then show ?thesis using j' by blast
  qed
  ultimately show ?thesis
    using store_invD(2) [OF inv] lsm_inv_set_slot [OF store_invD(1) [OF inv]] unfolding store_inv_def by (auto simp: sorted_wrt_map)
qed

lemma newest_insert:
  assumes "map_of l k \<noteq> None \<Longrightarrow> newest ms k \<noteq> None"
  shows "newest (ms @ xs @ l # ys) k = newest (ms @ xs @ ys) k"
  using assms by (auto simp: newest_append split: option.splits)

lemma stack_files_register: "stack_files (register_l0 r lv) = insert_l0_sorted r (level_files 0 lv) @ deep_files lv"
proof -
  have "deep_files (bt_insert (0 :: nat) x lv) = deep_files lv" for x
    by (cases lv) (auto simp: deep_files_def)
  then show ?thesis by (simp add: stack_files_def level_files_register) (simp add: register_l0_def)
qed

lemma file_entries_same_layout: "r_layout r = lay \<Longrightarrow> map_of (file_entries C lay f r) k = map_of (concat (C r)) k"
  by (simp add: file_entries_def map_of_migrated map_option_same option.map_id0)

lemma below_register:
  assumes inv: "store_inv cd U C st" and i: "i \<in> set (e_immutable st)"
    and r: "r_layout r = e_layout st" "concat bs = mt_map (imm_table i)" "\<And>r'. r' \<in> set (stack_files (e_sstables st)) \<Longrightarrow> r' \<noteq> r"
    and e: "e_immutable st' = e_immutable st" "e_sstables st' = register_l0 r (e_sstables st)" "e_layout st' = e_layout st"
  shows "below (C(r := bs)) f st' = below C f st"
proof
  fix k
  let ?F = "file_entries C (e_layout st) f" and ?F' = "file_entries (C(r := bs)) (e_layout st) f"
  let ?ms = "map (\<lambda>imm. mt_map (imm_table imm)) (e_immutable st)"
  obtain xs ys where l: "level_files 0 (e_sstables st) = xs @ ys" "insert_l0_sorted r (level_files 0 (e_sstables st)) = xs @ r # ys"
    using insert_l0_split [OF store_invD(6) [OF inv], of r] takeWhile_dropWhile_id by metis
  define zs where "zs = ys @ deep_files (e_sstables st)"
  have sf: "stack_files (e_sstables st) = xs @ zs" "stack_files (e_sstables st') = xs @ r # zs"
    unfolding e stack_files_register l(2) by (simp_all add: stack_files_def l(1) zs_def)
  then have same: "map ?F' xs = map ?F xs" "map ?F' zs = map ?F zs"
    using r(3) by (auto simp: file_entries_def)
  have "map_of (?F' r) k = map_of (mt_map (imm_table i)) k" using r(1,2) by (simp add: file_entries_same_layout)
  then have "map_of (?F' r) k \<noteq> None \<longrightarrow> newest ?ms k \<noteq> None" using i by (auto simp: newest_None)
  then have "newest (?ms @ map ?F xs @ ?F' r # map ?F zs) k = newest (?ms @ map ?F xs @ map ?F zs) k" by (intro newest_insert) blast
  then show "below (C(r := bs)) f st' k = below C f st k"
    unfolding below_def e(1,3) sf map_append list.map same .
qed

lemma deep_ok_cong: "(\<And>r. r \<in> set fs \<Longrightarrow> C' r = C r) \<Longrightarrow> deep_ok C' fs = deep_ok C fs"
  by (induction fs) (auto simp: deep_ok_def file_lo_def)

lemma lsm_inv_register:
  assumes I: "lsm_inv cd U C st" and i: "U (imm_sst_id i) = None" "unat (imm_sst_id i) < unat (s_next_sst st)"
    and fr: "flush_frame st st'" and dk: "\<forall>p. p \<noteq> (0, imm_sst_id i) \<longrightarrow> s_disk st' p = s_disk st p" and ff: "flushed_file cd i st st' r bs"
  shows "lsm_inv cd (U(imm_sst_id i \<mapsto> r)) (C(r := bs)) st'" "r' \<in> set (level_files n (e_sstables st)) \<Longrightarrow> r' \<noteq> r \<and> r_id r' \<noteq> imm_sst_id i"
proof -
  let ?C = "C(r := bs)" and ?U = "U(imm_sst_id i \<mapsto> r)"
  have F: "e_sstables st' = register_l0 r (e_sstables st)" "output_file cd (e_layout st) 0 (s_disk st') r bs" "r_id r = imm_sst_id i"
    using ff by (simp_all add: flushed_file_def)
  have fresh: "r' \<noteq> r \<and> r_id r' \<noteq> imm_sst_id i" if "r' \<in> set (level_files n (e_sstables st))" for r' n
    using lsm_invD(3) [OF I that] i(1) F(3) by (cases "r_id r' = imm_sst_id i") auto
  then show "r' \<in> set (level_files n (e_sstables st)) \<Longrightarrow> r' \<noteq> r \<and> r_id r' \<noteq> imm_sst_id i" .
  have desc: "sorted_wrt (\<lambda>a b. r_id b < r_id a) (level_files 0 (e_sstables st))" using I by (simp add: lsm_inv_def)
  have lf: "set (level_files n (e_sstables st')) = (if n = 0 then insert r (set (level_files 0 (e_sstables st))) else set (level_files n (e_sstables st)))" for n
    unfolding F(1) level_files_register by (simp add: insert_l0_set [OF desc])
  have new: "reader_ok cd r (?C r)" "bs \<noteq> []" "r_level r = 0" "s_disk st' (0, r_id r) = Some (r_file r)" "st_entries (r_stats r) = length (concat bs)"
    using F(2) by (simp_all add: output_file_def)
  have rok: "reader_ok cd x (?C x) \<and> ?U (r_id x) = Some x \<and> r_level x = n \<and> ?C x \<noteq> [] \<and> s_disk st' (n, r_id x) = Some (r_file x)
      \<and> n \<le> max_level (s_options st') \<and> st_entries (r_stats x) = length (concat (?C x))"
    if x: "x \<in> set (level_files n (e_sstables st'))" for x n
  proof (cases "x \<in> set (level_files n (e_sstables st))")
    case True
    note old = lsm_invD(3,4) [OF I True] fresh [OF True]
    have "s_disk st' (n, r_id x) = s_disk st (n, r_id x)" using dk old(3) by auto
    then show ?thesis using old fr by (simp add: flush_frame_def)
  next
    case False
    then have "x = r" "n = 0" using x lf [of n] by (auto split: if_splits)
    then show ?thesis using new F(3) by simp
  qed
  have "deep_ok ?C (level_files n (e_sstables st'))" if "n \<noteq> 0" for n
  proof -
    have "level_files n (e_sstables st') = level_files n (e_sstables st)" using that by (simp add: F(1) level_files_register)
    moreover have "deep_ok ?C (level_files n (e_sstables st)) = deep_ok C (level_files n (e_sstables st))"
      using fresh [of _ n] by (intro deep_ok_cong) simp
    ultimately show ?thesis using lsm_invD(2) [OF I that] by simp
  qed
  moreover have "ksorted (e_sstables st')" using lsm_invD(1) [OF I] by (simp add: F(1) ksorted_register)
  ultimately have "files_ok cd ?U ?C (e_sstables st')" using rok by (simp add: files_ok_levels)
  moreover have "sorted_wrt (\<lambda>a b. r_id b < r_id a) (level_files 0 (e_sstables st'))"
    unfolding F(1) level_files_register using insert_l0_desc [OF desc, of r] fresh F(3) by simp
  moreover have "mems st' = mems st" using fr by (simp add: flush_frame_def mems_def)
  moreover have "\<forall>j x. ?U j = Some x \<longrightarrow> unat j < unat (s_next_sst st')"
    using I i(2) fr by (auto simp: lsm_inv_def flush_frame_def)
  ultimately show "lsm_inv cd ?U ?C st'" using I rok unfolding lsm_inv_def read_inv_def by simp
qed

lemma store_inv_flushed:
  assumes inv: "store_inv cd U C st" and i: "i \<in> set (e_immutable st)" "imm_slot i \<noteq> Completed"
    and fr: "flush_frame st st'" and dk: "\<forall>p. p \<noteq> (0, imm_sst_id i) \<longrightarrow> s_disk st' p = s_disk st p" and ff: "flushed_file cd i st st' r bs"
  shows "store_inv cd (U(imm_sst_id i \<mapsto> r)) (C(r := bs)) (set_slot (imm_sst_id i) Completed st')"
    "db_lookup (C(r := bs)) f (set_slot (imm_sst_id i) Completed st') = db_lookup C f st"
proof -
  let ?C = "C(r := bs)" and ?U = "U(imm_sst_id i \<mapsto> r)" and ?g = "mark (imm_sst_id i) Completed" and ?st = "set_slot (imm_sst_id i) Completed st'"
  note I = store_invD(1) [OF inv]
  have si: "U (imm_sst_id i) = None" "unat (imm_sst_id i) < unat (s_next_sst st)" using store_invD(3) [OF inv i(1)] i(2) by (simp_all add: sealed_ok_def)
  note R = lsm_inv_register [OF I si fr dk ff]
  have F: "e_sstables st' = register_l0 r (e_sstables st)" "output_file cd (e_layout st) 0 (s_disk st') r bs" "r_id r = imm_sst_id i" "concat bs = mt_map (imm_table i)"
    using ff by (simp_all add: flushed_file_def)
  have fe: "e_immutable st' = e_immutable st" "e_layout st' = e_layout st" "s_next_sst st' = s_next_sst st" "e_active st' = e_active st"
    using fr by (simp_all add: flush_frame_def)
  have l0: "set (level_files 0 (e_sstables st')) = insert r (set (level_files 0 (e_sstables st)))"
    unfolding F(1) level_files_register by (simp add: insert_l0_set [OF store_invD(6) [OF inv]])
  have other: "?g j = j" if "j \<in> set (e_immutable st)" "j \<noteq> i" for j
    using sealed_unique [OF inv that(1) i(1)] that(2) by (auto simp: mark_def)
  have gi: "imm_slot (?g i) = Completed" by (simp add: mark_def)
  have "sealed_ok ?U ?C ?st (?g j)" if j: "j \<in> set (e_immutable st)" for j
  proof (cases "j = i")
    case True
    then show ?thesis using store_invD(3) [OF inv i(1)] gi F l0 fe by (auto simp: sealed_ok_def output_file_def)
  next
    case False
    then have "imm_sst_id j \<noteq> imm_sst_id i" using sealed_unique [OF inv j i(1)] by blast
    moreover have "\<exists>x \<in> set (level_files 0 (e_sstables st')). r_id x = imm_sst_id j \<and> r_layout x = e_layout st' \<and> concat (?C x) = mt_map (imm_table j)"
      if c: "imm_slot j = Completed"
    proof -
      obtain x where x: "x \<in> set (level_files 0 (e_sstables st))" "r_id x = imm_sst_id j" "r_layout x = e_layout st" "concat (C x) = mt_map (imm_table j)"
        using store_invD(3) [OF inv j] c by (auto simp: sealed_ok_def)
      then show ?thesis using l0 fe R(2) [OF x(1)] by auto
    qed
    ultimately show ?thesis using store_invD(3) [OF inv j] other [OF j False] fe by (simp add: sealed_ok_def)
  qed
  moreover have "\<exists>j' \<in> set (e_immutable ?st). imm_sst_id j' = r_id x \<and> imm_slot j' = Completed"
    if x: "x \<in> set (level_files 0 (e_sstables st'))" "j \<in> set (e_immutable st)" "imm_sst_id j \<le> r_id x" for x j
  proof (cases "x = r")
    case True
    have "?g i \<in> set (e_immutable ?st)" using i(1) fe by simp
    then show ?thesis using True F(3) gi by (metis mark_fields(1))
  next
    case False
    then obtain j' where j': "j' \<in> set (e_immutable st)" "imm_sst_id j' = r_id x" "imm_slot j' = Completed"
      using store_invD(4) [OF inv _ x(2,3)] x(1) l0 by auto
    then have "?g j' = j'" using other i(2) by blast
    then have "j' \<in> set (e_immutable ?st)" using j'(1) fe by (metis imageI list.set_map set_slot_fields(1))
    then show ?thesis using j' by blast
  qed
  ultimately show "store_inv cd ?U ?C ?st"
    using store_invD(2) [OF inv] lsm_inv_set_slot [OF R(1)] fe(1) unfolding store_inv_def by (auto simp: sorted_wrt_map)
  have nr: "r' \<noteq> r" if "r' \<in> set (stack_files (e_sstables st))" for r'
    using that set_stack_files [OF lsm_invD(1) [OF I]] R(2) by blast
  have "r_layout r = e_layout st" using F(2) by (simp add: output_file_def)
  from below_register [OF inv i(1) this F(4) nr fe(1) F(1) fe(2)] fe(4)
  have "db_lookup ?C f st' = db_lookup C f st" by (simp add: db_lookup_below)
  then show "db_lookup ?C f ?st = db_lookup C f st" by simp
qed

section \<open>Retiring segments\<close>

definition retire_one :: "'x store \<Rightarrow> 'x store" where
  "retire_one st = st\<lparr>w_segments := (w_segments st)(imm_wal_id (last (e_immutable st)) := None),
     e_immutable := butlast (e_immutable st), w_imm_count := w_imm_count st - 1\<rparr>"

lemma retire_oldest_cases:
  assumes "retire_oldest io st = (st', r)"
  obtains (idle) "st' = st" "r = Inr False" "e_immutable st = [] \<or> imm_slot (last (e_immutable st)) \<noteq> Completed"
  | (failed) "st' = st" "r = Inl Io" "e_immutable st \<noteq> []"
  | (unsynced) "st' = st\<lparr>w_segments := (w_segments st)(imm_wal_id (last (e_immutable st)) := None)\<rparr>" "r = Inl Io" "e_immutable st \<noteq> []"
      "imm_slot (last (e_immutable st)) = Completed"
  | (retired) "st' = retire_one st" "r = Inr True" "e_immutable st \<noteq> []" "imm_slot (last (e_immutable st)) = Completed"
proof -
  let ?oldest = "last (e_immutable st)"
  consider "e_immutable st = [] \<or> imm_slot ?oldest \<noteq> Completed"
    | "e_immutable st \<noteq> []" "imm_slot ?oldest = Completed" "w_segments st (imm_wal_id ?oldest) = None \<or> \<not> ri_remove io"
    | u y where "e_immutable st \<noteq> []" "imm_slot ?oldest = Completed" "w_segments st (imm_wal_id ?oldest) = Some y" "ri_remove io" "fsync_parent_dir (ri_dir io) = Inr u"
    | e y where "e_immutable st \<noteq> []" "imm_slot ?oldest = Completed" "w_segments st (imm_wal_id ?oldest) = Some y" "ri_remove io" "fsync_parent_dir (ri_dir io) = Inl e"
    by (cases "fsync_parent_dir (ri_dir io)"; cases "w_segments st (imm_wal_id ?oldest)") blast+
  then show thesis
  proof cases
    case 1
    then have "(st', r) = (st, Inr False)" using assms by (simp add: retire_oldest_def Let_def split: if_splits)
    then show thesis using idle 1 by simp
  next
    case 2
    show thesis by (rule failed) (use 2 assms in \<open>auto simp: retire_oldest_def Let_def\<close>)
  next
    case 3
    show thesis by (rule retired) (use 3 assms in \<open>simp_all add: retire_oldest_def retire_one_def Let_def\<close>)
  next
    case 4
    then have "e = Io" by (simp add: fsync_parent_dir_def split: dir_sync.splits)
    show thesis by (rule unsynced) (use 4 assms \<open>e = Io\<close> in \<open>simp_all add: retire_oldest_def Let_def\<close>)
  qed
qed

lemma newest_covered:
  assumes "map_of l k \<noteq> None \<Longrightarrow> newest xs k = None \<Longrightarrow> newest ys k = map_of l k"
  shows "newest (xs @ l # ys) k = newest (xs @ ys) k"
  using assms by (auto simp: newest_append split: option.splits)

lemma below_retire:
  assumes inv: "store_inv cd U C st" and st: "e_immutable st = xs @ [oi]" "imm_slot oi = Completed"
  shows "newest (map (\<lambda>imm. mt_map (imm_table imm)) xs @ map (file_entries C (e_layout st) f) (stack_files (e_sstables st))) k = below C f st k"
proof -
  let ?F = "file_entries C (e_layout st) f" and ?ms = "map (\<lambda>imm. mt_map (imm_table imm)) xs"
  have "newest (map ?F (stack_files (e_sstables st))) k = map_of (mt_map (imm_table oi)) k"
    if k: "map_of (mt_map (imm_table oi)) k \<noteq> None" "newest ?ms k = None"
  proof -
    have oin: "oi \<in> set (e_immutable st)" using st(1) by simp
    obtain r where r: "r \<in> set (level_files 0 (e_sstables st))" "r_id r = imm_sst_id oi" "r_layout r = e_layout st" "concat (C r) = mt_map (imm_table oi)"
      using store_invD(3) [OF inv oin] st(2) by (auto simp: sealed_ok_def)
    obtain ps qs where l0: "level_files 0 (e_sstables st) = ps @ r # qs" using r(1) by (meson split_list)
    have "map_of (?F x) k = None" if x: "x \<in> set ps" for x
    proof -
      have xl: "x \<in> set (level_files 0 (e_sstables st))" using x l0 by simp
      have gt: "imm_sst_id oi < r_id x" using store_invD(6) [OF inv] x r(2) unfolding l0 by (auto simp: sorted_wrt_append)
      then obtain i where i: "i \<in> set (e_immutable st)" "imm_sst_id i = r_id x" "imm_slot i = Completed"
        using store_invD(4) [OF inv xl oin less_imp_le] by blast
      then have ix: "i \<in> set xs" using st(1) gt by auto
      obtain x' where x': "x' \<in> set (level_files 0 (e_sstables st))" "r_id x' = imm_sst_id i" "r_layout x' = e_layout st" "concat (C x') = mt_map (imm_table i)"
        using store_invD(3) [OF inv i(1)] i(3) by (auto simp: sealed_ok_def)
      have "x' = x" using lsm_invD(3) [OF store_invD(1) [OF inv] xl] lsm_invD(3) [OF store_invD(1) [OF inv] x'(1)] x'(2) i(2) by simp
      then have "map_of (?F x) k = map_of (mt_map (imm_table i)) k" using x'(3,4) by (simp add: file_entries_same_layout)
      then show ?thesis using k(2) ix by (auto simp: newest_None)
    qed
    then have "newest (map ?F ps) k = None" by (auto simp: newest_None)
    moreover have "map_of (?F r) k = map_of (mt_map (imm_table oi)) k" using r(3,4) by (simp add: file_entries_same_layout)
    ultimately show ?thesis using k(1) by (auto simp: stack_files_def l0 newest_append)
  qed
  then have "newest (?ms @ mt_map (imm_table oi) # map ?F (stack_files (e_sstables st))) k = newest (?ms @ map ?F (stack_files (e_sstables st))) k"
    by (intro newest_covered)
  then show ?thesis using st(1) by (simp add: below_def)
qed

lemma store_inv_retire:
  assumes inv: "store_inv cd U C st" and st: "e_immutable st \<noteq> []" "imm_slot (last (e_immutable st)) = Completed"
  shows "store_inv cd U C (retire_one st)" "db_lookup C f (retire_one st) = db_lookup C f st"
proof -
  obtain xs oi where xs: "e_immutable st = xs @ [oi]" using st(1) by (metis rev_exhaust)
  then have oi: "imm_slot oi = Completed" using st(2) by simp
  have f: "e_immutable (retire_one st) = xs" "e_sstables (retire_one st) = e_sstables st" "e_layout (retire_one st) = e_layout st"
    "s_next_sst (retire_one st) = s_next_sst st" "e_active (retire_one st) = e_active st"
    using xs by (simp_all add: retire_one_def)
  have "below C f (retire_one st) = below C f st" using below_retire [OF inv xs oi, of f] f by (simp add: fun_eq_iff below_def)
  then show "db_lookup C f (retire_one st) = db_lookup C f st" using f(5) by (simp add: db_lookup_below)
  have "lsm_inv cd U C (retire_one st)"
    using store_invD(1) [OF inv] xs unfolding lsm_inv_def read_inv_def mems_def by (simp add: retire_one_def)
  moreover have "sealed_ok U C (retire_one st) i" if "i \<in> set xs" for i
    using store_invD(3) [OF inv, of i] that xs f by (simp add: sealed_ok_def)
  moreover have "\<exists>j \<in> set xs. imm_sst_id j = r_id r \<and> imm_slot j = Completed"
    if r: "r \<in> set (level_files 0 (e_sstables st))" "i \<in> set xs" "imm_sst_id i \<le> r_id r" for r i
  proof -
    have "imm_sst_id oi < imm_sst_id i" using store_invD(2) [OF inv] r(2) unfolding xs by (simp add: sorted_wrt_append)
    moreover obtain j where j: "j \<in> set (e_immutable st)" "imm_sst_id j = r_id r" "imm_slot j = Completed"
      using store_invD(4) [OF inv r(1) _ r(3)] r(2) xs by auto
    ultimately have "j \<noteq> oi" using r(3) by auto
    then show ?thesis using j xs by auto
  qed
  ultimately show "store_inv cd U C (retire_one st)"
    using store_invD(2) [OF inv] f unfolding store_inv_def by (simp add: xs sorted_wrt_append)
qed

section \<open>Compaction between flushes\<close>

lemma compact_level_frame:
  assumes "compact_level h sn cd rw io level e c = Some ((e', r), c')"
  shows "e_immutable e' = e_immutable e" "e_active e' = e_active e" "lsm.more e' = lsm.more e"
  using assms by (auto simp: compact_level_def install_def Let_def split: if_splits sum.splits option.splits prod.splits)

lemma store_inv_compacted:
  assumes inv: "store_inv cd U C st" and k: "contents_kept cd f U' C' st' c' U C st" and im: "e_immutable st' = e_immutable st"
    and none: "\<forall>i \<in> set (e_immutable st). imm_slot i \<noteq> Completed"
  shows "store_inv cd U' C' st'"
proof -
  note K = k [unfolded contents_kept_def]
  have "sealed_ok U' C' st' i" if i: "i \<in> set (e_immutable st)" for i
  proof -
    have "unat (imm_sst_id i) < unat (s_next_sst st)" "mt_map (imm_table i) \<noteq> []" "U (imm_sst_id i) = None"
      using store_invD(3) [OF inv i] none i by (simp_all add: sealed_ok_def)
    then show ?thesis using K none i by (simp add: sealed_ok_def)
  qed
  moreover have "r_id r < imm_sst_id i" if "r \<in> set (level_files 0 (e_sstables st'))" "i \<in> set (e_immutable st)" for r i
    using store_invD(4) [OF inv, of r i] K none that by (meson not_le subsetD)
  ultimately show ?thesis unfolding store_inv_def im using K store_invD(2) [OF inv] by (auto simp: not_le [symmetric])
qed

lemma sum_set_le: "(\<Sum>x \<in> set xs. g x) \<le> (sum_list (map g xs) :: nat)"
proof (induction xs)
  case (Cons x xs)
  then show ?case by (cases "x \<in> set xs") (simp_all add: insert_absorb)
qed simp

lemma live_rows_le: "lsm_inv cd U C st \<Longrightarrow> live_rows C st \<le> store_rows st"
proof -
  assume I: "lsm_inv cd U C st"
  have "st_entries (r_stats r) = length (concat (C r))" if "r \<in> set (stack_files (e_sstables st))" for r
    using that set_stack_files [OF lsm_invD(1) [OF I]] lsm_invD(4) [OF I] by fastforce
  then have "store_rows st = sum_list (map (\<lambda>r. length (concat (C r))) (stack_files (e_sstables st)))"
    unfolding store_rows_def by (intro arg_cong [where f = sum_list] map_cong) auto
  then show ?thesis unfolding live_rows_def live_files_def by (simp only: sum_set_le)
qed

section \<open>Reads in every interleaving\<close>

definition holds_contents :: "('x::linorder) sst_codec \<Rightarrow> (layout \<Rightarrow> 'x dbvalue \<Rightarrow> 'x dbvalue) \<Rightarrow> layout \<Rightarrow> ('x dbkey \<Rightarrow> 'x dbvalue option) \<Rightarrow> 'x store \<times> 'x cache \<Rightarrow> bool" where
  "holds_contents cd f lay m s \<longleftrightarrow>
     (\<exists>U C. store_inv cd U C (fst s) \<and> coherent cd U (snd s) \<and> e_layout (fst s) = lay \<and> db_lookup C f (fst s) = m)"

lemma holds_contentsI:
  "store_inv cd U C st \<Longrightarrow> coherent cd U c \<Longrightarrow> e_layout st = lay \<Longrightarrow> db_lookup C f st = m \<Longrightarrow> holds_contents cd f lay m (st, c)"
  by (auto simp: holds_contents_def)

lemma flush_claimed_keeps:
  assumes inv: "store_inv cd U C st" and c: "coherent cd U c" and cd: "codec_ok cd"
    and i: "i \<in> set (e_immutable st)" "imm_slot i \<noteq> Completed" "bloom_fits cd (length (mt_map (imm_table i)))"
    and run: "flush_claimed h sn cd io i st = Some (st', r)"
  shows "holds_contents cd f (e_layout st) (db_lookup C f st) (st', c)"
proof -
  obtain st1 where st1: "write_immutable_sstable h sn cd io i st = Some (st1, r)"
    and st': "st' = set_slot (imm_sst_id i) (case r of Inr _ \<Rightarrow> Completed | Inl _ \<Rightarrow> Pending) st1"
    using run by (auto simp: flush_claimed_def split: option.splits prod.splits)
  note F = write_immutable_frame [OF st1]
  have fr: "e_immutable st1 = e_immutable st" "e_active st1 = e_active st" "e_layout st1 = e_layout st" using F(1) by (simp_all add: flush_frame_def)
  have dk: "\<forall>p. p \<noteq> (0, imm_sst_id i) \<longrightarrow> s_disk st1 p = s_disk st p" using F(2) by blast
  have si: "sealed_ok U C st i" using store_invD(3) [OF inv i(1)] .
  show ?thesis
  proof (cases r)
    case (Inr u)
    have "mem_inv (imm_table i)" using store_invD(5) [OF inv, of "imm_table i"] i(1) by (simp add: mems_def)
    then obtain rd bs where ff: "flushed_file cd i st st1 rd bs"
      using write_immutable_done(1) [OF cd, of i h sn io st st1] i(3) si st1 Inr by (auto simp: bloom_fits_def mem_inv_def sealed_ok_def)
    have "U (imm_sst_id i) = None" using si i(2) by (simp add: sealed_ok_def)
    then have "coherent cd (U(imm_sst_id i \<mapsto> rd)) c" by (intro coherent_mono [OF c]) auto
    with store_inv_flushed [OF inv i(1,2) F(1) dk ff] show ?thesis unfolding st' Inr
      by (intro holds_contentsI) (simp_all add: fr)
  next
    case (Inl e)
    have es: "e_sstables st1 = e_sstables st" using F(3) Inl by simp
    have ns: "s_next_sst st1 = s_next_sst st" "s_options st1 = s_options st" using F(1) by (simp_all add: flush_frame_def)
    have "s_disk st1 (n, r_id x) = s_disk st (n, r_id x)" if "x \<in> set (level_files n (e_sstables st))" for n x
    proof -
      have "U (r_id x) = Some x" "U (imm_sst_id i) = None"
        using lsm_invD(3) [OF store_invD(1) [OF inv] that] si i(2) by (simp_all add: sealed_ok_def)
      then have "(n, r_id x) \<noteq> (0, imm_sst_id i)" by auto
      then show ?thesis using dk by blast
    qed
    then have "store_inv cd U C st1"
      using inv fr es ns unfolding store_inv_def lsm_inv_def read_inv_def mems_def sealed_ok_def by simp
    moreover have "db_lookup C f st1 = db_lookup C f st" using fr es by (simp add: db_lookup_below below_def)
    ultimately show ?thesis unfolding st' Inl
      using store_inv_slots [of cd U C st1 Pending i] i fr c by (intro holds_contentsI [of cd U C]) simp_all
  qed
qed

lemma eng_bg_keeps:
  assumes cd: "codec_ok cd" and rw: "rw_total rw f lay" and s: "eng_bg h sn cd rw s s'" and H: "holds_contents cd f lay m s"
  shows "holds_contents cd f lay m s'"
proof -
  obtain st c U C where sc: "s = (st, c)" and inv: "store_inv cd U C st" and c: "coherent cd U c" and l: "e_layout st = lay" "db_lookup C f st = m"
    using H by (cases s) (auto simp: holds_contents_def)
  show ?thesis
    using s
  proof (cases rule: eng_bg.cases)
    case (seal io st0 st' r c0)
    then show ?thesis using store_inv_seal(1,2,4) [OF inv, of io st' r] sc c l by (auto intro!: holds_contentsI [of cd U C])
  next
    case (claim i st0 c0)
    then show ?thesis using store_inv_slots [OF inv, of InFlight i] sc c l by (auto intro!: holds_contentsI [of cd U C])
  next
    case (flush i st0 io st' r c0)
    then show ?thesis using flush_claimed_keeps [OF inv c cd, of i h sn io st' r f] sc l by auto
  next
    case (retire rio st0 st' b c0)
    then have "retire_oldest rio st = (st', b)" using sc by simp
    then show ?thesis
    proof (cases rule: retire_oldest_cases)
      case unsynced
      have "store_inv cd U C st'" unfolding unsynced(1) by (rule store_inv_next(1) [OF inv]) simp_all
      moreover have "db_lookup C f st' = db_lookup C f st" unfolding unsynced(1) by (rule store_inv_next(2) [OF inv]) simp_all
      ultimately show ?thesis using retire sc c l unsynced(1) by (auto intro!: holds_contentsI [of cd U C])
    next
      case retired
      then show ?thesis using store_inv_retire [OF inv retired(3,4)] retire sc c l by (auto intro!: holds_contentsI [of cd U C] simp: retire_one_def)
    qed (use retire sc inv c l in \<open>auto intro!: holds_contentsI [of cd U C]\<close>)
  next
    case (compact st0 cio level c0 st' r c')
    then have st0: "st0 = st" "c0 = c" using sc by simp_all
    note g = compact(3-6) [unfolded st0]
    have N: "\<forall>n \<le> store_rows st. max (cd_opt_bits cd n) 8 + 7 < 2 ^ 64" using g(2) by (simp add: bloom_fits_def)
    obtain e' res c2 U' C' where e': "compact_level h sn cd rw cio level st c = Some ((e', res), c2)" "contents_kept cd f U' C' e' c2 U C st"
      using compact_level_spec [OF cd _ store_invD(1) [OF inv] c live_rows_le [OF store_invD(1) [OF inv]] N g(3), of rw f h sn cio level] rw l by blast
    then have k: "contents_kept cd f U' C' st' c' U C st" using g(4) by simp
    have "store_inv cd U' C' st'" using store_inv_compacted [OF inv k compact_level_frame(1) [OF g(4)] g(1)] .
    then show ?thesis using k compact(2) l by (auto intro!: holds_contentsI [of cd U' C'] simp: contents_kept_def fun_eq_iff)
  next
    case (get st0 k c0 v c')
    have "yields (coherent cd U) (eng_get cd rw st k) (Inr (db_lookup C f st k))"
      using eng_get_yields [of cd U C st rw f k] store_invD(1) [OF inv] rw l by (simp add: lsm_inv_def)
    then have "coherent cd U c'" using get sc c by (auto dest: yieldsD)
    then show ?thesis using get sc inv l by (auto intro!: holds_contentsI [of cd U C])
  next
    case (sync io st0 st' r c0)
    then have "sync_wal io st = (st', r)" using sc by simp
    then have "store_inv cd U C st'" "db_lookup C f st' = db_lookup C f st" "e_layout st' = e_layout st"
      by (auto simp: sync_wal_def split: prod.splits intro!: store_inv_next [OF inv])
    then show ?thesis using sync sc c l by (auto intro!: holds_contentsI [of cd U C])
  qed
qed

lemma eng_bgs_keep:
  assumes "codec_ok cd" "rw_total rw f lay" "(eng_bg h sn cd rw)\<^sup>*\<^sup>* s s'" "holds_contents cd f lay m s"
  shows "holds_contents cd f lay m s'"
  using assms(3,4) by (induction rule: rtranclp_induct) (auto intro: eng_bg_keeps [OF assms(1,2)])

lemma holds_commit:
  assumes "holds_contents cd f lay m (st, c)" "commit_write io tks st = (st', r)" "flat_group tks"
  shows "holds_contents cd f lay (case r of Inl _ \<Rightarrow> m | Inr _ \<Rightarrow> fold apply_write (group_batch tks) m) (st', c)"
proof -
  obtain U C where H: "store_inv cd U C st" "coherent cd U c" "e_layout st = lay" "db_lookup C f st = m"
    using assms(1) by (auto simp: holds_contents_def)
  show ?thesis using store_inv_commit(1) [OF H(1) assms(2)] store_inv_commit(2) [OF H(1) assms(2,3), of f] commit_write_fields(3) [OF assms(2)] H(2,3)
    unfolding H(4) [symmetric] by (intro holds_contentsI [of cd U C]) simp_all
qed

lemma eng_commit_keeps:
  assumes cd: "codec_ok cd" and rw: "rw_total rw f lay" and H: "holds_contents cd f lay m s" and flat: "flat_group tks"
    and c: "eng_commit h sn cd rw tks s s' r"
  shows "\<exists>m'. holds_contents cd f lay m' s' \<and> (m' = fold apply_write (group_batch tks) m \<or> r \<noteq> Inr () \<and> m' = m)"
proof -
  obtain st1 c1 io st2 res where s1: "(eng_bg h sn cd rw)\<^sup>*\<^sup>* s (st1, c1)" "commit_write io tks st1 = (st2, res)"
    and rest: "case res of
           Inl e \<Rightarrow> r = Inl e \<and> s' = (st2, c1)
         | Inr trigger_flush \<Rightarrow>
             if \<not> trigger_flush then r = Inr () \<and> s' = (st2, c1)
             else \<exists>st3 c3 sio st4 res4. (eng_bg h sn cd rw)\<^sup>*\<^sup>* (st2, c1) (st3, c3) \<and> flush_slot_free st3 \<and> seal_active sio st3 = (st4, res4)
                    \<and> unat (s_next_sst st3) + 1 < 2 ^ 64 \<and> s' = (st4, c3) \<and> r = rbind res4 (\<lambda>_. Inr ())"
    using c unfolding eng_commit_def by blast
  have H2: "holds_contents cd f lay (case res of Inl _ \<Rightarrow> m | Inr _ \<Rightarrow> fold apply_write (group_batch tks) m) (st2, c1)"
    using holds_commit [OF eng_bgs_keep [OF cd rw s1(1) H] s1(2) flat] .
  show ?thesis
  proof (cases res)
    case (Inl e)
    then show ?thesis using H2 rest by auto
  next
    case (Inr b)
    show ?thesis
    proof (cases b)
      case False
      then show ?thesis using H2 rest Inr by auto
    next
      case True
      then obtain st3 c3 sio st4 res4 where s3: "(eng_bg h sn cd rw)\<^sup>*\<^sup>* (st2, c1) (st3, c3)" "seal_active sio st3 = (st4, res4)"
          "unat (s_next_sst st3) + 1 < 2 ^ 64" "s' = (st4, c3)"
        using rest Inr by auto
      have "(eng_bg h sn cd rw)\<^sup>*\<^sup>* (st2, c1) (st4, c3)" using s3 eng_bg.seal [OF s3(2,3)] by (meson rtranclp.rtrancl_into_rtrancl)
      from eng_bgs_keep [OF cd rw this H2] show ?thesis using Inr s3(4) by auto
    qed
  qed
qed

text \<open>
  What the contents can be after a list of group commits: a group whose commit succeeded has been applied;
  one whose commit failed may have been applied as well.
\<close>

fun may_apply :: "(nat list \<times> 'x write_task list \<times> unit result) list \<Rightarrow> ('x dbkey \<Rightarrow> 'x dbvalue option) \<Rightarrow> ('x dbkey \<Rightarrow> 'x dbvalue option) \<Rightarrow> bool" where
  "may_apply [] m m' \<longleftrightarrow> m' = m"
| "may_apply ((ts, tks, r) # gs) m m' \<longleftrightarrow>
     may_apply gs (fold apply_write (group_batch tks) m) m' \<or> r \<noteq> Inr () \<and> may_apply gs m m'"

lemma commit_groups_keep:
  assumes cd: "codec_ok cd" and rw: "rw_total rw f lay" and "holds_contents cd f lay m s" "\<forall>(ts, tks, r) \<in> set gs. flat_group tks"
    "commit_groups (eng_commit h sn cd rw) gs s s'"
  shows "\<exists>m'. holds_contents cd f lay m' s' \<and> may_apply gs m m'"
  using assms(3-)
proof (induction gs arbitrary: m s)
  case (Cons g gs)
  obtain ts tks r where g: "g = (ts, tks, r)" by (cases g)
  obtain s1 where s1: "eng_commit h sn cd rw tks s s1 r" "commit_groups (eng_commit h sn cd rw) gs s1 s'" using Cons.prems(3) g by auto
  obtain m1 where m1: "holds_contents cd f lay m1 s1" "m1 = fold apply_write (group_batch tks) m \<or> r \<noteq> Inr () \<and> m1 = m"
    using eng_commit_keeps [OF cd rw Cons.prems(1) _ s1(1)] Cons.prems(2) g by auto
  obtain m' where "holds_contents cd f lay m' s'" "may_apply gs m1 m'" using Cons.IH [OF m1(1) _ s1(2)] Cons.prems(2) by auto
  then show ?case using m1(2) g by auto
qed auto

lemma holds_contents_get:
  assumes "holds_contents cd f lay m (st, c)" "rw_total rw f lay"
  shows "\<exists>c'. eng_get cd rw st k c = Some (Inr (m k), c')"
proof -
  obtain U C where H: "store_inv cd U C st" "coherent cd U c" "e_layout st = lay" "db_lookup C f st = m"
    using assms(1) by (auto simp: holds_contents_def)
  have "yields (coherent cd U) (eng_get cd rw st k) (Inr (db_lookup C f st k))"
    using eng_get_yields [of cd U C st rw f k] store_invD(1) [OF H(1)] assms(2) H(3) by (simp add: lsm_inv_def)
  then show ?thesis using H(2,4) by (auto dest: yieldsD)
qed

section \<open>Draining the queue\<close>

text \<open>What retiring does to the queue: it drops memtables from its old end.\<close>

lemma retire_prefix_spec:
  assumes "store_inv cd U C st" "retire_durable_prefix ios st = (st', r)"
  shows "store_inv cd U C st' \<and> db_lookup C f st' = db_lookup C f st \<and> e_layout st' = e_layout st \<and> e_active st' = e_active st
    \<and> (\<exists>n. e_immutable st' = take n (e_immutable st))
    \<and> (r = Inr () \<longrightarrow> e_immutable st \<noteq> [] \<longrightarrow> imm_slot (last (e_immutable st)) = Completed \<longrightarrow> length (e_immutable st') < length (e_immutable st))
    \<and> (r \<noteq> Inr () \<longrightarrow> e_immutable st' \<noteq> [])"
  using assms
proof (induction ios st arbitrary: st' r rule: retire_durable_prefix.induct)
  case (1 ios st)
  obtain st1 b where s: "retire_oldest (ios 0) st = (st1, b)" by fastforce
  show ?case
    using s
  proof (cases rule: retire_oldest_cases)
    case idle
    then have "st' = st" "r = Inr ()" using 1(3) s by (simp_all add: retire_durable_prefix.simps [of ios st])
    then show ?thesis using 1(2) idle(3) by (auto intro: exI [of _ "length (e_immutable st)"])
  next
    case failed
    then have "st' = st" "r = Inl Io" using 1(3) s by (simp_all add: retire_durable_prefix.simps [of ios st])
    then show ?thesis using 1(2) failed(3) by (auto intro: exI [of _ "length (e_immutable st)"])
  next
    case unsynced
    then have st': "st' = st1" "r = Inl Io" using 1(3) s by (simp_all add: retire_durable_prefix.simps [of ios st])
    have "store_inv cd U C st1" unfolding unsynced(1) by (rule store_inv_next(1) [OF 1(2)]) simp_all
    moreover have "db_lookup C f st1 = db_lookup C f st" unfolding unsynced(1) by (rule store_inv_next(2) [OF 1(2)]) simp_all
    ultimately show ?thesis using st' unsynced by (auto intro: exI [of _ "length (e_immutable st)"])
  next
    case retired
    then have go: "retire_durable_prefix (\<lambda>i. ios (Suc i)) st1 = (st', r)" using 1(3) s by (simp add: retire_durable_prefix.simps [of ios st])
    note R = store_inv_retire [OF 1(2) retired(3,4)]
    have q: "e_immutable st1 = take (length (e_immutable st) - 1) (e_immutable st)" "e_layout st1 = e_layout st \<and> e_active st1 = e_active st"
      by (simp_all add: retired(1) retire_one_def butlast_conv_take)
    have st1: "store_inv cd U C st1" "db_lookup C f st1 = db_lookup C f st" using R unfolding retired(1) by simp_all
    obtain n where IH: "store_inv cd U C st'" "db_lookup C f st' = db_lookup C f st1" "e_layout st' = e_layout st1 \<and> e_active st' = e_active st1" "e_immutable st' = take n (e_immutable st1)"
        "r \<noteq> Inr () \<longrightarrow> e_immutable st' \<noteq> []"
      using 1(1) [OF s [symmetric] retired(2) TrueI st1(1) go] by blast
    have "e_immutable st' = take (min n (length (e_immutable st) - 1)) (e_immutable st)" using IH(4) q by (simp add: min.commute)
    then have "\<exists>n. e_immutable st' = take n (e_immutable st)" by blast
    moreover have "length (e_immutable st') < length (e_immutable st)"
      using IH(4) q(1) retired(3) by (cases "e_immutable st") auto
    ultimately show ?thesis using st1(2) q(2) IH(1-3,5) by simp
  qed
qed

lemma flush_claimed_mark: "flush_claimed h sn cd io (mark sid s i) st = flush_claimed h sn cd io i st"
  by (simp only: flush_claimed_def write_immutable_sstable_def mark_fields)

lemma flush_claimed_runs:
  assumes "flush_claimed h sn cd io i st = Some (st', r)"
  shows "e_immutable st' = map (mark (imm_sst_id i) (case r of Inr _ \<Rightarrow> Completed | Inl _ \<Rightarrow> Pending)) (e_immutable st)" "e_active st' = e_active st"
  using assms write_immutable_frame(1) by (fastforce simp: flush_claimed_def flush_frame_def split: option.splits prod.splits)+

definition idle_slots :: "'x store \<Rightarrow> bool" where
  "idle_slots st \<longleftrightarrow> (\<forall>i \<in> set (e_immutable st). imm_slot i \<noteq> InFlight)"

definition flushable :: "'x sst_codec \<Rightarrow> 'x store \<Rightarrow> bool" where
  "flushable cd st \<longleftrightarrow> (\<forall>i \<in> set (e_immutable st). bloom_fits cd (length (mt_map (imm_table i))))"

text \<open>One turn of \<open>flush_pending\<close>: it drops the oldest memtable, or fails and leaves it where it is.\<close>

lemma flush_oldest:
  assumes cd: "codec_ok cd" and H: "holds_contents cd f lay m (st, c)" and q: "e_immutable st \<noteq> []" "idle_slots st" "flushable cd st"
  shows "\<exists>st' r. flush_immutable h sn cd io rio (last (e_immutable st)) st = Some (st', r) \<and> holds_contents cd f lay m (st', c)
    \<and> idle_slots st' \<and> flushable cd st' \<and> e_active st' = e_active st
    \<and> (r = Inr () \<longrightarrow> length (e_immutable st') < length (e_immutable st)) \<and> (r \<noteq> Inr () \<longrightarrow> e_immutable st' \<noteq> [])"
proof -
  let ?i = "last (e_immutable st)" and ?id = "imm_sst_id (last (e_immutable st))"
  have i: "?i \<in> set (e_immutable st)" using q(1) by simp
  have retire: "holds_contents cd f lay m (st', c) \<and> idle_slots st' \<and> flushable cd st' \<and> e_active st' = e_active st1
      \<and> (r = Inr () \<longrightarrow> length (e_immutable st') < length (e_immutable st1)) \<and> (r \<noteq> Inr () \<longrightarrow> e_immutable st' \<noteq> [])"
    if r: "retire_durable_prefix rio st1 = (st', r)" and h1: "holds_contents cd f lay m (st1, c)" "idle_slots st1" "flushable cd st1" "e_immutable st1 \<noteq> []"
      "imm_slot (last (e_immutable st1)) = Completed" for st1 st' r
  proof -
    obtain U C where I: "store_inv cd U C st1" "coherent cd U c" "e_layout st1 = lay" "db_lookup C f st1 = m" using h1(1) by (auto simp: holds_contents_def)
    note R = retire_prefix_spec [OF I(1) r, of f]
    have "set (e_immutable st') \<subseteq> set (e_immutable st1)" using R by (auto dest: in_set_takeD)
    then show ?thesis using R I h1 unfolding idle_slots_def flushable_def by (auto intro!: holds_contentsI [of cd U C])
  qed
  show ?thesis
  proof (cases "imm_slot ?i = Completed")
    case True
    obtain st' r where R: "retire_durable_prefix rio st = (st', r)" by fastforce
    show ?thesis using retire [OF R H q(2,3,1) True] True R by (auto simp: flush_immutable_def)
  next
    case False
    then have p: "imm_slot ?i = Pending" using q(2) i by (cases "imm_slot ?i") (auto simp: idle_slots_def)
    let ?st0 = "set_slot ?id InFlight st" and ?j = "mark ?id InFlight ?i"
    obtain U C where I: "store_inv cd U C st" "coherent cd U c" "e_layout st = lay" "db_lookup C f st = m" using H by (auto simp: holds_contents_def)
    have I0: "store_inv cd U C ?st0" using store_inv_slots [OF I(1), of InFlight ?i] i p by simp
    have j: "?j \<in> set (e_immutable ?st0)" "imm_slot ?j \<noteq> Completed" "bloom_fits cd (length (mt_map (imm_table ?j)))"
      using i q(3) by (auto simp: flushable_def mark_def)
    obtain st1 r1 where w: "flush_claimed h sn cd io ?i ?st0 = Some (st1, r1)"
      using write_immutable_runs [of h sn cd io ?i ?st0] by (cases "write_immutable_sstable h sn cd io ?i ?st0") (auto simp: flush_claimed_def)
    then have K: "holds_contents cd f lay m (st1, c)" using flush_claimed_keeps [OF I0 I(2) cd j, of h sn io st1 r1 f] I(3,4) by (simp add: flush_claimed_mark)
    let ?s = "case r1 of Inr _ \<Rightarrow> Completed | Inl _ \<Rightarrow> Pending"
    have im: "e_immutable st1 = map (\<lambda>x. mark ?id ?s (mark ?id InFlight x)) (e_immutable st)"
      using flush_claimed_runs(1) [OF w] by simp
    have "imm_slot x \<noteq> InFlight \<Longrightarrow> imm_slot (mark ?id ?s (mark ?id InFlight x)) \<noteq> InFlight" for x by (simp add: mark_def split: sum.splits)
    then have k: "idle_slots st1" "flushable cd st1" "e_immutable st1 \<noteq> []" using q im by (auto simp: idle_slots_def flushable_def)
    show ?thesis
    proof (cases r1)
      case (Inl e)
      then show ?thesis using K k p w im flush_claimed_runs(2) [OF w] by (auto simp: flush_immutable_def)
    next
      case (Inr u)
      obtain st' r where R: "retire_durable_prefix rio st1 = (st', r)" by fastforce
      have "imm_slot (last (e_immutable st1)) = Completed" using im q(1) Inr by (simp add: last_map mark_def)
      from retire [OF R K k this] show ?thesis using p w R Inr im flush_claimed_runs(2) [OF w] by (auto simp: flush_immutable_def)
    qed
  qed
qed

lemma flush_pending_spec:
  assumes cd: "codec_ok cd" and "holds_contents cd f lay m (st, c)" "idle_slots st" "flushable cd st"
  shows "\<exists>st' r. flush_pending h sn cd fio rio st = Some (st', r) \<and> holds_contents cd f lay m (st', c) \<and> e_active st' = e_active st
    \<and> (r = Inr () \<longleftrightarrow> e_immutable st' = [])"
  using assms(2-)
proof (induction "length (e_immutable st)" arbitrary: st fio rio rule: less_induct)
  case less
  show ?case
  proof (cases "e_immutable st = []")
    case True
    then show ?thesis using less.prems(1) by (simp add: flush_pending.simps [of h sn cd fio rio])
  next
    case False
    obtain st1 r where s: "flush_immutable h sn cd (fio 0) (rio 0) (last (e_immutable st)) st = Some (st1, r)" "holds_contents cd f lay m (st1, c)"
      "idle_slots st1" "flushable cd st1" "e_active st1 = e_active st" "r = Inr () \<longrightarrow> length (e_immutable st1) < length (e_immutable st)" "r \<noteq> Inr () \<longrightarrow> e_immutable st1 \<noteq> []"
      using flush_oldest [OF cd less.prems(1) False less.prems(2,3), of h sn "fio 0" "rio 0"] by blast
    show ?thesis
    proof (cases r)
      case (Inl e)
      then show ?thesis using s False by (simp add: flush_pending.simps [of h sn cd fio rio])
    next
      case (Inr u)
      then have "flush_pending h sn cd fio rio st = flush_pending h sn cd (\<lambda>i. fio (Suc i)) (\<lambda>i. rio (Suc i)) st1"
        using s(1) False by (simp add: flush_pending.simps [of h sn cd fio rio])
      then show ?thesis using less.hyps [of st1 "\<lambda>i. fio (Suc i)" "\<lambda>i. rio (Suc i)"] s Inr by simp
    qed
  qed
qed

section \<open>Properties\<close>

text \<open>A store for the witnesses, with two files and an empty memtable.\<close>

definition demo_log :: framed_log where
  "demo_log = \<lparr>fl_file = encode_format WAL_FORMAT, synced = HEADER_LEN, format = WAL_FORMAT, sync_interval_ms = None, size_bytes = HEADER_LEN\<rparr>"

definition demo_store :: "nat store" where
  "demo_store = lsm.extend demo_lsm
     \<lparr>w_wal = demo_log, w_active_id = 0, w_next_id = 1, w_segments = [0 \<mapsto> fl_file demo_log], w_imm_count = 0,
      w_flush_down = False, w_l0_down = False, w_bg_down = False, w_bg_active = 0\<rparr>"

lemma demo_store_fields:
  "e_active demo_store = mem_new" "e_immutable demo_store = []" "e_sstables demo_store = e_sstables demo_lsm" "e_layout demo_store = []"
  "s_options demo_store = s_options demo_lsm" "s_next_sst demo_store = 9" "s_disk demo_store = s_disk demo_lsm" "w_wal demo_store = demo_log"
  by (simp_all add: demo_store_def lsm.extend_def demo_lsm_def)

lemma demo_store_inv: "store_inv demo_codec demo_universe demo_contents demo_store"
proof -
  have "mems demo_store = mems demo_lsm" by (simp add: mems_def demo_store_fields) (simp add: demo_lsm_def)
  then have "lsm_inv demo_codec demo_universe demo_contents demo_store"
    using demo_lsm_inv unfolding lsm_inv_def read_inv_def demo_store_fields by (simp add: demo_lsm_def)
  then show ?thesis by (simp add: store_inv_def demo_store_fields)
qed

definition demo_task :: "nat write_task" where
  "demo_task = \<lparr>wt_batch = [WDelete (KInt 1)], wt_frame = frame_bytes demo_hash [1], wt_result = Inr (), wt_done = False\<rparr>"

lemma demo_task_frame: "wal_build_frame demo_hash demo_wal_serde [WDelete (KInt 1)] = Inr (wt_frame demo_task)"
  by (simp add: wal_build_frame_def build_frame_def demo_wal_serde_def demo_task_def)

lemma demo_commit_write: "\<exists>st. commit_write io_ok [demo_task] demo_store = (st, Inr False)"
proof -
  have "mem_byte_size (apply_drain [WDelete (KInt 1)] (mem_new :: nat memtable)) = 9"
    by (simp add: apply_drain_def drain_entry_def adjust_size_eq mem_new_def mem_byte_size_def)
  then show ?thesis
    by (simp add: commit_write_def demo_store_fields demo_task_def append_prebuilt_bytes_def write_all_def io_ok_def frame_bytes_def demo_log_def
        syncs_each_append_def fl_sync_def Let_def demo_lsm_def default_options_def HEADER_LEN_def encode_format_def WAL_FORMAT_def)
qed


lemma demo_run:
  "\<exists>evs q. wq_run (eng_commit h sn cd rw) demo_hash demo_wal_serde (wq_init (demo_store, None)) evs q
     \<and> queued evs = [(0, [WDelete (KInt 1)])] \<and> groups evs = [([0], [demo_task], Inr ())]"
proof -
  let ?run = "wq_run (eng_commit h sn cd rw) demo_hash demo_wal_serde (wq_init (demo_store, None))" and ?b = "[WDelete (KInt 1)] :: nat wal_entry list"
  let ?q = "submit demo_hash demo_wal_serde 0 ?b (wq_init (demo_store, None :: nat cache))"
  have q: "q_pc ?q 0 = Some (Leading [0])" "q_task ?q 0 = demo_task" "q_engine ?q = (demo_store, None)"
    using demo_task_frame by (simp_all add: submit_def look_def lead_def set_pc_def is_front_def wq_init_def Let_def) (simp add: demo_task_def)
  have "?run ([] @ [Queued 0 ?b]) ?q"
    using wq_run.step [OF wq_run.start wq_step.submit [where t = 0 and batch = ?b and q = "wq_init (demo_store, None :: nat cache)"],
        where commit = "eng_commit h sn cd rw" and h = demo_hash and sd = demo_wal_serde] demo_task_frame
    by (simp add: wq_init_def)
  moreover obtain st where st: "commit_write io_ok [demo_task] demo_store = (st, Inr False)" using demo_commit_write by blast
  have "l0_limit_ok demo_store" by (simp add: l0_limit_ok_def l0_count_def demo_store_fields demo_level_files) (simp add: demo_lsm_def default_options_def)
  then have "eng_commit h sn cd rw [demo_task] (demo_store, None) (st, None) (Inr ())" unfolding eng_commit_def using st by fastforce
  then have "eng_commit h sn cd rw (map (q_task ?q) [0]) (q_engine ?q) (st, None) (Inr ())" using q by simp
  ultimately have "?run (([] @ [Queued 0 ?b]) @ [Group [0] (map (q_task ?q) [0]) (Inr ())])
      (set_pc 0 (Publishing [0] (Inr ())) (?q\<lparr>q_task := drain_tasks [0] (q_task ?q), q_engine := (st, None)\<rparr>))"
    using wq_run.step wq_step.commit [where commit = "eng_commit h sn cd rw", OF q(1)] by blast
  then show ?thesis using q(2) by fastforce
qed



lemma demo_committed:
  obtains st where "commit_write io_ok [demo_task] demo_store = (st, Inr False)" "length (mt_map (e_active st)) = 1" "e_immutable st = []"
    "e_layout st = []" "s_next_sst st = 9"
proof -
  obtain st where st: "commit_write io_ok [demo_task] demo_store = (st, Inr False)" using demo_commit_write by blast
  have "length (mt_map (apply_drain [WDelete (KInt 1)] (mem_new :: nat memtable))) = 1"
    by (simp add: apply_drain_def drain_entry_def adjust_size_eq mem_new_def)
  then show thesis using that [OF st] commit_write_fields [OF st] st
    by (simp add: demo_store_fields) (auto simp: commit_write_def demo_task_def demo_store_fields Let_def split: prod.splits sum.splits)
qed


text \<open>
  C37: if the directory sync fails after the segment of the oldest flushed memtable has been removed, the
  memtable stays in the queue without its segment, and from then on every attempt to retire it fails: the
  removal of the missing file is an error. No later flush gets the queue any shorter, whatever succeeds then.
\<close>

theorem retire_wedges_after_failed_sync:
  assumes "e_immutable st \<noteq> []" "imm_slot (last (e_immutable st)) = Completed" "w_segments st (imm_wal_id (last (e_immutable st))) \<noteq> None"
    and "ri_remove (ios 0)" "fsync_parent_dir (ri_dir (ios 0)) = Inl e"
  shows "\<exists>st'. retire_durable_prefix ios st = (st', Inl e) \<and> e_immutable st' = e_immutable st
    \<and> (\<forall>ios'. retire_durable_prefix ios' st' = (st', Inl Io)) \<and> (\<forall>h sn cd fio rio. flush_pending h sn cd fio rio st' = Some (st', Inl Io))"
proof -
  let ?st = "st\<lparr>w_segments := (w_segments st)(imm_wal_id (last (e_immutable st)) := None)\<rparr>"
  have "retire_durable_prefix ios st = (?st, Inl e)" by (subst retire_durable_prefix.simps) (use assms in \<open>auto simp: retire_oldest_def Let_def\<close>)
  moreover have w: "retire_durable_prefix ios' ?st = (?st, Inl Io)" for ios'
    by (subst retire_durable_prefix.simps) (use assms in \<open>auto simp: retire_oldest_def Let_def\<close>)
  moreover have "flush_pending h sn cd fio rio ?st = Some (?st, Inl Io)" for h sn cd fio rio
    by (subst flush_pending.simps) (use assms w in \<open>simp add: flush_immutable_def\<close>)
  ultimately show ?thesis by fastforce
qed

definition demo_stuck :: "nat store" where
  "demo_stuck = demo_store\<lparr>e_immutable := [\<lparr>imm_table = mem_new, imm_wal_id = 3, imm_sst_id = 4, imm_slot = Completed\<rparr>], w_segments := [3 \<mapsto> []]\<rparr>"

theorem retire_wedges_after_failed_sync_witness:
  "\<exists>st'. retire_durable_prefix (\<lambda>_. \<lparr>ri_remove = True, ri_dir = Dir_Sync_Failed\<rparr>) demo_stuck = (st', Inl Io)
     \<and> retire_durable_prefix (\<lambda>_. \<lparr>ri_remove = True, ri_dir = Dir_Synced\<rparr>) st' = (st', Inl Io)"
  using retire_wedges_after_failed_sync [of demo_stuck "\<lambda>_. \<lparr>ri_remove = True, ri_dir = Dir_Sync_Failed\<rparr>" Io]
  by (auto simp: demo_stuck_def fsync_parent_dir_def)

end
