(* ===== verification/Spec2Isabelle.thy ===== *)
theory Spec2Isabelle
  imports Schema Engine_Write
begin

text \<open>
  A verification development for DuctTapeDB (\<^verbatim>\<open>dtdb\<close>), a layered database in Rust.

  \<^bold>\<open>The program.\<close> The storage crate (\<^verbatim>\<open>dtdb_storage\<close>) is a log-structured merge tree: writes go to a
  write-ahead log and a memtable, memtables become immutable sorted files (SSTables), a compaction
  merges files into deeper levels, a manifest lists the live files, reads merge memtables and files.
  The relational crate (\<^verbatim>\<open>dtdb_relational\<close>) puts tables with schemas, locality groups, indexes and
  transactions on one storage engine per locality group. The SQL crate (\<^verbatim>\<open>dtdb_sql\<close>) plans, optimizes
  and executes queries over it, and the API crates serve it over a network.

  \<^bold>\<open>Conventions.\<close> A fallible operation returns \<open>'a result\<close> (\<open>storage_error + 'a\<close>; \<open>rresult\<close> in the
  relational layer); a panic or a loop that does not end is the value \<open>None\<close> of an option around it.
  Every call into the file system takes its outcome from a fault record (\<open>io\<close>, \<open>sst_io\<close>, \<open>aw_io\<close>,
  \<open>sl_io\<close>, \<open>comp_io\<close>), so the theorems quantify over all faults. Code that reads through the shared
  block cache is an action (\<^verbatim>\<open>Actions.thy\<close>): state in, result and state out; \<open>yields\<close> states its result
  for every coherent cache. Third-party code is a parameter with named laws: postcard and lz4
  (\<open>sst_codec\<close> with \<open>codec_ok\<close>, \<open>serde\<close> with \<open>sn_ok\<close>, \<open>postcard\<close>), xxhash (the checksum functions),
  the floating-point sizing formulas of the Bloom filter, and chrono and rust-decimal (the opaque
  component \<open>'x\<close> of keys and values). \<open>u64\<close> and \<open>u32\<close> are words; sizes and offsets are natural numbers.

  \<^bold>\<open>The theories.\<close>
  \<^item> \<^verbatim>\<open>Prelude\<close>: results, bytes and little-endian words, binary search as in \<^verbatim>\<open>core::slice\<close>, list lemmas.
  \<^item> \<^verbatim>\<open>Ordered_Map\<close>: \<open>BTreeMap\<close> as a key-sorted association list; the locale \<open>ordered_map\<close>.
  \<^item> \<^verbatim>\<open>Values\<close> (\<^verbatim>\<open>lib.rs\<close>): keys and their derived order, values with \<open>Eq\<close> and \<open>Hash\<close>, options and their validation.
  \<^item> \<^verbatim>\<open>Framed_Log\<close> (\<^verbatim>\<open>framed_log.rs\<close>): checksummed frames, append, recovery; the locale \<open>append_log\<close>.
  \<^item> \<^verbatim>\<open>Mem_Table\<close> (\<^verbatim>\<open>memtable.rs\<close>, \<^verbatim>\<open>wal.rs\<close>): the memtable and the write-ahead log; crash recovery.
  \<^item> \<^verbatim>\<open>Bloom\<close> (\<^verbatim>\<open>bloom.rs\<close>) and \<^verbatim>\<open>Block_Cache\<close> (\<^verbatim>\<open>block_cache.rs\<close>): the filter; the linked-array LRU
    cache, refined to a recency list, and its shards; the locale \<open>forgetful_cache\<close>.
  \<^item> \<^verbatim>\<open>SSTable\<close> (\<^verbatim>\<open>sstable.rs\<close>): writer, atomic publication, reader; round trip, corruption.
  \<^item> \<^verbatim>\<open>Iterators\<close> (\<^verbatim>\<open>merge_iter.rs\<close>, \<^verbatim>\<open>scan_iter.rs\<close>): block iterator, k-way merge, scan; newest entry wins.
  \<^item> \<^verbatim>\<open>Snapshot_Log\<close> (\<^verbatim>\<open>snapshot_log.rs\<close>, \<^verbatim>\<open>manifest.rs\<close>): generations, atomic replacement; the locale \<open>journal\<close>.
  \<^item> \<^verbatim>\<open>Engine_Read\<close> (\<^verbatim>\<open>engine.rs\<close>): lookups, batched lookups, scans, filtered scans against one abstract stack of tables.
  \<^item> \<^verbatim>\<open>Compaction\<close> and \<^verbatim>\<open>Compaction_Correct\<close> (\<^verbatim>\<open>engine.rs\<close>): the compaction of a level with all faults,
    that it never changes a lookup, and that the loop around it ends.
  \<^item> \<^verbatim>\<open>Write_Queue\<close> (\<^verbatim>\<open>engine.rs\<close>): group commit as a step relation over writers; every task is committed once, in
    order, and no writer is left parked.
  \<^item> \<^verbatim>\<open>Engine_Write\<close> (\<^verbatim>\<open>engine.rs\<close>): commits, sealing, flushing, retirement of WAL segments and backpressure, and
    all of it interleaved with reads and compactions under the group commit.
  \<^item> \<^verbatim>\<open>Unicode\<close>, \<^verbatim>\<open>Rows\<close> and \<^verbatim>\<open>Schema\<close> (\<^verbatim>\<open>row.rs\<close>, \<^verbatim>\<open>schema.rs\<close>): UTF-8 strings, the projected row decoder
    against the full decoding, layouts, locality groups, validation, primary keys.

  \<^bold>\<open>Bounds.\<close> Loops of the source that are structurally bounded are recursive functions; the merge,
  scan and compaction loops are \<open>partial_function (option)\<close>, with lemmas that they return. File ids are
  64-bit; the compaction theorems ask for as many unused ids as entries can be written.
\<close>

end
